(* ===== verification/Prelude.thy ===== *)
theory Prelude
  imports Main "HOL-Library.AList" "HOL-Library.Word" "HOL-Library.Multiset" "HOL-Library.Sublist"
begin

section \<open>Shared vocabulary of the relay model\<close>

text \<open>
  What every component theory uses: hash maps (folly::F14FastMap, std::unordered_map)
  as association lists whose order is the iteration order of the moment, the contract of
  std::sort, fixed-width arithmetic on \<open>nat\<close>, and a few facts on lists.
  \<^item> \<open>hm_simps\<close> collects the find-after-update laws of hash maps;
  \<^item> locale \<open>std_sort\<close> is what the C++ standard promises of std::sort: the result is a
    permutation in which no later element has to come before an earlier one (the order of
    equivalent elements is not specified).
\<close>

named_theorems hm_simps "find-after-update laws of hash maps"

subsection \<open>Hash maps\<close>

type_synonym ('k, 'v) hmap = "('k \<times> 'v) list"

abbreviation hm_find :: "('k, 'v) hmap \<Rightarrow> 'k \<Rightarrow> 'v option" where
  "hm_find m k \<equiv> map_of m k"

abbreviation hm_keys :: "('k, 'v) hmap \<Rightarrow> 'k list" where
  "hm_keys m \<equiv> map fst m"

text \<open>insert_or_assign, and \<open>m[k] = v\<close>.\<close>

abbreviation hm_set :: "'k \<Rightarrow> 'v \<Rightarrow> ('k, 'v) hmap \<Rightarrow> ('k, 'v) hmap" where
  "hm_set k v m \<equiv> AList.update k v m"

abbreviation hm_erase :: "'k \<Rightarrow> ('k, 'v) hmap \<Rightarrow> ('k, 'v) hmap" where
  "hm_erase k m \<equiv> AList.delete k m"

text \<open>emplace and try_emplace: a key that is present keeps its value.\<close>

definition hm_emplace :: "'k \<Rightarrow> 'v \<Rightarrow> ('k, 'v) hmap \<Rightarrow> ('k, 'v) hmap" where
  "hm_emplace k v m = (case map_of m k of Some _ \<Rightarrow> m | None \<Rightarrow> m @ [(k, v)])"

text \<open>\<open>f(m[k])\<close>: operator[] inserts a default-constructed value first.\<close>

definition hm_at :: "'k \<Rightarrow> 'v \<Rightarrow> ('v \<Rightarrow> 'v) \<Rightarrow> ('k, 'v) hmap \<Rightarrow> ('k, 'v) hmap" where
  "hm_at k d f m = hm_set k (f (case map_of m k of Some v \<Rightarrow> v | None \<Rightarrow> d)) m"

lemma hm_find_set [hm_simps, simp]: "hm_find (hm_set k v m) k' = (if k' = k then Some v else hm_find m k')"
  by (simp add: update_conv')

lemma hm_find_erase [hm_simps, simp]: "hm_find (hm_erase k m) k' = (if k' = k then None else hm_find m k')"
  by (simp add: delete_conv')

lemma hm_find_emplace [hm_simps]:
  "hm_find (hm_emplace k v m) k' =
     (case hm_find m k' of Some w \<Rightarrow> Some w | None \<Rightarrow> if k' = k then Some v else None)"
  by (auto simp: hm_emplace_def map_add_def split: option.splits)

lemma hm_find_at [hm_simps]:
  "hm_find (hm_at k d f m) k' =
     (if k' = k then Some (f (case hm_find m k of Some v \<Rightarrow> v | None \<Rightarrow> d)) else hm_find m k')"
  by (simp add: hm_at_def)

lemma hm_keys_set: "set (hm_keys (hm_set k v m)) = insert k (set (hm_keys m))"
  by (auto simp: update_keys)

lemma hm_keys_erase: "set (hm_keys (hm_erase k m)) = set (hm_keys m) - {k}"
  by (simp add: delete_keys del: set_map list.set_map)

lemma hm_distinct_set [intro, simp]: "distinct (hm_keys m) \<Longrightarrow> distinct (hm_keys (hm_set k v m))"
  by (rule distinct_update)

lemma hm_distinct_erase [intro, simp]: "distinct (hm_keys m) \<Longrightarrow> distinct (hm_keys (hm_erase k m))"
  by (rule distinct_delete)

lemma hm_distinct_emplace [intro, simp]: "distinct (hm_keys m) \<Longrightarrow> distinct (hm_keys (hm_emplace k v m))"
  by (auto simp: hm_emplace_def map_of_eq_None_iff split: option.splits)

lemma hm_distinct_at [intro, simp]: "distinct (hm_keys m) \<Longrightarrow> distinct (hm_keys (hm_at k d f m))"
  by (simp add: hm_at_def)

lemma hm_find_None: "hm_find m k = None \<longleftrightarrow> k \<notin> set (hm_keys m)"
  by (simp add: map_of_eq_None_iff)

lemma hm_mem_find: "distinct (hm_keys m) \<Longrightarrow> (k, v) \<in> set m \<longleftrightarrow> hm_find m k = Some v"
  by (rule map_of_eq_Some_iff [symmetric])

lemma hm_find_map: "hm_find (map (\<lambda>(k, v). (k, f k v)) m) k = map_option (f k) (hm_find m k)"
  by (induction m) auto

lemma hm_keys_map [simp]: "hm_keys (map (\<lambda>(k, v). (k, f k v)) m) = hm_keys m"
  by (induction m) auto

subsection \<open>std::sort\<close>

locale std_sort =
  fixes less :: "'a \<Rightarrow> 'a \<Rightarrow> bool" and srt :: "'a list \<Rightarrow> 'a list"
  assumes sort_perm: "mset (srt xs) = mset xs"
    and sort_ordered: "sorted_wrt (\<lambda>a b. \<not> less b a) (srt xs)"
begin

lemma sort_set [simp]: "set (srt xs) = set xs"
  using mset_eq_setD [OF sort_perm] .

lemma sort_length [simp]: "length (srt xs) = length xs"
  using mset_eq_length [OF sort_perm] .

lemma sort_distinct [simp]: "distinct (srt xs) = distinct xs"
  using mset_eq_imp_distinct_iff [OF sort_perm] .

text \<open>A linear scan of the sorted list stops at an element no other hit has to precede.\<close>

lemma find_sorted_best:
  assumes "find P (srt xs) = Some x"
  shows "x \<in> set xs \<and> P x \<and> (\<forall>y\<in>set xs. P y \<longrightarrow> \<not> less y x \<or> y = x)"
proof -
  obtain i where i: "i < length (srt xs)" "P (srt xs ! i)" "x = srt xs ! i"
    "\<forall>j<i. \<not> P (srt xs ! j)"
    using assms by (auto simp: find_Some_iff)
  define ys where "ys = take i (srt xs)"
  define zs where "zs = drop (Suc i) (srt xs)"
  have split: "srt xs = ys @ x # zs"
    unfolding ys_def zs_def i(3) using i(1) by (rule id_take_nth_drop)
  have x: "P x" using i by simp
  have ys: "\<forall>y\<in>set ys. \<not> P y"
    using i(1,4) by (auto simp: ys_def in_set_conv_nth)
  have "\<forall>z\<in>set zs. \<not> less z x"
    using sort_ordered [of xs] by (simp add: split sorted_wrt_append)
  moreover have "set xs = set ys \<union> {x} \<union> set zs"
    using sort_set [of xs] by (simp add: split)
  ultimately show ?thesis using x ys by auto
qed

lemma find_sorted_None: "find P (srt xs) = None \<longleftrightarrow> (\<forall>x\<in>set xs. \<not> P x)"
  by (auto simp: find_None_iff)

end

text \<open>Sorting by a numeric key, largest first: a stable sort meets the contract.\<close>

definition desc_by :: "('a \<Rightarrow> nat) \<Rightarrow> 'a list \<Rightarrow> 'a list" where
  "desc_by f xs = sort_key (\<lambda>x. - int (f x)) xs"

lemma desc_by_std_sort: "std_sort (\<lambda>a b. f a > f b) (desc_by f)"
proof
  fix xs :: "'a list"
  show "mset (desc_by f xs) = mset xs" by (simp add: desc_by_def)
  have "sorted (map (\<lambda>x. - int (f x)) (desc_by f xs))"
    by (simp add: desc_by_def)
  then show "sorted_wrt (\<lambda>a b. \<not> f b > f a) (desc_by f xs)"
    by (simp add: sorted_map not_less)
qed

text \<open>Sorting a list of numbers (or strings) with the default comparison.\<close>

interpretation ascending: std_sort "(<) :: nat \<Rightarrow> nat \<Rightarrow> bool" sort
proof
  fix xs :: "nat list"
  show "mset (sort xs) = mset xs" by simp
  show "sorted_wrt (\<lambda>a b. \<not> b < a) (sort xs)" using sorted_sort [of xs] by (simp add: not_less)
qed

subsection \<open>Fixed-width arithmetic\<close>

text \<open>Unsigned 64-bit addition and subtraction (std::size_t and uint64_t) on \<open>nat\<close>.\<close>

definition add64 :: "nat \<Rightarrow> nat \<Rightarrow> nat" where
  "add64 a b = (a + b) mod 2 ^ 64"

definition sub64 :: "nat \<Rightarrow> nat \<Rightarrow> nat" where
  "sub64 a b = (a + (2 ^ 64 - b mod 2 ^ 64)) mod 2 ^ 64"

lemma add64_exact: "a + b < 2 ^ 64 \<Longrightarrow> add64 a b = a + b"
  by (simp add: add64_def)

lemma sub64_exact: "b \<le> a \<Longrightarrow> a < 2 ^ 64 \<Longrightarrow> sub64 a b = a - b"
proof -
  assume b: "b \<le> a" and a: "a < 2 ^ 64"
  then have "a + (2 ^ 64 - b mod 2 ^ 64) = (a - b) + 2 ^ 64" by simp
  then show "sub64 a b = a - b" using a by (simp add: sub64_def)
qed

subsection \<open>Lists\<close>

lemma take_prefix_iff: "(length p \<le> length xs \<and> take (length p) xs = p) \<longleftrightarrow> prefix p xs"
proof
  assume "length p \<le> length xs \<and> take (length p) xs = p"
  then show "prefix p xs" using take_is_prefix [of "length p" xs] by simp
next
  assume "prefix p xs"
  then show "length p \<le> length xs \<and> take (length p) xs = p" by (auto simp: prefix_def)
qed

lemma prefix_same_length: "prefix p xs \<Longrightarrow> prefix q xs \<Longrightarrow> length p = length q \<Longrightarrow> p = q"
  by (auto simp: prefix_def append_eq_append_conv)

subsection \<open>std::optional\<close>

definition value_or :: "'a option \<Rightarrow> 'a \<Rightarrow> 'a" where
  "value_or opt d = (case opt of Some v \<Rightarrow> v | None \<Rightarrow> d)"

lemma value_or_simps [simp]: "value_or (Some v) d = v" "value_or None d = d"
  by (simp_all add: value_or_def)

subsection \<open>Numbers as text\<close>

text \<open>std::to_string of an unsigned number and the digits of std::hex.\<close>

definition digit_char :: "nat \<Rightarrow> char" where
  "digit_char d = char_of (if d < 10 then 48 + d else 87 + d)"

definition char_digit :: "char \<Rightarrow> nat" where
  "char_digit c = (let n = of_char c in if n < 58 then n - 48 else n - 87)"

fun to_string :: "nat \<Rightarrow> string" where
  "to_string n = (if n < 10 then [digit_char n] else to_string (n div 10) @ [digit_char (n mod 10)])"

declare to_string.simps [simp del]

text \<open>The last \<open>k\<close> digits in a base, most significant first.\<close>

fun digits_of :: "nat \<Rightarrow> nat \<Rightarrow> nat \<Rightarrow> string" where
  "digits_of b 0 n = []"
| "digits_of b (Suc k) n = digits_of b k (n div b) @ [digit_char (n mod b)]"

definition number_of_digits :: "nat \<Rightarrow> string \<Rightarrow> nat" where
  "number_of_digits b ds = foldl (\<lambda>n c. n * b + char_digit c) 0 ds"

lemma char_digit_char [simp]: "d < 36 \<Longrightarrow> char_digit (digit_char d) = d"
  by (simp add: char_digit_def digit_char_def)

lemma number_of_to_string [simp]: "number_of_digits 10 (to_string n) = n"
proof (induction n rule: to_string.induct)
  case (1 n)
  then show ?case by (subst to_string.simps) (auto simp: number_of_digits_def)
qed

lemma to_string_inj: "to_string m = to_string n \<Longrightarrow> m = n"
  by (drule arg_cong [where f = "number_of_digits 10"]) simp

lemma to_string_chars: "c \<in> set (to_string n) \<Longrightarrow> \<exists>d<10. c = digit_char d"
proof (induction n rule: to_string.induct)
  case (1 n)
  have "\<exists>d<10. digit_char (n mod 10) = digit_char d" by (rule exI [of _ "n mod 10"]) simp
  with 1 show ?case by (subst (asm) (2) to_string.simps) (auto split: if_splits)
qed

lemma digits_of_length [simp]: "length (digits_of b k n) = k"
  by (induction b k n rule: digits_of.induct) auto

lemma digits_of_chars: "0 < b \<Longrightarrow> c \<in> set (digits_of b k n) \<Longrightarrow> \<exists>d<b. c = digit_char d"
proof (induction b k n rule: digits_of.induct)
  case (2 b k n)
  have "n mod b < b" using 2 by simp
  with 2 show ?case by auto
qed simp

lemma number_of_digits_of:
  assumes "0 < b" "b \<le> 36"
  shows "number_of_digits b (digits_of b k n) = n mod b ^ k"
proof (induction k arbitrary: n)
  case (Suc k)
  have "n mod b < 36" using assms by (meson less_le_trans mod_less_divisor)
  then have "number_of_digits b (digits_of b (Suc k) n) = number_of_digits b (digits_of b k (n div b)) * b + n mod b"
    by (simp add: number_of_digits_def)
  also have "\<dots> = (n div b) mod b ^ k * b + n mod b" using Suc by simp
  also have "\<dots> = n mod (b * b ^ k)" by (simp add: mod_mult2_eq mult.commute)
  finally show ?case by simp
qed (simp add: number_of_digits_def)

subsection \<open>Runs of operations\<close>

fun run_all :: "('op \<Rightarrow> 't \<Rightarrow> 't option) \<Rightarrow> 'op list \<Rightarrow> 't \<Rightarrow> 't option" where
  "run_all exec [] t = Some t"
| "run_all exec (op # ops) t = Option.bind (exec op t) (run_all exec ops)"

text \<open>A component whose operations never fail in a reachable state and change one key each.\<close>

locale keyed_store =
  fixes store_inv :: "'t \<Rightarrow> bool" and read :: "'t \<Rightarrow> 'k \<Rightarrow> 'c" and exec :: "'op \<Rightarrow> 't \<Rightarrow> 't option"
    and target :: "'op \<Rightarrow> 'k" and init :: 't
  assumes init_inv: "store_inv init"
    and exec_ok: "store_inv t \<Longrightarrow> \<exists>t'. exec op t = Some t' \<and> store_inv t' \<and> (\<forall>k. k \<noteq> target op \<longrightarrow> read t' k = read t k)"
begin

lemma run_ok: "store_inv t \<Longrightarrow> \<exists>t'. run_all exec ops t = Some t' \<and> store_inv t'"
proof (induction ops arbitrary: t)
  case (Cons op ops)
  then show ?case using exec_ok [OF Cons.prems, of op] by auto
qed simp

lemma run_inv: "run_all exec ops init = Some t \<Longrightarrow> store_inv t"
  using run_ok [OF init_inv, of ops] by auto

lemma run_frame:
  "store_inv t \<Longrightarrow> run_all exec ops t = Some t' \<Longrightarrow> k \<notin> target ` set ops \<Longrightarrow> read t' k = read t k"
proof (induction ops arbitrary: t)
  case (Cons op ops)
  obtain t1 where t1: "exec op t = Some t1" "store_inv t1" "\<forall>k. k \<noteq> target op \<longrightarrow> read t1 k = read t k"
    using exec_ok [OF Cons.prems(1)] by blast
  with Cons show ?case by simp
qed simp

end

subsection \<open>Loops that shrink their state\<close>

text \<open>
  A loop whose every pass keeps an invariant and makes a measure smaller: it ends, with its condition
  false, and whatever each pass preserves holds between the start and the end.
\<close>

locale shrinking_loop =
  fixes loop :: "'s \<Rightarrow> 's option" and cond :: "'s \<Rightarrow> bool" and pass :: "'s \<Rightarrow> 's" and rank :: "'s \<Rightarrow> nat"
    and loop_inv :: "'s \<Rightarrow> bool" and rel :: "'s \<Rightarrow> 's \<Rightarrow> bool"
  assumes loop_unfold: "loop s = (if cond s then loop (pass s) else Some s)"
    and pass_ok: "loop_inv s \<Longrightarrow> cond s \<Longrightarrow> loop_inv (pass s) \<and> rel s (pass s) \<and> rank (pass s) < rank s"
    and rel_refl: "loop_inv s \<Longrightarrow> rel s s"
    and rel_trans: "rel s t \<Longrightarrow> rel t u \<Longrightarrow> rel s u"
begin

lemma loop_ends: "loop_inv s \<Longrightarrow> \<exists>s'. loop s = Some s' \<and> loop_inv s' \<and> rel s s' \<and> \<not> cond s'"
proof (induction "rank s" arbitrary: s rule: less_induct)
  case less
  show ?case
  proof (cases "cond s")
    case False
    then show ?thesis using less.prems rel_refl loop_unfold [of s] by simp
  next
    case True
    note p = pass_ok [OF less.prems True]
    from p less.hyps [of "pass s"] obtain s' where "loop (pass s) = Some s'" "loop_inv s'" "rel (pass s) s'" "\<not> cond s'" by blast
    then show ?thesis using p True loop_unfold [of s] rel_trans by auto
  qed
qed

end

end
