(* ===== verification/Config_Types.thy ===== *)
theory Config_Types
  imports Complex_Main Prelude
begin

section \<open>The resolved configuration (src/src/config/Config.h)\<close>

text \<open>
  The structs and variants of Config.h, field by field: a struct is a record, a
  std::variant a datatype, uintN_t an N-bit word, std::chrono::milliseconds a \<open>nat\<close> of
  milliseconds (every duration here comes from an unsigned 32-bit number of seconds or
  milliseconds). folly::SocketAddress is not part of this repository: it is the type
  parameter \<open>'addr\<close>. A float or double is \<open>fval\<close>: a finite number, an infinity or NaN,
  which is all that the configuration code distinguishes (a literal such as 0.05 is the
  number as written).
\<close>

type_synonym u8 = "8 word"
type_synonym u16 = "16 word"
type_synonym u32 = "32 word"
type_synonym u64 = "64 word"

datatype fval = Finite rat | PosInf | NegInf | NaN

text \<open>IEEE comparisons: every comparison with NaN is false.\<close>

fun f_le :: "fval \<Rightarrow> fval \<Rightarrow> bool" where
  "f_le NaN _ = False"
| "f_le _ NaN = False"
| "f_le NegInf _ = True"
| "f_le _ PosInf = True"
| "f_le (Finite a) (Finite b) = (a \<le> b)"
| "f_le _ _ = False"

fun f_lt :: "fval \<Rightarrow> fval \<Rightarrow> bool" where
  "f_lt NaN _ = False"
| "f_lt _ NaN = False"
| "f_lt NegInf b = (b \<noteq> NegInf)"
| "f_lt a PosInf = (a \<noteq> PosInf)"
| "f_lt (Finite a) (Finite b) = (a < b)"
| "f_lt _ _ = False"

subsection \<open>TLS, cache and QUIC settings\<close>

record tls_config =
  certFile :: string
  keyFile :: string
  alpn :: "string list"

datatype tls_mode = Insecure | Tls tls_config

record cache_config =
  maxCachedTracks :: nat
  maxCachedGroupsPerTrack :: nat
  maxCachedMb :: u32
  minEvictionKb :: u32
  maxCacheDuration :: nat
  defaultMaxCacheDuration :: "nat option"

datatype quic_stack = Mvfst | Picoquic

record quic_config =
  maxData :: u64
  maxStreamData :: u64
  maxUniStreams :: u64
  maxBidiStreams :: u64
  idleTimeoutMs :: u64
  maxAckDelayUs :: u32
  minAckDelayUs :: u32
  defaultStreamPriority :: u8
  defaultDatagramPriority :: u8
  ccAlgo :: string

definition quic_config_default :: quic_config where
  "quic_config_default =
     \<lparr>maxData = 67108864, maxStreamData = 16777216, maxUniStreams = 8192, maxBidiStreams = 16,
      idleTimeoutMs = 30000, maxAckDelayUs = 25000, minAckDelayUs = 1000,
      defaultStreamPriority = 2, defaultDatagramPriority = 1, ccAlgo = ''bbr''\<rparr>"

record bbr_config =
  conservativeRecovery :: bool
  largeProbeRttCwnd :: bool
  enableAckAggregationInStartup :: bool
  probeRttDisabledIfAppLimited :: bool
  drainToTarget :: bool

record bbr2_config =
  ignoreInflightLongTerm :: bool
  ignoreShortTerm :: bool
  exitStartupOnLoss :: bool
  enableRecoveryInStartup :: bool
  enableRecoveryInProbeStates :: bool
  enableRenoCoexistence :: bool
  paceInitCwnd :: bool
  overrideCruisePacingGain :: fval
  overrideCruiseCwndGain :: fval
  overrideStartupPacingGain :: fval
  overrideBwShortBeta :: fval

record cubic_config =
  additiveIncreaseAfterHystart :: bool
  onlyGrowCwndWhenLimited :: bool
  leaveHeadroomForCwndLimited :: bool

record mvfst_config =
  maxCwndInMss :: u64
  pacingEnabled :: bool
  enableGSO :: bool
  maxConnPacketsSentPerLoop :: u32
  useRecvmmsg :: bool
  maxServerRecvPacketsPerLoop :: u16
  numGROBuffers :: u32
  bbr :: bbr_config
  bbr2 :: bbr2_config
  cubic :: cubic_config
  copa_deltaParam :: fval
  l4s_ceTarget :: fval

definition mvfst_config_default :: mvfst_config where
  "mvfst_config_default =
     \<lparr>maxCwndInMss = 860000, pacingEnabled = True, enableGSO = True,
      maxConnPacketsSentPerLoop = 48, useRecvmmsg = True, maxServerRecvPacketsPerLoop = 64,
      numGROBuffers = 1,
      bbr = \<lparr>conservativeRecovery = False, largeProbeRttCwnd = False,
        enableAckAggregationInStartup = False, probeRttDisabledIfAppLimited = False,
        drainToTarget = False\<rparr>,
      bbr2 = \<lparr>ignoreInflightLongTerm = False, ignoreShortTerm = False, exitStartupOnLoss = True,
        enableRecoveryInStartup = True, enableRecoveryInProbeStates = True,
        enableRenoCoexistence = False, paceInitCwnd = False,
        overrideCruisePacingGain = Finite (- 1), overrideCruiseCwndGain = Finite (- 1),
        overrideStartupPacingGain = Finite (- 1), overrideBwShortBeta = Finite 0\<rparr>,
      cubic = \<lparr>additiveIncreaseAfterHystart = False, onlyGrowCwndWhenLimited = False,
        leaveHeadroomForCwndLimited = False\<rparr>,
      copa_deltaParam = Finite (1 / 20), l4s_ceTarget = Finite 0\<rparr>"

subsection \<open>Listeners, services, the whole configuration\<close>

record 'addr listener_config =
  l_name :: string
  l_address :: 'addr
  tlsMode :: tls_mode
  endpoint :: string
  moqtVersions :: string
  quicStack :: quic_stack
  quic :: quic_config
  sbdOwd :: bool
  mvfst :: mvfst_config

record upstream_tls_config =
  up_insecure :: bool
  caCertFile :: "string option"

record upstream_config =
  url :: string
  up_tls :: upstream_tls_config
  connectTimeout :: nat
  idleTimeout :: nat

datatype authority = ExactAuthority string | WildcardAuthority string | AnyAuthority

datatype path_matcher = ExactPath string | PrefixPath string

record match_entry =
  me_authority :: authority
  me_path :: path_matcher

record service_config =
  svc_match :: "match_entry list"
  svc_cache :: cache_config
  svc_upstream :: "upstream_config option"

record 'addr admin_config =
  ad_address :: 'addr
  ad_tls :: "tls_config option"

record sbd_config =
  sbd_enabled :: bool
  delaySource :: string
  outputFile :: string
  algorithm :: string

record 'addr config =
  listeners :: "'addr listener_config list"
  services :: "(string, service_config) hmap"
  admin :: "'addr admin_config option"
  relayID :: string
  threads :: u32
  mvfstBpfSteering :: bool
  edge :: bool
  sbd :: sbd_config
  rttOutputs :: "(string \<times> string) list"

end
