(* ===== verification/Parsed_Config.thy ===== *)
theory Parsed_Config
  imports Config_Types
begin

section \<open>The configuration file as parsed (src/src/config/loader/ParsedConfig.h)\<close>

text \<open>
  What the YAML reader fills in, struct by struct and field by field, in the order of the
  header; rfl::Description only attaches a help text and is dropped. A std::map is the list
  of its entries in key order.
\<close>

record parsed_socket_config =
  s_address :: string
  s_port :: u16

record parsed_udp_config =
  u_socket :: parsed_socket_config

record parsed_listener_tls_config =
  lt_cert_file :: "string option"
  lt_key_file :: "string option"
  lt_insecure :: bool

record parsed_admin_tls_config =
  at_cert_file :: "string option"
  at_key_file :: "string option"
  at_alpn :: "string list option"

record parsed_quic_config =
  max_data :: "u64 option"
  max_stream_data :: "u64 option"
  max_uni_streams :: "u64 option"
  max_bidi_streams :: "u64 option"
  idle_timeout_ms :: "u64 option"
  max_ack_delay_us :: "u32 option"
  min_ack_delay_us :: "u32 option"
  default_stream_priority :: "u8 option"
  default_datagram_priority :: "u8 option"
  cc_algo :: "string option"

record parsed_bbr =
  conservative_recovery :: "bool option"
  large_probe_rtt_cwnd :: "bool option"
  enable_ack_aggregation_in_startup :: "bool option"
  probe_rtt_disabled_if_app_limited :: "bool option"
  drain_to_target :: "bool option"

record parsed_bbr2 =
  ignore_inflight_long_term :: "bool option"
  ignore_short_term :: "bool option"
  exit_startup_on_loss :: "bool option"
  enable_recovery_in_startup :: "bool option"
  enable_recovery_in_probe_states :: "bool option"
  enable_reno_coexistence :: "bool option"
  pace_init_cwnd :: "bool option"
  override_cruise_pacing_gain :: "fval option"
  override_cruise_cwnd_gain :: "fval option"
  override_startup_pacing_gain :: "fval option"
  override_bw_short_beta :: "fval option"

record parsed_cubic =
  additive_increase_after_hystart :: "bool option"
  only_grow_cwnd_when_limited :: "bool option"
  leave_headroom_for_cwnd_limited :: "bool option"

record parsed_copa =
  delta_param :: "fval option"

record parsed_l4s =
  ce_target :: "fval option"

record parsed_mvfst_config =
  max_cwnd_in_mss :: "u64 option"
  pacing_enabled :: "bool option"
  enable_gso :: "bool option"
  max_conn_packets_sent_per_loop :: "u32 option"
  use_recvmmsg :: "bool option"
  max_server_recv_packets_per_loop :: "u16 option"
  num_gro_buffers :: "u32 option"
  m_bbr :: "parsed_bbr option"
  m_bbr2 :: "parsed_bbr2 option"
  m_cubic :: "parsed_cubic option"
  m_copa :: "parsed_copa option"
  m_l4s :: "parsed_l4s option"

record parsed_listener_config =
  pl_name :: string
  pl_udp :: parsed_udp_config
  pl_tls :: parsed_listener_tls_config
  pl_endpoint :: string
  moqt_versions :: "u32 list option"
  pl_quic_stack :: "string option"
  pl_quic :: "parsed_quic_config option"
  pl_mvfst :: "parsed_mvfst_config option"

record parsed_cache_config =
  enabled :: "bool option"
  max_tracks :: "u32 option"
  max_groups_per_track :: "u32 option"
  max_cached_mb :: "u32 option"
  min_eviction_kb :: "u32 option"
  max_cache_duration_s :: "u32 option"
  default_max_cache_duration_s :: "u32 option"

record parsed_admin_config =
  pa_port :: u16
  pa_address :: string
  plaintext :: bool
  pa_tls :: "parsed_admin_tls_config option"

record parsed_upstream_tls_config =
  ut_insecure :: bool
  ca_cert :: "string option"

record parsed_upstream_config =
  pu_url :: string
  pu_tls :: parsed_upstream_tls_config
  connect_timeout_ms :: "u32 option"
  pu_idle_timeout_ms :: "u32 option"

datatype authority_match = PExactAuthority string | PWildcardAuthority string | PAnyAuthority bool

datatype parsed_path_match = PExactPath string | PPrefixPath string

record match_rule =
  mr_authority :: authority_match
  mr_path :: parsed_path_match

record parsed_service_config =
  ps_match :: "match_rule list"
  ps_cache :: "parsed_cache_config option"
  ps_upstream :: "parsed_upstream_config option"

record parsed_listener_defaults_config =
  ld_quic :: "parsed_quic_config option"
  ld_mvfst :: "parsed_mvfst_config option"

record parsed_service_defaults_config =
  sd_cache :: "parsed_cache_config option"

record parsed_sbd_config =
  ps_enabled :: "bool option"
  delay_source :: "string option"
  output_file :: "string option"
  ps_algorithm :: "string option"

record parsed_config =
  rtt_outputs :: "(string \<times> string) list option"
  pc_edge :: "bool option"
  pc_sbd :: "parsed_sbd_config option"
  pc_listeners :: "parsed_listener_config list"
  service_defaults :: "parsed_service_defaults_config option"
  pc_services :: "(string \<times> parsed_service_config) list"
  pc_admin :: "parsed_admin_config option"
  relay_id :: "string option"
  listener_defaults :: "parsed_listener_defaults_config option"
  pc_threads :: "u32 option"
  mvfst_bpf_steering :: "bool option"

end
