(* ===== verification/Config_Resolver.thy ===== *)
theory Config_Resolver
  imports Parsed_Config
begin

unbundle bit_operations_syntax

section \<open>Validating and resolving the configuration (src/src/config/ConfigResolver.cpp)\<close>

text \<open>
  One definition per function of the file. The vectors \<open>errors\<close> and \<open>warnings\<close> that the
  functions push to are the lists they return, appended in the order of the calls; every
  push_back is a constructor of \<open>config_error\<close> or \<open>config_warning\<close> with what its message
  names (the label "Service 'n' match[j]" is the pair \<open>(n, j)\<close>).

  Not part of this repository and so parameters of \<open>resolveConfig\<close>: \<open>sockaddr\<close>, the
  constructor of folly::SocketAddress (\<open>None\<close> when it throws on a malformed address),
  \<open>ip_valid\<close> (folly::IPAddress::validate), and the two words \<open>r1 r2\<close> drawn from
  std::random_device. A dereference of an empty optional or a failing \<open>at\<close> is the outcome
  \<open>Undefined\<close>, so that its absence is something to prove.
\<close>

type_synonym label = "string \<times> nat"

datatype config_error =
    TlsFilesRequired string | AdminTlsFilesRequired
  | PortZero string | UnknownQuicStack string string | PicoquicInsecure string
  | AdminPortZero | AdminTlsAndPlaintext | AdminTlsOrPlaintext
  | EmptyExactAuthority label | WildcardStart label string | WildcardStars label string | AnyNotTrue label
  | EmptyPath label | PathNoSlash label string
  | UpstreamUrlEmpty | UpstreamTlsConflict
  | DuplicateMatch string string
  | CacheEnabledRequired string | CacheMaxTracksRequired string | CacheMaxGroupsRequired string
  | CacheMaxGroupsZero string | CacheDurationZero string | CacheMbZero string
  | MaxDataTooSmall string u64 u64 | AckDelayOrder string u32 u32 | BadCcAlgo string string
  | MaxCwndZero string | PacketsPerLoopZero string | GroBuffersZero string
  | CopaDeltaRange string fval | L4sTargetRange string fval
  | DuplicateListenerAddress string | PacingIncompatible string string
  | NoServices | ThreadsZero | ThreadsUnsupported
  | SbdDelaySource | SbdAlgorithm | DcSbdNeedsOwd | SbdNeedsEdge
  | RttNeedsMvfst | RttBadOutput

datatype config_warning =
    TlsFilesIgnored string
  | FewUniStreams string u64 | FewBidiStreams string u64 | ShortIdleTimeout string u64
  | ManyGroBuffers string u32
  | PicoPrefixPath "string list" string nat string | PicoNoExactPath "string list"

type_synonym diagnostics = "config_error list \<times> config_warning list"

definition report :: "bool \<Rightarrow> 'e \<Rightarrow> 'e list" where
  "report b e = (if b then [e] else [])"

definition both :: "diagnostics \<Rightarrow> diagnostics \<Rightarrow> diagnostics" where
  "both d d' = (fst d @ fst d', snd d @ snd d')"

text \<open>folly::join.\<close>

fun join :: "string \<Rightarrow> string list \<Rightarrow> string" where
  "join sep [] = []"
| "join sep [x] = x"
| "join sep (x # y # xs) = x @ sep @ join sep (y # xs)"

definition moqtVersionsToString :: "parsed_listener_config \<Rightarrow> string" where
  "moqtVersionsToString listener =
     (case moqt_versions listener of
        None \<Rightarrow> []
      | Some vs \<Rightarrow> (if vs = [] then [] else join '','' (map (\<lambda>v. to_string (unat v)) vs)))"

subsection \<open>Merging the caches\<close>

definition overlay_opt :: "'a option \<Rightarrow> 'a option \<Rightarrow> 'a option" where
  "overlay_opt over base = (if over \<noteq> None then over else base)"

definition mergeCacheConfigs :: "parsed_cache_config \<Rightarrow> parsed_cache_config \<Rightarrow> parsed_cache_config" where
  "mergeCacheConfigs base over =
     \<lparr>enabled = overlay_opt (enabled over) (enabled base),
      max_tracks = overlay_opt (max_tracks over) (max_tracks base),
      max_groups_per_track = overlay_opt (max_groups_per_track over) (max_groups_per_track base),
      max_cached_mb = overlay_opt (max_cached_mb over) (max_cached_mb base),
      min_eviction_kb = overlay_opt (min_eviction_kb over) (min_eviction_kb base),
      max_cache_duration_s = overlay_opt (max_cache_duration_s over) (max_cache_duration_s base),
      default_max_cache_duration_s =
        overlay_opt (default_max_cache_duration_s over) (default_max_cache_duration_s base)\<rparr>"

subsection \<open>TLS\<close>

definition has_text :: "string option \<Rightarrow> bool" where
  "has_text opt = (case opt of Some s \<Rightarrow> s \<noteq> [] | None \<Rightarrow> False)"

definition validateListenerTlsConfig :: "parsed_listener_tls_config \<Rightarrow> string \<Rightarrow> diagnostics" where
  "validateListenerTlsConfig t context =
     (let hasCert = has_text (lt_cert_file t); hasKey = has_text (lt_key_file t)
      in if \<not> lt_insecure t then (report (\<not> hasCert \<or> \<not> hasKey) (TlsFilesRequired context), [])
         else ([], report (hasCert \<or> hasKey) (TlsFilesIgnored context)))"

definition validateAdminTlsConfig :: "parsed_admin_tls_config \<Rightarrow> config_error list" where
  "validateAdminTlsConfig t =
     (let hasCert = has_text (at_cert_file t); hasKey = has_text (at_key_file t)
      in report (\<not> hasCert \<or> \<not> hasKey) AdminTlsFilesRequired)"

definition resolveTlsConfig :: "parsed_listener_tls_config \<Rightarrow> tls_config" where
  "resolveTlsConfig t =
     \<lparr>certFile = value_or (lt_cert_file t) [], keyFile = value_or (lt_key_file t) [], alpn = []\<rparr>"

definition resolveAdminTlsConfig :: "parsed_admin_tls_config \<Rightarrow> string list \<Rightarrow> tls_config" where
  "resolveAdminTlsConfig t defaultAlpn =
     \<lparr>certFile = value_or (at_cert_file t) [], keyFile = value_or (at_key_file t) [],
      alpn = value_or (at_alpn t) defaultAlpn\<rparr>"

subsection \<open>The resolved cache\<close>

text \<open>\<open>None\<close>: one of the three mandatory fields is dereferenced while empty.\<close>

definition resolveCacheConfig :: "parsed_cache_config \<Rightarrow> cache_config option" where
  "resolveCacheConfig c =
     (let maxDuration = unat (value_or (max_cache_duration_s c) 86400) * 1000;
          defaultDuration =
            (case default_max_cache_duration_s c of Some d \<Rightarrow> Some (unat d * 1000) | None \<Rightarrow> Some maxDuration)
      in case (enabled c, max_tracks c, max_groups_per_track c) of
           (Some en, tracks, Some groups) \<Rightarrow>
             (case (if en then map_option unat tracks else Some 0) of
                None \<Rightarrow> None
              | Some n \<Rightarrow>
                  Some \<lparr>maxCachedTracks = n, maxCachedGroupsPerTrack = unat groups,
                        maxCachedMb = value_or (max_cached_mb c) 16,
                        minEvictionKb = value_or (min_eviction_kb c) 64,
                        maxCacheDuration = maxDuration, defaultMaxCacheDuration = defaultDuration\<rparr>)
         | _ \<Rightarrow> None)"

definition makeCompositeKey :: "string \<Rightarrow> string \<Rightarrow> parsed_path_match \<Rightarrow> string" where
  "makeCompositeKey authorityType authorityValue path =
     authorityType @ '':'' @ authorityValue @ ''|'' @
     (case path of PExactPath v \<Rightarrow> ''exact:'' @ v | PPrefixPath v \<Rightarrow> ''prefix:'' @ v)"

subsection \<open>Listeners and the admin server\<close>

definition stack_string :: "parsed_listener_config \<Rightarrow> string" where
  "stack_string listener = value_or (pl_quic_stack listener) ''mvfst''"

definition validateListener :: "parsed_listener_config \<Rightarrow> diagnostics" where
  "validateListener listener =
     (let name = pl_name listener; sock = u_socket (pl_udp listener)
      in both (both (report (s_port sock = 0) (PortZero name), [])
                    (validateListenerTlsConfig (pl_tls listener) name))
              ((case pl_quic_stack listener of
                  Some st \<Rightarrow> report (st \<noteq> ''mvfst'' \<and> st \<noteq> ''picoquic'') (UnknownQuicStack name st)
                | None \<Rightarrow> []) @
               report (stack_string listener = ''picoquic'' \<and> lt_insecure (pl_tls listener))
                 (PicoquicInsecure name), []))"

definition validateAdmin :: "parsed_config \<Rightarrow> config_error list" where
  "validateAdmin cfg =
     (case pc_admin cfg of
        None \<Rightarrow> []
      | Some a \<Rightarrow>
          (let hasTls = pa_tls a \<noteq> None; hasPlaintext = plaintext a
           in report (pa_port a = 0) AdminPortZero @
              (if hasTls \<and> hasPlaintext then [AdminTlsAndPlaintext]
               else if \<not> hasTls \<and> \<not> hasPlaintext then [AdminTlsOrPlaintext] else []) @
              (case pa_tls a of Some t \<Rightarrow> validateAdminTlsConfig t | None \<Rightarrow> [])))"

subsection \<open>Match rules\<close>

record authority_info =
  ai_type :: string
  ai_value :: string

fun validateAuthority :: "authority_match \<Rightarrow> label \<Rightarrow> config_error list \<times> authority_info option" where
  "validateAuthority (PExactAuthority v) p =
     (if v = [] then ([EmptyExactAuthority p], None)
      else ([], Some \<lparr>ai_type = ''exact'', ai_value = v\<rparr>))"
| "validateAuthority (PWildcardAuthority pat) p =
     (if length pat < 3 \<or> pat ! 0 \<noteq> CHR ''*'' \<or> pat ! 1 \<noteq> CHR ''.'' then ([WildcardStart p pat], None)
      else if CHR ''*'' \<in> set (drop 2 pat) then ([WildcardStars p pat], None)
      else ([], Some \<lparr>ai_type = ''wildcard'', ai_value = pat\<rparr>))"
| "validateAuthority (PAnyAuthority b) p =
     (if \<not> b then ([AnyNotTrue p], None) else ([], Some \<lparr>ai_type = ''any'', ai_value = []\<rparr>))"

definition validatePath :: "parsed_path_match \<Rightarrow> label \<Rightarrow> config_error list \<times> bool" where
  "validatePath path p =
     (let pathVal = (case path of PExactPath v \<Rightarrow> v | PPrefixPath v \<Rightarrow> v)
      in if pathVal = [] then ([EmptyPath p], False)
         else if hd pathVal \<noteq> CHR ''/'' then ([PathNoSlash p pathVal], False)
         else ([], True))"

definition validateUpstream :: "parsed_upstream_config \<Rightarrow> config_error list" where
  "validateUpstream upstream =
     report (pu_url upstream = []) UpstreamUrlEmpty @
     report (ut_insecure (pu_tls upstream) \<and> ca_cert (pu_tls upstream) \<noteq> None) UpstreamTlsConflict"

definition resolveUpstream :: "parsed_upstream_config \<Rightarrow> upstream_config" where
  "resolveUpstream upstream =
     \<lparr>url = pu_url upstream,
      up_tls = \<lparr>up_insecure = ut_insecure (pu_tls upstream), caCertFile = ca_cert (pu_tls upstream)\<rparr>,
      connectTimeout = unat (value_or (connect_timeout_ms upstream) 5000),
      idleTimeout = unat (value_or (pu_idle_timeout_ms upstream) 5000)\<rparr>"

subsection \<open>Services\<close>

text \<open>The loop over the match entries of a service, threading the composite keys seen so far.\<close>

fun validate_match ::
  "string \<Rightarrow> nat \<Rightarrow> match_rule list \<Rightarrow> string set \<Rightarrow> config_error list \<times> string set" where
  "validate_match name j [] keys = ([], keys)"
| "validate_match name j (entry # entries) keys =
     (let (errs, authInfo) = validateAuthority (mr_authority entry) (name, j)
      in case authInfo of
           None \<Rightarrow> map_prod ((@) errs) id (validate_match name (Suc j) entries keys)
         | Some info \<Rightarrow>
             (let (errs', ok) = validatePath (mr_path entry) (name, j)
              in if \<not> ok then map_prod ((@) (errs @ errs')) id (validate_match name (Suc j) entries keys)
                 else let key = makeCompositeKey (ai_type info) (ai_value info) (mr_path entry)
                      in map_prod ((@) (errs @ errs' @ report (key \<in> keys) (DuplicateMatch name key))) id
                           (validate_match name (Suc j) entries (insert key keys))))"

definition empty_cache :: parsed_cache_config where
  "empty_cache =
     \<lparr>enabled = None, max_tracks = None, max_groups_per_track = None, max_cached_mb = None,
      min_eviction_kb = None, max_cache_duration_s = None, default_max_cache_duration_s = None\<rparr>"

definition merged_cache :: "parsed_service_config \<Rightarrow> parsed_config \<Rightarrow> parsed_cache_config" where
  "merged_cache svc cfg =
     (let defaults = (case service_defaults cfg of None \<Rightarrow> None | Some d \<Rightarrow> sd_cache d)
      in case (ps_cache svc, defaults) of
           (Some c, Some d) \<Rightarrow> mergeCacheConfigs d c
         | (Some c, None) \<Rightarrow> c
         | (None, Some d) \<Rightarrow> d
         | (None, None) \<Rightarrow> empty_cache)"

definition validate_cache :: "string \<Rightarrow> parsed_cache_config \<Rightarrow> config_error list" where
  "validate_cache name m =
     report (enabled m = None) (CacheEnabledRequired name) @
     report (max_tracks m = None) (CacheMaxTracksRequired name) @
     report (max_groups_per_track m = None) (CacheMaxGroupsRequired name) @
     report (enabled m = Some True \<and> (case max_groups_per_track m of Some g \<Rightarrow> g < 1 | None \<Rightarrow> False))
       (CacheMaxGroupsZero name) @
     report (max_cache_duration_s m = Some 0) (CacheDurationZero name) @
     report (max_cached_mb m = Some 0) (CacheMbZero name)"

definition validateService ::
  "string \<Rightarrow> parsed_service_config \<Rightarrow> parsed_config \<Rightarrow> string set \<Rightarrow> (string, parsed_cache_config) hmap
   \<Rightarrow> config_error list \<times> string set \<times> (string, parsed_cache_config) hmap" where
  "validateService name svc cfg compositeKeys mergedCaches =
     (let (errs, keys) = validate_match name 0 (ps_match svc) compositeKeys;
          merged = merged_cache svc cfg
      in (errs @ validate_cache name merged @
            (case ps_upstream svc of Some u \<Rightarrow> validateUpstream u | None \<Rightarrow> []),
          keys, hm_emplace name merged mergedCaches))"

definition generateRelayID :: "u32 \<Rightarrow> u32 \<Rightarrow> string" where
  "generateRelayID r1 r2 =
     (let val = (push_bit 32 (ucast r1) OR ucast r2) :: u64 in digits_of 16 16 (unat val))"

subsection \<open>Merging the transport settings\<close>

definition applyQuicOverride :: "quic_config \<Rightarrow> parsed_quic_config \<Rightarrow> quic_config" where
  "applyQuicOverride base over =
     base\<lparr>maxData := value_or (max_data over) (maxData base),
       maxStreamData := value_or (max_stream_data over) (maxStreamData base),
       maxUniStreams := value_or (max_uni_streams over) (maxUniStreams base),
       maxBidiStreams := value_or (max_bidi_streams over) (maxBidiStreams base),
       idleTimeoutMs := value_or (idle_timeout_ms over) (idleTimeoutMs base),
       maxAckDelayUs := value_or (max_ack_delay_us over) (maxAckDelayUs base),
       minAckDelayUs := value_or (min_ack_delay_us over) (minAckDelayUs base),
       defaultStreamPriority := value_or (default_stream_priority over) (defaultStreamPriority base),
       defaultDatagramPriority := value_or (default_datagram_priority over) (defaultDatagramPriority base),
       ccAlgo := value_or (cc_algo over) (ccAlgo base)\<rparr>"

definition apply_opt :: "('a \<Rightarrow> 'b \<Rightarrow> 'a) \<Rightarrow> 'b option \<Rightarrow> 'a \<Rightarrow> 'a" where
  "apply_opt f opt a = (case opt of Some b \<Rightarrow> f a b | None \<Rightarrow> a)"

definition mergeQuicConfig :: "parsed_quic_config option \<Rightarrow> parsed_quic_config option \<Rightarrow> quic_config" where
  "mergeQuicConfig defaults perListener =
     apply_opt applyQuicOverride perListener (apply_opt applyQuicOverride defaults quic_config_default)"

definition apply_bbr :: "bbr_config \<Rightarrow> parsed_bbr \<Rightarrow> bbr_config" where
  "apply_bbr base b =
     base\<lparr>conservativeRecovery := value_or (conservative_recovery b) (conservativeRecovery base),
       largeProbeRttCwnd := value_or (large_probe_rtt_cwnd b) (largeProbeRttCwnd base),
       enableAckAggregationInStartup :=
         value_or (enable_ack_aggregation_in_startup b) (enableAckAggregationInStartup base),
       probeRttDisabledIfAppLimited :=
         value_or (probe_rtt_disabled_if_app_limited b) (probeRttDisabledIfAppLimited base),
       drainToTarget := value_or (drain_to_target b) (drainToTarget base)\<rparr>"

definition apply_bbr2 :: "bbr2_config \<Rightarrow> parsed_bbr2 \<Rightarrow> bbr2_config" where
  "apply_bbr2 base b2 =
     base\<lparr>ignoreInflightLongTerm := value_or (ignore_inflight_long_term b2) (ignoreInflightLongTerm base),
       ignoreShortTerm := value_or (ignore_short_term b2) (ignoreShortTerm base),
       exitStartupOnLoss := value_or (exit_startup_on_loss b2) (exitStartupOnLoss base),
       enableRecoveryInStartup := value_or (enable_recovery_in_startup b2) (enableRecoveryInStartup base),
       enableRecoveryInProbeStates :=
         value_or (enable_recovery_in_probe_states b2) (enableRecoveryInProbeStates base),
       enableRenoCoexistence := value_or (enable_reno_coexistence b2) (enableRenoCoexistence base),
       paceInitCwnd := value_or (pace_init_cwnd b2) (paceInitCwnd base),
       overrideCruisePacingGain := value_or (override_cruise_pacing_gain b2) (overrideCruisePacingGain base),
       overrideCruiseCwndGain := value_or (override_cruise_cwnd_gain b2) (overrideCruiseCwndGain base),
       overrideStartupPacingGain := value_or (override_startup_pacing_gain b2) (overrideStartupPacingGain base),
       overrideBwShortBeta := value_or (override_bw_short_beta b2) (overrideBwShortBeta base)\<rparr>"

definition apply_cubic :: "cubic_config \<Rightarrow> parsed_cubic \<Rightarrow> cubic_config" where
  "apply_cubic base c =
     base\<lparr>additiveIncreaseAfterHystart :=
         value_or (additive_increase_after_hystart c) (additiveIncreaseAfterHystart base),
       onlyGrowCwndWhenLimited := value_or (only_grow_cwnd_when_limited c) (onlyGrowCwndWhenLimited base),
       leaveHeadroomForCwndLimited :=
         value_or (leave_headroom_for_cwnd_limited c) (leaveHeadroomForCwndLimited base)\<rparr>"

definition applyMvfstOverride :: "mvfst_config \<Rightarrow> parsed_mvfst_config \<Rightarrow> mvfst_config" where
  "applyMvfstOverride base over =
     base\<lparr>maxCwndInMss := value_or (max_cwnd_in_mss over) (maxCwndInMss base),
       pacingEnabled := value_or (pacing_enabled over) (pacingEnabled base),
       enableGSO := value_or (enable_gso over) (enableGSO base),
       maxConnPacketsSentPerLoop :=
         value_or (max_conn_packets_sent_per_loop over) (maxConnPacketsSentPerLoop base),
       useRecvmmsg := value_or (use_recvmmsg over) (useRecvmmsg base),
       maxServerRecvPacketsPerLoop :=
         value_or (max_server_recv_packets_per_loop over) (maxServerRecvPacketsPerLoop base),
       numGROBuffers := value_or (num_gro_buffers over) (numGROBuffers base),
       bbr := apply_opt apply_bbr (m_bbr over) (bbr base),
       bbr2 := apply_opt apply_bbr2 (m_bbr2 over) (bbr2 base),
       cubic := apply_opt apply_cubic (m_cubic over) (cubic base),
       copa_deltaParam := apply_opt (\<lambda>d cp. value_or (delta_param cp) d) (m_copa over) (copa_deltaParam base),
       l4s_ceTarget := apply_opt (\<lambda>d ls. value_or (ce_target ls) d) (m_l4s over) (l4s_ceTarget base)\<rparr>"

definition mergeMvfstConfig :: "parsed_mvfst_config option \<Rightarrow> parsed_mvfst_config option \<Rightarrow> mvfst_config" where
  "mergeMvfstConfig defaults perListener =
     apply_opt applyMvfstOverride perListener (apply_opt applyMvfstOverride defaults mvfst_config_default)"

definition valid_algos :: "quic_stack \<Rightarrow> string list" where
  "valid_algos stack =
     (if stack = Picoquic
      then [''bbr'', ''bbr1'', ''c4'', ''cubic'', ''dcubic'', ''fast'', ''newreno'', ''prague'', ''reno'']
      else [''bbr'', ''bbr2'', ''bbr2modular'', ''copa'', ''cubic'', ''newreno'', ''none''])"

definition validateQuicConfig :: "quic_config \<Rightarrow> quic_stack \<Rightarrow> string \<Rightarrow> diagnostics" where
  "validateQuicConfig q stack context =
     (report (maxData q < maxStreamData q) (MaxDataTooSmall context (maxData q) (maxStreamData q)) @
      report (maxAckDelayUs q < minAckDelayUs q) (AckDelayOrder context (maxAckDelayUs q) (minAckDelayUs q)) @
      report (ccAlgo q \<notin> set (valid_algos stack)) (BadCcAlgo context (ccAlgo q)),
      report (maxUniStreams q < 100) (FewUniStreams context (maxUniStreams q)) @
      report (maxBidiStreams q < 16) (FewBidiStreams context (maxBidiStreams q)) @
      report (idleTimeoutMs q < 5000) (ShortIdleTimeout context (idleTimeoutMs q)))"

definition validateMvfstConfig :: "mvfst_config \<Rightarrow> string \<Rightarrow> diagnostics" where
  "validateMvfstConfig m context =
     (report (maxCwndInMss m = 0) (MaxCwndZero context) @
      report (maxConnPacketsSentPerLoop m = 0) (PacketsPerLoopZero context) @
      report (numGROBuffers m = 0) (GroBuffersZero context) @
      report (f_le (copa_deltaParam m) (Finite 0) \<or> f_le (Finite 1) (copa_deltaParam m))
        (CopaDeltaRange context (copa_deltaParam m)) @
      report (f_lt (l4s_ceTarget m) (Finite 0) \<or> f_le (Finite 1) (l4s_ceTarget m))
        (L4sTargetRange context (l4s_ceTarget m)),
      report (numGROBuffers m > 64) (ManyGroBuffers context (numGROBuffers m)))"

subsection \<open>Picoquic listeners\<close>

fun pico_match_warnings :: "string list \<Rightarrow> string \<Rightarrow> nat \<Rightarrow> match_rule list \<Rightarrow> config_warning list" where
  "pico_match_warnings names svc j [] = []"
| "pico_match_warnings names svc j (r # rs) =
     (case mr_path r of PPrefixPath v \<Rightarrow> [PicoPrefixPath names svc j v] | PExactPath _ \<Rightarrow> []) @
     pico_match_warnings names svc (Suc j) rs"

definition exact_path_count :: "(string \<times> parsed_service_config) list \<Rightarrow> nat" where
  "exact_path_count svcs =
     length (filter (\<lambda>r. case mr_path r of PExactPath _ \<Rightarrow> True | _ \<Rightarrow> False)
       (concat (map (\<lambda>(_, svc). ps_match svc) svcs)))"

definition validatePicoServicePaths ::
  "(string \<times> parsed_service_config) list \<Rightarrow> string list \<Rightarrow> config_warning list" where
  "validatePicoServicePaths svcs picoListenerNames =
     concat (map (\<lambda>(name, svc). pico_match_warnings picoListenerNames name 0 (ps_match svc)) svcs) @
     report (exact_path_count svcs = 0) (PicoNoExactPath picoListenerNames)"

subsection \<open>Resolving\<close>

definition stack_of :: "parsed_listener_config \<Rightarrow> quic_stack" where
  "stack_of listener = (if stack_string listener = ''picoquic'' then Picoquic else Mvfst)"

definition resolveListener ::
  "(string \<Rightarrow> u16 \<Rightarrow> 'addr option) \<Rightarrow> parsed_listener_config \<Rightarrow> quic_config \<Rightarrow> mvfst_config
   \<Rightarrow> 'addr listener_config option" where
  "resolveListener sockaddr listener q m =
     (let sock = u_socket (pl_udp listener); t = pl_tls listener
      in map_option (\<lambda>addr.
           \<lparr>l_name = pl_name listener, l_address = addr,
            tlsMode = (if lt_insecure t then Insecure else Tls (resolveTlsConfig t)),
            endpoint = pl_endpoint listener, moqtVersions = moqtVersionsToString listener,
            quicStack = stack_of listener, quic = q, sbdOwd = False, mvfst = m\<rparr>)
         (sockaddr (s_address sock) (s_port sock)))"

definition resolveMatchEntry :: "match_rule \<Rightarrow> match_entry" where
  "resolveMatchEntry entry =
     \<lparr>me_authority = (case mr_authority entry of
          PExactAuthority v \<Rightarrow> ExactAuthority v
        | PWildcardAuthority v \<Rightarrow> WildcardAuthority v
        | PAnyAuthority _ \<Rightarrow> AnyAuthority),
      me_path = (case mr_path entry of PExactPath v \<Rightarrow> ExactPath v | PPrefixPath v \<Rightarrow> PrefixPath v)\<rparr>"

definition resolveService :: "parsed_service_config \<Rightarrow> parsed_cache_config \<Rightarrow> service_config option" where
  "resolveService svc cache =
     map_option (\<lambda>c. \<lparr>svc_match = map resolveMatchEntry (ps_match svc), svc_cache = c,
                     svc_upstream = map_option resolveUpstream (ps_upstream svc)\<rparr>)
       (resolveCacheConfig cache)"

text \<open>
  The loop over the listeners: their diagnostics, the merged transport settings of each, and the
  set of addresses seen.
\<close>

definition listener_addr :: "parsed_listener_config \<Rightarrow> string" where
  "listener_addr listener =
     (let sock = u_socket (pl_udp listener) in s_address sock @ '':'' @ to_string (unat (s_port sock)))"

definition needs_pacing :: "string \<Rightarrow> bool" where
  "needs_pacing cc = (cc = ''bbr'' \<or> cc = ''bbr2'' \<or> cc = ''bbr2modular'')"

definition validate_one_listener ::
  "parsed_listener_config \<Rightarrow> quic_config \<Rightarrow> mvfst_config \<Rightarrow> string set \<Rightarrow> diagnostics" where
  "validate_one_listener listener q m addrs =
     (let name = pl_name listener
      in both (validateListener listener)
        (both (report (listener_addr listener \<in> addrs) (DuplicateListenerAddress (listener_addr listener)), [])
        (both (validateQuicConfig q (stack_of listener) name)
        (both (validateMvfstConfig m name)
              (report (\<not> pacingEnabled m \<and> needs_pacing (ccAlgo q)) (PacingIncompatible name (ccAlgo q)), [])))))"

fun validate_listeners ::
  "parsed_quic_config option \<Rightarrow> parsed_mvfst_config option \<Rightarrow> parsed_listener_config list \<Rightarrow> string set
   \<Rightarrow> diagnostics \<times> (quic_config \<times> mvfst_config) list" where
  "validate_listeners qd md [] addrs = (([], []), [])"
| "validate_listeners qd md (listener # ls) addrs =
     (let q = mergeQuicConfig qd (pl_quic listener);
          m = mergeMvfstConfig md (pl_mvfst listener);
          (d, rest) = validate_listeners qd md ls (insert (listener_addr listener) addrs)
      in (both (validate_one_listener listener q m addrs) d, (q, m) # rest))"

fun validate_services ::
  "parsed_config \<Rightarrow> (string \<times> parsed_service_config) list \<Rightarrow> string set \<Rightarrow> (string, parsed_cache_config) hmap
   \<Rightarrow> config_error list \<times> (string, parsed_cache_config) hmap" where
  "validate_services cfg [] keys caches = ([], caches)"
| "validate_services cfg ((name, svc) # svcs) keys caches =
     (let (errs, keys', caches') = validateService name svc cfg keys caches
      in map_prod ((@) errs) id (validate_services cfg svcs keys' caches'))"

definition validate_threads :: "u32 \<Rightarrow> config_error list" where
  "validate_threads n = (if n = 0 then [ThreadsZero] else if n > 1 then [ThreadsUnsupported] else [])"

definition sbd_of :: "parsed_config \<Rightarrow> sbd_config" where
  "sbd_of cfg =
     (case pc_sbd cfg of
        None \<Rightarrow> \<lparr>sbd_enabled = False, delaySource = ''owd'', outputFile = [],
                 algorithm = ''PracticalPassiveAndRFC''\<rparr>
      | Some s \<Rightarrow> \<lparr>sbd_enabled = value_or (ps_enabled s) False,
                   delaySource = value_or (delay_source s) ''owd'',
                   outputFile = value_or (output_file s) [],
                   algorithm = value_or (ps_algorithm s) ''PracticalPassiveAndRFC''\<rparr>)"

definition validate_sbd :: "sbd_config \<Rightarrow> bool \<Rightarrow> config_error list" where
  "validate_sbd s is_edge =
     report (delaySource s \<noteq> ''owd'' \<and> delaySource s \<noteq> ''rtt'') SbdDelaySource @
     report (algorithm s \<noteq> ''PracticalPassiveAndRFC'' \<and> algorithm s \<noteq> ''DcSBD''
             \<and> algorithm s \<noteq> ''Wei2020ECN'') SbdAlgorithm @
     report (algorithm s = ''DcSBD'' \<and> delaySource s \<noteq> ''owd'') DcSbdNeedsOwd @
     report (sbd_enabled s \<and> \<not> is_edge) SbdNeedsEdge"

definition validate_rtt ::
  "(string \<Rightarrow> bool) \<Rightarrow> parsed_listener_config list \<Rightarrow> (string \<times> string) list \<Rightarrow> config_error list" where
  "validate_rtt ip_valid ls outs =
     (if outs \<noteq> [] then concat (map (\<lambda>l. report (stack_string l \<noteq> ''mvfst'') RttNeedsMvfst) ls) else []) @
     concat (map (\<lambda>(peer, directory).
       report (\<not> ip_valid peer \<or> directory = [] \<or> hd directory \<noteq> CHR ''/'') RttBadOutput) outs)"

subsection \<open>resolveConfig\<close>

text \<open>The validation part: all errors, all warnings, the merged transport settings and caches.\<close>

definition validate_config ::
  "(string \<Rightarrow> bool) \<Rightarrow> parsed_config \<Rightarrow>
   diagnostics \<times> (quic_config \<times> mvfst_config) list \<times> (string, parsed_cache_config) hmap" where
  "validate_config ip_valid cfg =
     (let ls = pc_listeners cfg; svcs = pc_services cfg;
          quicDefaults = (case listener_defaults cfg of Some ld \<Rightarrow> ld_quic ld | None \<Rightarrow> None);
          mvfstDefaults = (case listener_defaults cfg of Some ld \<Rightarrow> ld_mvfst ld | None \<Rightarrow> None);
          ((lerrs, lwarns), merged) = validate_listeners quicDefaults mvfstDefaults ls {};
          picos = map pl_name (filter (\<lambda>l. stack_string l = ''picoquic'') ls);
          pwarns = (if picos \<noteq> [] then validatePicoServicePaths svcs picos else []);
          (serrs, caches) = validate_services cfg svcs {} []
      in ((lerrs @ validateAdmin cfg @ report (svcs = []) NoServices @ serrs @
           validate_threads (value_or (pc_threads cfg) 1) @
           validate_sbd (sbd_of cfg) (value_or (pc_edge cfg) False) @
           validate_rtt ip_valid ls (value_or (rtt_outputs cfg) []), lwarns @ pwarns), merged, caches))"

fun resolve_services ::
  "(string \<times> parsed_service_config) list \<Rightarrow> (string, parsed_cache_config) hmap \<Rightarrow> (string, service_config) hmap
   \<Rightarrow> (string, service_config) hmap option" where
  "resolve_services [] caches acc = Some acc"
| "resolve_services ((name, svc) # svcs) caches acc =
     (case hm_find caches name of
        None \<Rightarrow> None
      | Some c \<Rightarrow>
          (case resolveService svc c of
             None \<Rightarrow> None
           | Some s \<Rightarrow> resolve_services svcs caches (hm_emplace name s acc)))"

definition resolve_admin ::
  "(string \<Rightarrow> u16 \<Rightarrow> 'addr option) \<Rightarrow> parsed_admin_config option \<Rightarrow> 'addr admin_config option option" where
  "resolve_admin sockaddr opt =
     (case opt of
        None \<Rightarrow> Some None
      | Some a \<Rightarrow>
          map_option (\<lambda>addr. Some \<lparr>ad_address = addr,
            ad_tls = map_option (\<lambda>t. resolveAdminTlsConfig t [''h2'', ''http/1.1'']) (pa_tls a)\<rparr>)
            (sockaddr (pa_address a) (pa_port a)))"

fun resolve_listeners ::
  "(string \<Rightarrow> u16 \<Rightarrow> 'addr option) \<Rightarrow> parsed_listener_config list \<Rightarrow> (quic_config \<times> mvfst_config) list
   \<Rightarrow> 'addr listener_config list option" where
  "resolve_listeners sockaddr (l # ls) ((q, m) # qms) =
     (case resolveListener sockaddr l q m of
        None \<Rightarrow> None
      | Some r \<Rightarrow> map_option ((#) r) (resolve_listeners sockaddr ls qms))"
| "resolve_listeners sockaddr _ _ = Some []"

datatype 'addr resolve_outcome =
    NoListener
  | Rejected "config_error list"
  | AddressThrows
  | Undefined
  | Resolved "'addr config" "config_warning list"

definition resolveConfig ::
  "(string \<Rightarrow> u16 \<Rightarrow> 'addr option) \<Rightarrow> (string \<Rightarrow> bool) \<Rightarrow> u32 \<Rightarrow> u32 \<Rightarrow> parsed_config \<Rightarrow> 'addr resolve_outcome" where
  "resolveConfig sockaddr ip_valid r1 r2 cfg =
     (if pc_listeners cfg = [] then NoListener
      else let ((errors, warnings), merged, caches) = validate_config ip_valid cfg
      in if errors \<noteq> [] then Rejected errors
      else case resolve_services (pc_services cfg) caches [] of
        None \<Rightarrow> Undefined
      | Some svcs \<Rightarrow>
         (case resolve_admin sockaddr (pc_admin cfg) of
            None \<Rightarrow> AddressThrows
          | Some adm \<Rightarrow>
              (case resolve_listeners sockaddr (pc_listeners cfg) merged of
                 None \<Rightarrow> AddressThrows
               | Some ls \<Rightarrow>
                   Resolved \<lparr>listeners = ls, services = svcs, admin = adm,
                     relayID = value_or (relay_id cfg) (generateRelayID r1 r2),
                     threads = value_or (pc_threads cfg) 1,
                     mvfstBpfSteering = value_or (mvfst_bpf_steering cfg) True,
                     edge = value_or (pc_edge cfg) False, sbd = sbd_of cfg,
                     rttOutputs = value_or (rtt_outputs cfg) []\<rparr> warnings)))"

end
