(* ===== verification/Service_Matcher.thy ===== *)
theory Service_Matcher
  imports Config_Types
begin

section \<open>Routing a connection to a service (src/src/ServiceMatcher.h, ServiceMatcher.cpp)\<close>

text \<open>
  The matcher is built once from the configured services and then maps the (authority, path)
  of a connection to a service name. The services come in an F14FastMap, so \<open>services\<close>
  is the list of its entries in whatever order the map iterates; std::sort is the parameter
  \<open>srt\<close>, of which only the contract \<open>std_sort\<close> is used. \<open>None\<close> from the constructor is
  the std::out_of_range that \<open>substr(1)\<close> throws on an empty wildcard pattern.

  The specification is the list of all rules and the rank of a matching rule; the lemmas show
  that \<open>match\<close> returns the service of a matching rule of the highest rank, and that with
  unambiguous rules neither the iteration order nor the sort can change the answer.
\<close>

subsection \<open>Path rule sets\<close>

record prefix_rule =
  rule_prefix :: string
  serviceName :: string

record path_rule_set =
  exactPaths :: "(string, string) hmap"
  prefixPaths :: "prefix_rule list"

definition empty_rule_set :: path_rule_set where
  "empty_rule_set = \<lparr>exactPaths = [], prefixPaths = []\<rparr>"

definition addRule :: "path_rule_set \<Rightarrow> path_matcher \<Rightarrow> string \<Rightarrow> path_rule_set" where
  "addRule rs path service =
     (case path of
        ExactPath val \<Rightarrow> rs\<lparr>exactPaths := hm_emplace val service (exactPaths rs)\<rparr>
      | PrefixPath val \<Rightarrow>
          rs\<lparr>prefixPaths := prefixPaths rs @ [\<lparr>rule_prefix = val, serviceName = service\<rparr>]\<rparr>)"

text \<open>The comparator of the sort: longer prefixes first.\<close>

definition longer :: "prefix_rule \<Rightarrow> prefix_rule \<Rightarrow> bool" where
  "longer a b = (length (rule_prefix a) > length (rule_prefix b))"

definition finalize :: "(prefix_rule list \<Rightarrow> prefix_rule list) \<Rightarrow> path_rule_set \<Rightarrow> path_rule_set" where
  "finalize srt rs = rs\<lparr>prefixPaths := srt (prefixPaths rs)\<rparr>"

fun scan_prefixes :: "prefix_rule list \<Rightarrow> string \<Rightarrow> string option" where
  "scan_prefixes [] path = None"
| "scan_prefixes (rule # rules) path =
     (if length (rule_prefix rule) \<le> length path
         \<and> take (length (rule_prefix rule)) path = rule_prefix rule
      then Some (serviceName rule) else scan_prefixes rules path)"

definition path_match :: "path_rule_set \<Rightarrow> string \<Rightarrow> string option" where
  "path_match rs path =
     (case hm_find (exactPaths rs) path of
        Some service \<Rightarrow> Some service
      | None \<Rightarrow> scan_prefixes (prefixPaths rs) path)"

subsection \<open>The matcher\<close>

record service_matcher =
  exactAuthorityRules :: "(string, path_rule_set) hmap"
  wildcardAuthorityRules :: "(string, path_rule_set) hmap"
  anyAuthorityRules :: path_rule_set

definition empty_matcher :: service_matcher where
  "empty_matcher =
     \<lparr>exactAuthorityRules = [], wildcardAuthorityRules = [], anyAuthorityRules = empty_rule_set\<rparr>"

definition add_match_entry :: "string \<Rightarrow> match_entry \<Rightarrow> service_matcher \<Rightarrow> service_matcher option" where
  "add_match_entry name entry m =
     (case me_authority entry of
        ExactAuthority val \<Rightarrow>
          Some (m\<lparr>exactAuthorityRules :=
            hm_at val empty_rule_set (\<lambda>rs. addRule rs (me_path entry) name) (exactAuthorityRules m)\<rparr>)
      | WildcardAuthority pattern \<Rightarrow>
          (case pattern of
             [] \<Rightarrow> None
           | _ # sfx \<Rightarrow>
               Some (m\<lparr>wildcardAuthorityRules :=
                 hm_at sfx empty_rule_set (\<lambda>rs. addRule rs (me_path entry) name)
                   (wildcardAuthorityRules m)\<rparr>))
      | AnyAuthority \<Rightarrow>
          Some (m\<lparr>anyAuthorityRules := addRule (anyAuthorityRules m) (me_path entry) name\<rparr>))"

fun add_match_entries :: "string \<Rightarrow> match_entry list \<Rightarrow> service_matcher \<Rightarrow> service_matcher option" where
  "add_match_entries name [] m = Some m"
| "add_match_entries name (entry # entries) m =
     Option.bind (add_match_entry name entry m) (add_match_entries name entries)"

fun add_services :: "(string \<times> service_config) list \<Rightarrow> service_matcher \<Rightarrow> service_matcher option" where
  "add_services [] m = Some m"
| "add_services ((name, svc) # svcs) m =
     Option.bind (add_match_entries name (svc_match svc) m) (add_services svcs)"

definition finalize_all :: "(prefix_rule list \<Rightarrow> prefix_rule list) \<Rightarrow> service_matcher \<Rightarrow> service_matcher" where
  "finalize_all srt m =
     m\<lparr>exactAuthorityRules := map (\<lambda>(a, rs). (a, finalize srt rs)) (exactAuthorityRules m),
       wildcardAuthorityRules := map (\<lambda>(a, rs). (a, finalize srt rs)) (wildcardAuthorityRules m),
       anyAuthorityRules := finalize srt (anyAuthorityRules m)\<rparr>"

definition mk_matcher ::
  "(prefix_rule list \<Rightarrow> prefix_rule list) \<Rightarrow> (string \<times> service_config) list \<Rightarrow> service_matcher option" where
  "mk_matcher srt svcs = map_option (finalize_all srt) (add_services svcs empty_matcher)"

text \<open>\<open>authority.substr(authority.find('.'))\<close>; \<open>None\<close> when there is no dot.\<close>

fun from_first_dot :: "string \<Rightarrow> string option" where
  "from_first_dot [] = None"
| "from_first_dot (c # cs) = (if c = CHR ''.'' then Some (c # cs) else from_first_dot cs)"

definition service_match :: "service_matcher \<Rightarrow> string \<Rightarrow> string \<Rightarrow> string option" where
  "service_match m authority path =
     (let effectivePath = (if path = [] then ''/'' else path);
          anyTier = path_match (anyAuthorityRules m) effectivePath;
          wildTier =
            (case from_first_dot authority of
               None \<Rightarrow> anyTier
             | Some sfx \<Rightarrow>
                 (case hm_find (wildcardAuthorityRules m) sfx of
                    None \<Rightarrow> anyTier
                  | Some rs \<Rightarrow>
                      (case path_match rs effectivePath of Some s \<Rightarrow> Some s | None \<Rightarrow> anyTier)))
      in case hm_find (exactAuthorityRules m) authority of
           None \<Rightarrow> wildTier
         | Some rs \<Rightarrow> (case path_match rs effectivePath of Some s \<Rightarrow> Some s | None \<Rightarrow> wildTier))"

text \<open>\<open>collect\<close>: the exact paths not seen yet, in the order met.\<close>

fun collect_paths :: "string list \<Rightarrow> string list \<Rightarrow> string list" where
  "collect_paths [] result = result"
| "collect_paths (p # ps) result =
     collect_paths ps (if p \<in> set result then result else result @ [p])"

definition allExactPaths :: "service_matcher \<Rightarrow> string list" where
  "allExactPaths m =
     (let collect = (\<lambda>rs result. collect_paths (hm_keys (exactPaths rs)) result);
          r1 = fold (\<lambda>(_, rs). collect rs) (exactAuthorityRules m) [];
          r2 = fold (\<lambda>(_, rs). collect rs) (wildcardAuthorityRules m) r1
      in collect (anyAuthorityRules m) r2)"

subsection \<open>Specification: all rules, hits and ranks\<close>

type_synonym rule = "authority \<times> path_matcher \<times> string"

definition all_rules :: "(string \<times> service_config) list \<Rightarrow> rule list" where
  "all_rules svcs =
     concat (map (\<lambda>(name, svc). map (\<lambda>e. (me_authority e, me_path e, name)) (svc_match svc)) svcs)"

text \<open>A wildcard stands for exactly one label: the part before the first dot.\<close>

fun authority_hit :: "string \<Rightarrow> authority \<Rightarrow> bool" where
  "authority_hit a (ExactAuthority val) = (a = val)"
| "authority_hit a (WildcardAuthority pat) =
     (\<exists>c label rest. pat = c # CHR ''.'' # rest \<and> a = label @ CHR ''.'' # rest \<and> CHR ''.'' \<notin> set label)"
| "authority_hit a AnyAuthority = True"

fun path_hit :: "string \<Rightarrow> path_matcher \<Rightarrow> bool" where
  "path_hit path (ExactPath val) = (path = val)"
| "path_hit path (PrefixPath val) = prefix val path"

fun rule_hit :: "string \<Rightarrow> string \<Rightarrow> rule \<Rightarrow> bool" where
  "rule_hit a path (auth, p, _) \<longleftrightarrow> authority_hit a auth \<and> path_hit (if path = [] then ''/'' else path) p"

fun authority_tier :: "authority \<Rightarrow> nat" where
  "authority_tier (ExactAuthority _) = 2"
| "authority_tier (WildcardAuthority _) = 1"
| "authority_tier AnyAuthority = 0"

text \<open>On the paths a rule hits, an exact rule beats every prefix and a longer prefix a shorter one.\<close>

fun path_rank :: "path_matcher \<Rightarrow> nat" where
  "path_rank (ExactPath val) = Suc (length val)"
| "path_rank (PrefixPath val) = length val"

text \<open>\<open>outranked r r'\<close>: \<open>r'\<close> has at least the priority of \<open>r\<close>.\<close>

fun outranked :: "rule \<Rightarrow> rule \<Rightarrow> bool" where
  "outranked (a, p, _) (a', p', _) \<longleftrightarrow>
     authority_tier a < authority_tier a' \<or> authority_tier a = authority_tier a' \<and> path_rank p \<le> path_rank p'"

definition best_rule :: "rule list \<Rightarrow> string \<Rightarrow> string \<Rightarrow> rule \<Rightarrow> bool" where
  "best_rule rules a path r \<longleftrightarrow>
     r \<in> set rules \<and> rule_hit a path r \<and> (\<forall>r'\<in>set rules. rule_hit a path r' \<longrightarrow> outranked r' r)"

subsection \<open>A rule set holds the rules added to it\<close>

definition rs_of :: "(path_matcher \<times> string) list \<Rightarrow> path_rule_set" where
  "rs_of l = foldl (\<lambda>rs (p, s). addRule rs p s) empty_rule_set l"

lemma rs_of_Nil [simp]: "rs_of [] = empty_rule_set"
  by (simp add: rs_of_def)

lemma rs_of_snoc [simp]: "rs_of (l @ [(p, s)]) = addRule (rs_of l) p s"
  by (simp add: rs_of_def)

lemma prefixPaths_rs_of:
  "prefixPaths (rs_of l) =
     concat (map (\<lambda>(p, s). case p of PrefixPath v \<Rightarrow> [\<lparr>rule_prefix = v, serviceName = s\<rparr>] | _ \<Rightarrow> []) l)"
  by (induction l rule: rev_induct)
     (auto simp: empty_rule_set_def addRule_def split: path_matcher.splits)

lemma prefixPaths_mem:
  "r \<in> set (prefixPaths (rs_of l)) \<longleftrightarrow> (PrefixPath (rule_prefix r), serviceName r) \<in> set l"
  by (cases r) (force simp: prefixPaths_rs_of split: path_matcher.splits)

lemma exactPaths_Some: "hm_find (exactPaths (rs_of l)) v = Some s \<Longrightarrow> (ExactPath v, s) \<in> set l"
  by (induction l rule: rev_induct)
     (auto simp: empty_rule_set_def addRule_def hm_simps split: path_matcher.splits option.splits if_splits)

lemma exactPaths_None: "hm_find (exactPaths (rs_of l)) v = None \<longleftrightarrow> (\<forall>s. (ExactPath v, s) \<notin> set l)"
  by (induction l rule: rev_induct)
     (auto simp: empty_rule_set_def addRule_def hm_simps split: path_matcher.splits option.splits if_splits)

lemma scan_prefixes_find:
  "scan_prefixes rules path = map_option serviceName (find (\<lambda>r. prefix (rule_prefix r) path) rules)"
  by (induction rules) (auto simp: take_prefix_iff)

locale rule_sort = std_sort longer srt for srt :: "prefix_rule list \<Rightarrow> prefix_rule list"
begin

lemma path_match_None:
  "path_match (finalize srt (rs_of l)) path = None \<longleftrightarrow> (\<forall>(p, s)\<in>set l. \<not> path_hit path p)"
proof -
  have "(\<forall>x\<in>set (prefixPaths (rs_of l)). \<not> prefix (rule_prefix x) path)
        \<longleftrightarrow> (\<forall>v s. (PrefixPath v, s) \<in> set l \<longrightarrow> \<not> prefix v path)" (is "?L = ?R")
  proof
    assume ?L
    then show ?R using prefixPaths_mem [of "\<lparr>rule_prefix = v, serviceName = s\<rparr>" l for v s] by fastforce
  qed (use prefixPaths_mem in blast)
  moreover have "(\<forall>(p, s)\<in>set l. \<not> path_hit path p) \<longleftrightarrow>
      (\<forall>s. (ExactPath path, s) \<notin> set l) \<and> (\<forall>v s. (PrefixPath v, s) \<in> set l \<longrightarrow> \<not> prefix v path)"
    (is "?A = ?B")
  proof
    assume B: ?B
    show ?A
    proof clarify
      fix p s assume "(p, s) \<in> set l" "path_hit path p"
      then show False using B by (cases p) auto
    qed
  qed fastforce
  ultimately show ?thesis
    by (auto simp: path_match_def finalize_def scan_prefixes_find find_sorted_None
        exactPaths_None [symmetric] split: option.splits)
qed

lemma path_match_None_mem:
  "path_match (finalize srt (rs_of l)) path = None \<Longrightarrow> (p, s) \<in> set l \<Longrightarrow> \<not> path_hit path p"
  by (auto simp: path_match_None)

lemma path_match_best:
  assumes "path_match (finalize srt (rs_of l)) path = Some s"
  shows "\<exists>p. (p, s) \<in> set l \<and> path_hit path p \<and> (\<forall>(p', s')\<in>set l. path_hit path p' \<longrightarrow> path_rank p' \<le> path_rank p)"
proof (cases "hm_find (exactPaths (rs_of l)) path")
  case (Some s')
  then have "(ExactPath path, s) \<in> set l"
    using assms exactPaths_Some [OF Some] by (simp add: path_match_def finalize_def)
  moreover have "path_hit path p' \<Longrightarrow> path_rank p' \<le> Suc (length path)" for p'
    by (cases p') (auto dest: prefix_length_le)
  ultimately show ?thesis by (intro exI [of _ "ExactPath path"]) auto
next
  case None
  then have no_exact: "\<forall>s'. (ExactPath path, s') \<notin> set l" by (simp add: exactPaths_None)
  obtain r where r: "find (\<lambda>r. prefix (rule_prefix r) path) (srt (prefixPaths (rs_of l))) = Some r" "s = serviceName r"
    using assms None by (auto simp: path_match_def finalize_def scan_prefixes_find)
  note best = find_sorted_best [OF r(1)]
  have "path_rank p' \<le> length (rule_prefix r)" if "(p', s') \<in> set l" "path_hit path p'" for p' s'
  proof (cases p')
    case (ExactPath v) then show ?thesis using that no_exact by auto
  next
    case (PrefixPath v)
    let ?r = "\<lparr>rule_prefix = v, serviceName = s'\<rparr>"
    have "?r \<in> set (prefixPaths (rs_of l))" "prefix (rule_prefix ?r) path"
      using that PrefixPath by (auto simp: prefixPaths_mem)
    then have "\<not> longer ?r r \<or> ?r = r" using best by blast
    then show ?thesis using PrefixPath by (auto simp: longer_def)
  qed
  then show ?thesis using best r(2)
    by (intro exI [of _ "PrefixPath (rule_prefix r)"]) (auto simp: prefixPaths_mem)
qed

end

interpretation prefix_sort: rule_sort "desc_by (\<lambda>r. length (rule_prefix r))"
proof -
  have "longer = (\<lambda>a b. length (rule_prefix a) > length (rule_prefix b))"
    by (simp add: fun_eq_iff longer_def)
  then show "rule_sort (desc_by (\<lambda>r. length (rule_prefix r)))"
    using desc_by_std_sort [of "\<lambda>r :: prefix_rule. length (rule_prefix r)"] by (simp add: rule_sort_def)
qed

subsection \<open>A matcher holds the rules of its services\<close>

fun add_rules :: "rule list \<Rightarrow> service_matcher \<Rightarrow> service_matcher option" where
  "add_rules [] m = Some m"
| "add_rules ((a, p, name) # rules) m =
     Option.bind (add_match_entry name \<lparr>me_authority = a, me_path = p\<rparr> m) (add_rules rules)"

lemma add_rules_append: "add_rules (xs @ ys) m = Option.bind (add_rules xs m) (add_rules ys)"
  by (induction xs m rule: add_rules.induct) (auto split: bind_splits)

lemma match_entry_eta [simp]: "\<lparr>me_authority = me_authority e, me_path = me_path e\<rparr> = (e :: match_entry)"
  by simp

lemma add_match_entries_rules:
  "add_match_entries name es m = add_rules (map (\<lambda>e. (me_authority e, me_path e, name)) es) m"
  by (induction name es m rule: add_match_entries.induct) (auto split: bind_splits)

lemma add_services_rules: "add_services svcs m = add_rules (all_rules svcs) m"
  by (induction svcs m rule: add_services.induct)
     (auto simp: all_rules_def add_rules_append add_match_entries_rules split: bind_splits)

definition exact_rules :: "string \<Rightarrow> rule list \<Rightarrow> (path_matcher \<times> string) list" where
  "exact_rules a rules = map snd (filter (\<lambda>r. fst r = ExactAuthority a) rules)"

definition wildcard_rules :: "string \<Rightarrow> rule list \<Rightarrow> (path_matcher \<times> string) list" where
  "wildcard_rules sfx rules =
     map snd (filter (\<lambda>r. case fst r of WildcardAuthority (_ # s) \<Rightarrow> s = sfx | _ \<Rightarrow> False) rules)"

definition any_rules :: "rule list \<Rightarrow> (path_matcher \<times> string) list" where
  "any_rules rules = map snd (filter (\<lambda>r. fst r = AnyAuthority) rules)"

definition rule_set_at :: "(string, path_rule_set) hmap \<Rightarrow> string \<Rightarrow> (path_matcher \<times> string) list \<Rightarrow> bool" where
  "rule_set_at m a l \<longleftrightarrow> hm_find m a = (if l = [] then None else Some (rs_of l))"

definition represents :: "rule list \<Rightarrow> service_matcher \<Rightarrow> bool" where
  "represents rules m \<longleftrightarrow>
     (\<forall>a. rule_set_at (exactAuthorityRules m) a (exact_rules a rules)) \<and>
     (\<forall>s. rule_set_at (wildcardAuthorityRules m) s (wildcard_rules s rules)) \<and>
     anyAuthorityRules m = rs_of (any_rules rules) \<and>
     distinct (hm_keys (exactAuthorityRules m)) \<and> distinct (hm_keys (wildcardAuthorityRules m))"

lemma rule_set_at_add:
  "rule_set_at m a l \<Longrightarrow>
   rule_set_at (hm_at b empty_rule_set (\<lambda>rs. addRule rs p s) m) a (if a = b then l @ [(p, s)] else l)"
  by (auto simp: rule_set_at_def hm_simps split: if_splits)

lemma represents_step:
  assumes "represents rules m" "add_match_entry name \<lparr>me_authority = a, me_path = p\<rparr> m = Some m'"
  shows "represents (rules @ [(a, p, name)]) m'"
proof (cases a)
  case (ExactAuthority v)
  have "rule_set_at (exactAuthorityRules m') b (exact_rules b (rules @ [(a, p, name)]))" for b
    using assms rule_set_at_add [of "exactAuthorityRules m" b "exact_rules b rules" v p name] ExactAuthority
    by (auto simp: represents_def add_match_entry_def exact_rules_def split: if_splits)
  then show ?thesis using assms ExactAuthority
    by (auto simp: represents_def add_match_entry_def wildcard_rules_def any_rules_def)
next
  case (WildcardAuthority pat)
  then obtain c v where pat: "pat = c # v" using assms(2) by (auto simp: add_match_entry_def split: list.splits)
  have "rule_set_at (wildcardAuthorityRules m') b (wildcard_rules b (rules @ [(a, p, name)]))" for b
    using assms rule_set_at_add [of "wildcardAuthorityRules m" b "wildcard_rules b rules" v p name] WildcardAuthority pat
    by (auto simp: represents_def add_match_entry_def wildcard_rules_def split: if_splits)
  then show ?thesis using assms WildcardAuthority pat
    by (auto simp: represents_def add_match_entry_def exact_rules_def any_rules_def)
next
  case AnyAuthority
  then show ?thesis using assms
    by (auto simp: represents_def add_match_entry_def exact_rules_def wildcard_rules_def any_rules_def)
qed

lemma represents_add_rules:
  "represents done m \<Longrightarrow> add_rules rules m = Some m' \<Longrightarrow> represents (done @ rules) m'"
proof (induction rules m arbitrary: "done" rule: add_rules.induct)
  case (2 a p name rules m)
  then obtain m1 where "add_match_entry name \<lparr>me_authority = a, me_path = p\<rparr> m = Some m1"
    "add_rules rules m1 = Some m'" by (auto split: bind_splits)
  then show ?case using "2.IH" [of m1 "done @ [(a, p, name)]"] represents_step [OF "2.prems"(1)] by simp
qed simp

lemma represents_empty: "represents [] empty_matcher"
  by (simp add: represents_def rule_set_at_def empty_matcher_def exact_rules_def wildcard_rules_def any_rules_def)

lemma mk_matcher_represents:
  assumes "mk_matcher srt svcs = Some m"
  obtains m0 where "represents (all_rules svcs) m0" "m = finalize_all srt m0"
  using assms represents_add_rules [OF represents_empty, of "all_rules svcs"]
  by (auto simp: mk_matcher_def add_services_rules)

lemma from_first_dot_hit:
  "authority_hit a (WildcardAuthority pat) \<longleftrightarrow> (\<exists>c sfx. pat = c # sfx \<and> from_first_dot a = Some sfx)"
proof -
  have "from_first_dot a = Some sfx \<longleftrightarrow>
     (\<exists>label rest. sfx = CHR ''.'' # rest \<and> a = label @ CHR ''.'' # rest \<and> CHR ''.'' \<notin> set label)" for sfx
  proof (induction a)
    case (Cons x a)
    show ?case
    proof (cases "x = CHR ''.''")
      case True
      then show ?thesis by (auto intro: exI [of _ "[]"] simp: Cons_eq_append_conv)
    next
      case False
      then show ?thesis using Cons by (auto simp: Cons_eq_append_conv)
    qed
  qed simp
  then show ?thesis by auto
qed

definition tier_wildcard_rules :: "string \<Rightarrow> rule list \<Rightarrow> (path_matcher \<times> string) list" where
  "tier_wildcard_rules a rules =
     (case from_first_dot a of None \<Rightarrow> [] | Some sfx \<Rightarrow> wildcard_rules sfx rules)"

lemma exact_rules_mem: "(p, s) \<in> set (exact_rules a rules) \<longleftrightarrow> (ExactAuthority a, p, s) \<in> set rules"
  by (force simp: exact_rules_def)

lemma wildcard_rules_suffix:
  "x \<in> set (wildcard_rules sfx rules) \<longleftrightarrow> (\<exists>c. (WildcardAuthority (c # sfx), x) \<in> set rules)"
  by (induction rules) (auto simp: wildcard_rules_def split: authority.splits list.splits)

lemma wildcard_rules_mem:
  "(p, s) \<in> set (tier_wildcard_rules a rules) \<longleftrightarrow>
     (\<exists>pat. (WildcardAuthority pat, p, s) \<in> set rules \<and> authority_hit a (WildcardAuthority pat))"
proof (cases "from_first_dot a")
  case (Some sfx)
  then show ?thesis
    unfolding from_first_dot_hit using Some by (auto simp: tier_wildcard_rules_def wildcard_rules_suffix)
qed (auto simp: tier_wildcard_rules_def from_first_dot_hit simp del: authority_hit.simps)

lemma any_rules_mem: "(p, s) \<in> set (any_rules rules) \<longleftrightarrow> (AnyAuthority, p, s) \<in> set rules"
  by (force simp: any_rules_def)

lemmas tier_mem = exact_rules_mem wildcard_rules_mem any_rules_mem

context rule_sort
begin

lemma tier_lookup:
  assumes "rule_set_at m a l"
  shows "(case hm_find (map (\<lambda>(a, rs). (a, finalize srt rs)) m) a of
            None \<Rightarrow> d | Some rs \<Rightarrow> (case path_match rs p of Some s \<Rightarrow> Some s | None \<Rightarrow> d))
       = (case path_match (finalize srt (rs_of l)) p of Some s \<Rightarrow> Some s | None \<Rightarrow> d)"
  using assms path_match_None [of "[]" p] by (auto simp: rule_set_at_def hm_find_map)

lemma path_match_empty [simp]: "path_match (finalize srt empty_rule_set) q = None"
  using path_match_None [of "[]" q] by simp

lemma service_match_tiers:
  assumes "represents rules m" and q: "q = (if path = [] then ''/'' else path)"
  shows "service_match (finalize_all srt m) a path =
     (case path_match (finalize srt (rs_of (exact_rules a rules))) q of Some s \<Rightarrow> Some s | None \<Rightarrow>
       (case path_match (finalize srt (rs_of (tier_wildcard_rules a rules))) q of Some s \<Rightarrow> Some s | None \<Rightarrow>
         path_match (finalize srt (rs_of (any_rules rules))) q))"
proof -
  have m: "rule_set_at (exactAuthorityRules m) a (exact_rules a rules)"
    "\<And>s. rule_set_at (wildcardAuthorityRules m) s (wildcard_rules s rules)"
    "anyAuthorityRules m = rs_of (any_rules rules)"
    using assms(1) by (auto simp: represents_def)
  show ?thesis
    unfolding service_match_def q [symmetric] finalize_all_def Let_def tier_wildcard_rules_def
    by (simp add: tier_lookup [OF m(1)] tier_lookup [OF m(2)] m(3) cong: option.case_cong split: option.split)
qed

lemma service_match_None:
  assumes "represents rules m" "service_match (finalize_all srt m) a path = None"
  shows "\<forall>r\<in>set rules. \<not> rule_hit a path r"
proof clarify
  fix auth p s assume r: "(auth, p, s) \<in> set rules" "rule_hit a path (auth, p, s)"
  define q where "q = (if path = [] then ''/'' else path)"
  have hit: "authority_hit a auth" "path_hit q p" using r(2) by (simp_all add: q_def)
  have none: "path_match (finalize srt (rs_of (exact_rules a rules))) q = None"
    "path_match (finalize srt (rs_of (tier_wildcard_rules a rules))) q = None"
    "path_match (finalize srt (rs_of (any_rules rules))) q = None"
    using assms(2) unfolding service_match_tiers [OF assms(1) q_def] by (auto split: option.splits)
  have "(p, s) \<notin> set (exact_rules a rules)" "(p, s) \<notin> set (tier_wildcard_rules a rules)"
    "(p, s) \<notin> set (any_rules rules)"
    using none [THEN path_match_None_mem] hit(2) by blast+
  then show False using r(1) hit(1) by (cases auth) (auto simp: tier_mem simp del: authority_hit.simps(2))
qed

lemma service_match_Some:
  assumes rep: "represents rules m" and match: "service_match (finalize_all srt m) a path = Some s"
  shows "\<exists>r. best_rule rules a path r \<and> snd (snd r) = s"
proof -
  define q where "q = (if path = [] then ''/'' else path)"
  let ?P = "\<lambda>l. path_match (finalize srt (rs_of l)) q"
  let ?E = "exact_rules a rules" and ?W = "tier_wildcard_rules a rules" and ?A = "any_rules rules"
  have hits: "rule_hit a path (auth, p, s') \<longleftrightarrow> authority_hit a auth \<and> path_hit q p" for auth p s'
    by (simp add: q_def)
  have best: "best_rule rules a path (auth, p, s)"
    if "(auth, p, s) \<in> set rules" "authority_hit a auth" "path_hit q p"
      and "\<And>auth' p' s'. (auth', p', s') \<in> set rules \<Longrightarrow> authority_hit a auth' \<Longrightarrow> path_hit q p'
             \<Longrightarrow> outranked (auth', p', s') (auth, p, s)" for auth p
    using that unfolding best_rule_def hits by (auto simp: hits simp del: rule_hit.simps outranked.simps)
  consider "?P ?E = Some s" | "?P ?E = None" "?P ?W = Some s" | "?P ?E = None" "?P ?W = None" "?P ?A = Some s"
    using match unfolding service_match_tiers [OF rep q_def] by (auto split: option.splits)
  then show ?thesis
  proof cases
    case 1
    from path_match_best [OF this] obtain p where p: "(p, s) \<in> set ?E" "path_hit q p"
      "\<And>p' s'. (p', s') \<in> set ?E \<Longrightarrow> path_hit q p' \<Longrightarrow> path_rank p' \<le> path_rank p" by auto
    have "outranked (auth', p', s') (ExactAuthority a, p, s)"
      if "(auth', p', s') \<in> set rules" "authority_hit a auth'" "path_hit q p'" for auth' p' s'
      using that p(3) [of p' s'] by (cases auth') (auto simp: tier_mem)
    then have "best_rule rules a path (ExactAuthority a, p, s)"
      using p(1) by (intro best p(2)) (simp_all add: tier_mem)
    then show ?thesis by (intro exI [of _ "(ExactAuthority a, p, s)"]) simp
  next
    case 2
    from path_match_best [OF this(2)] obtain p where p: "(p, s) \<in> set ?W" "path_hit q p"
      "\<And>p' s'. (p', s') \<in> set ?W \<Longrightarrow> path_hit q p' \<Longrightarrow> path_rank p' \<le> path_rank p" by auto
    from p(1) obtain pat where pat: "(WildcardAuthority pat, p, s) \<in> set rules" "authority_hit a (WildcardAuthority pat)"
      unfolding wildcard_rules_mem by blast
    have "outranked (auth', p', s') (WildcardAuthority pat, p, s)"
      if "(auth', p', s') \<in> set rules" "authority_hit a auth'" "path_hit q p'" for auth' p' s'
      using that p(3) [of p' s'] path_match_None_mem [OF 2(1), of p' s']
      by (cases auth') (auto simp: tier_mem simp del: authority_hit.simps(2))
    then have "best_rule rules a path (WildcardAuthority pat, p, s)" by (intro best pat p(2))
    then show ?thesis by (intro exI [of _ "(WildcardAuthority pat, p, s)"]) simp
  next
    case 3
    from path_match_best [OF this(3)] obtain p where p: "(p, s) \<in> set ?A" "path_hit q p"
      "\<And>p' s'. (p', s') \<in> set ?A \<Longrightarrow> path_hit q p' \<Longrightarrow> path_rank p' \<le> path_rank p" by auto
    have "outranked (auth', p', s') (AnyAuthority, p, s)"
      if "(auth', p', s') \<in> set rules" "authority_hit a auth'" "path_hit q p'" for auth' p' s'
      using that p(3) [of p' s'] path_match_None_mem [OF 3(1), of p' s'] path_match_None_mem [OF 3(2), of p' s']
      by (cases auth') (auto simp: tier_mem simp del: authority_hit.simps(2))
    then have "best_rule rules a path (AnyAuthority, p, s)"
      using p(1) by (intro best p(2)) (simp_all add: tier_mem)
    then show ?thesis by (intro exI [of _ "(AnyAuthority, p, s)"]) simp
  qed
qed

end

subsection \<open>Unambiguous rules\<close>

text \<open>No two rules with the same authority and path, and every wildcard pattern starts with a star.\<close>

fun star_pattern :: "authority \<Rightarrow> bool" where
  "star_pattern (WildcardAuthority pat) = (take 1 pat = ''*'')"
| "star_pattern _ = True"

definition unambiguous :: "rule list \<Rightarrow> bool" where
  "unambiguous rules \<longleftrightarrow>
     distinct (map (\<lambda>(a, p, _). (a, p)) rules) \<and> (\<forall>(a, _, _)\<in>set rules. star_pattern a)"

lemma same_rank_path: "path_hit q p \<Longrightarrow> path_hit q p' \<Longrightarrow> path_rank p = path_rank p' \<Longrightarrow> p = p'"
  by (cases p; cases p') (auto dest: prefix_length_le prefix_same_length)

lemma same_tier_authority:
  assumes "authority_hit a x" "authority_hit a y" "authority_tier x = authority_tier y" "star_pattern x" "star_pattern y"
  shows "x = y"
proof (cases x)
  case (WildcardAuthority pat)
  then obtain pat' where y: "y = WildcardAuthority pat'" using assms(3) by (cases y) auto
  obtain c c' sfx where "pat = c # sfx" "pat' = c' # sfx"
    using assms(1,2) unfolding WildcardAuthority y from_first_dot_hit by auto
  then show ?thesis using assms(4,5) WildcardAuthority y by simp
qed (use assms in \<open>cases y; auto\<close>)+

lemma best_rule_unique:
  assumes un: "unambiguous rules" and r: "best_rule rules a path r" and r': "best_rule rules a path r'"
  shows "r = r'"
proof -
  obtain x p s x' p' s' where eq: "r = (x, p, s)" "r' = (x', p', s')" by (cases r, cases r')
  have mem: "r \<in> set rules" "r' \<in> set rules" using r r' by (auto simp: best_rule_def)
  have "outranked r r'" "outranked r' r" using r r' by (auto simp: best_rule_def simp del: rule_hit.simps outranked.simps)
  then have rank: "authority_tier x = authority_tier x'" "path_rank p = path_rank p'" by (auto simp: eq)
  have hit: "rule_hit a path r" "rule_hit a path r'" using r r' by (auto simp: best_rule_def)
  have "p = p'" using same_rank_path [OF _ _ rank(2)] hit by (auto simp: eq)
  moreover have "x = x'" using same_tier_authority [OF _ _ rank(1)] hit un mem
    by (auto simp: eq unambiguous_def simp del: authority_hit.simps)
  moreover have "inj_on (\<lambda>(a, p, _). (a, p)) (set rules)" using un by (simp add: unambiguous_def distinct_map)
  ultimately show ?thesis using mem by (auto simp: eq inj_on_def)
qed

lemma best_rule_set_cong: "set rules = set rules' \<Longrightarrow> best_rule rules a path = best_rule rules' a path"
  by (simp add: best_rule_def fun_eq_iff)

lemma all_rules_mset: "mset svcs = mset svcs' \<Longrightarrow> set (all_rules svcs) = set (all_rules svcs')"
  by (auto simp: all_rules_def dest: mset_eq_setD)

context rule_sort
begin

lemma service_match_spec:
  assumes "mk_matcher srt svcs = Some m"
  shows "case service_match m a path of
           None \<Rightarrow> \<forall>r\<in>set (all_rules svcs). \<not> rule_hit a path r
         | Some s \<Rightarrow> \<exists>r. best_rule (all_rules svcs) a path r \<and> snd (snd r) = s"
proof -
  obtain m0 where m0: "represents (all_rules svcs) m0" "m = finalize_all srt m0"
    using mk_matcher_represents [OF assms] .
  show ?thesis
  proof (cases "service_match m a path")
    case None
    then show ?thesis using service_match_None [OF m0(1)] m0(2) by (simp del: rule_hit.simps)
  next
    case (Some s)
    then show ?thesis using service_match_Some [OF m0(1)] m0(2) by (simp del: rule_hit.simps)
  qed
qed

end

lemma service_match_same_rules:
  assumes "rule_sort srt" "rule_sort srt'" "mk_matcher srt svcs = Some m" "mk_matcher srt' svcs' = Some m'"
    and set: "set (all_rules svcs') = set (all_rules svcs)" and un: "unambiguous (all_rules svcs)"
  shows "service_match m a path = service_match m' a path"
proof -
  note m = rule_sort.service_match_spec [OF assms(1,3), of a path]
  note m' = rule_sort.service_match_spec [OF assms(2,4), of a path, unfolded set best_rule_set_cong [OF set]]
  show ?thesis
    using m m' best_rule_unique [OF un, of a path]
    by (cases "service_match m a path"; cases "service_match m' a path") (auto simp: best_rule_def simp del: rule_hit.simps)
qed

subsection \<open>The exact paths\<close>

lemma collect_paths_set: "set (collect_paths ps r) = set ps \<union> set r"
  by (induction ps r rule: collect_paths.induct) auto

lemma collect_paths_distinct: "distinct r \<Longrightarrow> distinct (collect_paths ps r)"
  by (induction ps r rule: collect_paths.induct) auto

lemma collect_fold_set:
  "set (fold (\<lambda>(_, rs). collect_paths (hm_keys (exactPaths rs))) m r) =
     (\<Union>(k, rs)\<in>set m. set (hm_keys (exactPaths rs))) \<union> set r"
  by (induction m arbitrary: r) (auto simp: collect_paths_set simp del: set_map list.set_map)

lemma collect_fold_distinct:
  "distinct r \<Longrightarrow> distinct (fold (\<lambda>(_, rs). collect_paths (hm_keys (exactPaths rs))) m r)"
proof (induction m arbitrary: r)
  case (Cons x m)
  then show ?case using Cons.IH [OF collect_paths_distinct [OF Cons.prems]] by (simp add: split_beta)
qed simp

lemma exactPaths_finalize [simp]: "exactPaths (finalize srt rs) = exactPaths rs"
  by (simp add: finalize_def)

lemma exactPaths_keys: "set (hm_keys (exactPaths (rs_of l))) = {v. \<exists>s. (ExactPath v, s) \<in> set l}"
  using exactPaths_None [of l] hm_find_None [of "exactPaths (rs_of l)"] by blast

lemma exactPaths_of_map:
  assumes "distinct (hm_keys m)" "\<And>a. rule_set_at m a (f a)"
  shows "(\<Union>(k, rs)\<in>set m. set (hm_keys (exactPaths rs))) = {v. \<exists>a s. (ExactPath v, s) \<in> set (f a)}"
proof -
  have "(k, rs) \<in> set m \<longleftrightarrow> f k \<noteq> [] \<and> rs = rs_of (f k)" for k rs
    using assms(2) [of k] unfolding hm_mem_find [OF assms(1)] rule_set_at_def by auto
  then have "v \<in> (\<Union>(k, rs)\<in>set m. set (hm_keys (exactPaths rs))) \<longleftrightarrow>
      (\<exists>k. f k \<noteq> [] \<and> v \<in> set (hm_keys (exactPaths (rs_of (f k)))))" for v
    by (auto simp del: set_map list.set_map)
  then have "v \<in> (\<Union>(k, rs)\<in>set m. set (hm_keys (exactPaths rs))) \<longleftrightarrow>
      v \<in> {v. \<exists>a s. (ExactPath v, s) \<in> set (f a)}" for v
    unfolding exactPaths_keys mem_Collect_eq by (simp only:) (metis list.set(1) emptyE)
  then show ?thesis by (rule set_eqI)
qed

lemma represents_exact_paths:
  assumes "represents rules m" "\<forall>(a, _, _)\<in>set rules. a \<noteq> WildcardAuthority []"
  shows "distinct (allExactPaths (finalize_all srt m)) \<and>
         set (allExactPaths (finalize_all srt m)) = {v. \<exists>a s. (a, ExactPath v, s) \<in> set rules}"
proof -
  have fin: "fold (\<lambda>(_, rs). collect_paths (hm_keys (exactPaths rs))) (map (\<lambda>(a, rs). (a, finalize srt rs)) rm) r =
        fold (\<lambda>(_, rs). collect_paths (hm_keys (exactPaths rs))) rm r" for rm r
    by (induction rm arbitrary: r) auto
  have m: "\<And>a. rule_set_at (exactAuthorityRules m) a (exact_rules a rules)"
    "\<And>s. rule_set_at (wildcardAuthorityRules m) s (wildcard_rules s rules)"
    "anyAuthorityRules m = rs_of (any_rules rules)"
    "distinct (hm_keys (exactAuthorityRules m))" "distinct (hm_keys (wildcardAuthorityRules m))"
    using assms(1) by (auto simp: represents_def)
  have paths: "set (allExactPaths (finalize_all srt m)) =
     {v. \<exists>a s. (ExactPath v, s) \<in> set (exact_rules a rules)} \<union>
     {v. \<exists>a s. (ExactPath v, s) \<in> set (wildcard_rules a rules)} \<union>
     {v. \<exists>s. (ExactPath v, s) \<in> set (any_rules rules)}"
    unfolding allExactPaths_def Let_def finalize_all_def
    using exactPaths_of_map [OF m(4) m(1)] exactPaths_of_map [OF m(5) m(2)] exactPaths_keys [of "any_rules rules"]
    by (simp add: fin collect_paths_set collect_fold_set m(3) Un_ac del: set_map list.set_map)
  have "(\<exists>a s. (a, ExactPath v, s) \<in> set rules) \<longleftrightarrow>
     (\<exists>a s. (ExactPath v, s) \<in> set (exact_rules a rules)) \<or> (\<exists>a s. (ExactPath v, s) \<in> set (wildcard_rules a rules))
     \<or> (\<exists>s. (ExactPath v, s) \<in> set (any_rules rules))" (is "?L = ?R") for v
  proof
    assume ?L
    then obtain a s where a: "(a, ExactPath v, s) \<in> set rules" by blast
    then have ne: "a \<noteq> WildcardAuthority []" using assms(2) by auto
    show ?R
    proof (cases a)
      case (WildcardAuthority pat)
      then obtain c sfx where "pat = c # sfx" using ne by (cases pat) auto
      then show ?thesis using a WildcardAuthority by (auto simp: wildcard_rules_suffix)
    qed (use a in \<open>auto simp: exact_rules_mem any_rules_mem\<close>)
  qed (auto simp: exact_rules_mem any_rules_mem wildcard_rules_suffix)
  then show ?thesis unfolding paths
    by (auto simp: allExactPaths_def Let_def finalize_all_def collect_paths_distinct collect_fold_distinct)
qed

lemma mk_matcher_None_iff:
  "mk_matcher srt svcs = None \<longleftrightarrow> (\<exists>p s. (WildcardAuthority [], p, s) \<in> set (all_rules svcs))"
proof -
  have "add_rules rules m = None \<longleftrightarrow> (\<exists>p s. (WildcardAuthority [], p, s) \<in> set rules)" for rules m
    by (induction rules m rule: add_rules.induct)
       (auto simp: add_match_entry_def split: authority.splits list.splits bind_splits)
  then show ?thesis by (simp add: mk_matcher_def add_services_rules)
qed

subsection \<open>Properties\<close>

text \<open>Three services used by the witnesses: a catch-all, an exact authority and a wildcard.\<close>

definition demo_services :: "(string \<times> service_config) list" where
  "demo_services =
     (let svc = (\<lambda>es. \<lparr>svc_match = es, svc_cache = \<lparr>maxCachedTracks = 0, maxCachedGroupsPerTrack = 1, maxCachedMb = 16,
                  minEvictionKb = 64, maxCacheDuration = 0, defaultMaxCacheDuration = None\<rparr>, svc_upstream = None\<rparr>)
      in [(''all'', svc [\<lparr>me_authority = AnyAuthority, me_path = PrefixPath ''/''\<rparr>]),
          (''live'', svc [\<lparr>me_authority = ExactAuthority ''a.b.c'', me_path = ExactPath ''/live''\<rparr>]),
          (''wild'', svc [\<lparr>me_authority = WildcardAuthority ''*.b.c'', me_path = PrefixPath ''/li''\<rparr>,
                       \<lparr>me_authority = WildcardAuthority ''*.b.c'', me_path = PrefixPath ''/''\<rparr>])])"

abbreviation by_length :: "prefix_rule list \<Rightarrow> prefix_rule list" where
  "by_length \<equiv> desc_by (\<lambda>r. length (rule_prefix r))"

text \<open>C1: whatever the iteration order of the service map and whatever std::sort does with equal
  lengths, a lookup answers with the service of a rule that hits the connection and that no other
  hitting rule outranks (exact over wildcard over any authority; within a tier exact path over the
  longest prefix), and it answers nothing only when no rule hits.\<close>

theorem service_match_correct:
  assumes "std_sort longer srt" "mk_matcher srt svcs = Some m"
  shows "case service_match m authority path of
           None \<Rightarrow> \<forall>r\<in>set (all_rules svcs). \<not> rule_hit authority path r
         | Some s \<Rightarrow> \<exists>r. best_rule (all_rules svcs) authority path r \<and> snd (snd r) = s"
  using rule_sort.service_match_spec [of srt] assms by (simp add: rule_sort_def)

theorem service_match_correct_witness:
  "\<exists>m. mk_matcher by_length demo_services = Some m \<and>
       service_match m ''a.b.c'' ''/lift'' = Some ''wild'' \<and>
       (\<exists>r. best_rule (all_rules demo_services) ''a.b.c'' ''/lift'' r \<and> snd (snd r) = ''wild'')"
proof -
  obtain m where m: "mk_matcher by_length demo_services = Some m"
    "service_match m ''a.b.c'' ''/lift'' = Some ''wild''"
  proof -
    have "map_option (\<lambda>m. service_match m ''a.b.c'' ''/lift'') (mk_matcher by_length demo_services) = Some (Some ''wild'')"
      by code_simp
    then show ?thesis using that by auto
  qed
  then show ?thesis
    using service_match_correct [OF prefix_sort.std_sort_axioms m(1), of "''a.b.c''" "''/lift''"] by auto
qed

text \<open>C2: when no two rules have the same authority and path, the answer does not depend on the
  iteration order of the service map nor on how std::sort orders equal lengths.\<close>

theorem service_match_deterministic:
  assumes "std_sort longer srt" "std_sort longer srt'" "mset svcs' = mset svcs"
    and "mk_matcher srt svcs = Some m" "mk_matcher srt' svcs' = Some m'" "unambiguous (all_rules svcs)"
  shows "service_match m authority path = service_match m' authority path"
  using service_match_same_rules [of srt srt' svcs m svcs' m'] all_rules_mset [OF assms(3)] assms
  by (simp add: rule_sort_def)

theorem service_match_deterministic_witness:
  "\<exists>m m'. mk_matcher by_length demo_services = Some m \<and> mk_matcher by_length (rev demo_services) = Some m' \<and>
     service_match m ''x.b.c'' ''/live'' = service_match m' ''x.b.c'' ''/live''"
proof -
  have "mk_matcher by_length demo_services \<noteq> None" "mk_matcher by_length (rev demo_services) \<noteq> None"
    by code_simp+
  then obtain m m' where m: "mk_matcher by_length demo_services = Some m" "mk_matcher by_length (rev demo_services) = Some m'"
    by auto
  have "unambiguous (all_rules demo_services)" by code_simp
  then show ?thesis
    using service_match_deterministic [OF prefix_sort.std_sort_axioms prefix_sort.std_sort_axioms _ m] m by auto
qed

text \<open>C3: \<open>allExactPaths\<close> returns each path that some exact-path rule names, whatever its authority
  tier, exactly once, and nothing else.\<close>

theorem allExactPaths_correct:
  assumes "mk_matcher srt svcs = Some m"
  shows "distinct (allExactPaths m) \<and>
         set (allExactPaths m) = {v. \<exists>a s. (a, ExactPath v, s) \<in> set (all_rules svcs)}"
proof -
  obtain m0 where m0: "represents (all_rules svcs) m0" "m = finalize_all srt m0"
    using mk_matcher_represents [OF assms] .
  have "\<forall>(a, _, _)\<in>set (all_rules svcs). a \<noteq> WildcardAuthority []"
    using mk_matcher_None_iff [of srt svcs] assms by auto
  then show ?thesis using represents_exact_paths [OF m0(1)] m0(2) by simp
qed

theorem allExactPaths_correct_witness:
  "\<exists>m. mk_matcher by_length demo_services = Some m \<and> distinct (allExactPaths m) \<and>
     set (allExactPaths m) = {v. \<exists>a s. (a, ExactPath v, s) \<in> set (all_rules demo_services)}"
proof -
  have "mk_matcher by_length demo_services \<noteq> None" by code_simp
  then obtain m where "mk_matcher by_length demo_services = Some m" by auto
  then show ?thesis using allExactPaths_correct by blast
qed

end
