(* ===== verification/Config_Validity.thy ===== *)
theory Config_Validity
  imports Config_Resolver Service_Matcher
begin

unbundle bit_operations_syntax

section \<open>Which configurations are accepted, and what they resolve to\<close>

text \<open>
  A declarative reading of the validation code: \<open>valid_config\<close> says in quantifiers what the
  error-collecting functions of Config_Resolver check one push_back at a time, and the lemmas
  show that no error is reported exactly when it holds. On top of it: accepted configurations
  have routing rules on which the service matcher is deterministic, resolution never
  dereferences an empty optional, and the transport settings follow the documented precedence.
\<close>

subsection \<open>Declarative validity\<close>

definition quic_ok :: "quic_config \<Rightarrow> quic_stack \<Rightarrow> bool" where
  "quic_ok q stack \<longleftrightarrow>
     maxStreamData q \<le> maxData q \<and> minAckDelayUs q \<le> maxAckDelayUs q \<and> ccAlgo q \<in> set (valid_algos stack)"

definition mvfst_ok :: "mvfst_config \<Rightarrow> bool" where
  "mvfst_ok m \<longleftrightarrow>
     maxCwndInMss m \<noteq> 0 \<and> maxConnPacketsSentPerLoop m \<noteq> 0 \<and> numGROBuffers m \<noteq> 0 \<and>
     (copa_deltaParam m = NaN \<or> (\<exists>x. copa_deltaParam m = Finite x \<and> 0 < x \<and> x < 1)) \<and>
     (l4s_ceTarget m = NaN \<or> (\<exists>x. l4s_ceTarget m = Finite x \<and> 0 \<le> x \<and> x < 1))"

definition listener_ok :: "parsed_listener_config \<Rightarrow> quic_config \<Rightarrow> mvfst_config \<Rightarrow> bool" where
  "listener_ok l q m \<longleftrightarrow>
     s_port (u_socket (pl_udp l)) \<noteq> 0 \<and>
     (\<not> lt_insecure (pl_tls l) \<longrightarrow> has_text (lt_cert_file (pl_tls l)) \<and> has_text (lt_key_file (pl_tls l))) \<and>
     pl_quic_stack l \<in> {None, Some ''mvfst'', Some ''picoquic''} \<and>
     (pl_quic_stack l = Some ''picoquic'' \<longrightarrow> \<not> lt_insecure (pl_tls l)) \<and>
     quic_ok q (stack_of l) \<and> mvfst_ok m \<and> (needs_pacing (ccAlgo q) \<longrightarrow> pacingEnabled m)"

definition admin_ok :: "parsed_admin_config \<Rightarrow> bool" where
  "admin_ok a \<longleftrightarrow>
     pa_port a \<noteq> 0 \<and> (plaintext a \<longleftrightarrow> pa_tls a = None) \<and>
     (\<forall>t. pa_tls a = Some t \<longrightarrow> has_text (at_cert_file t) \<and> has_text (at_key_file t))"

fun authority_ok :: "authority_match \<Rightarrow> bool" where
  "authority_ok (PExactAuthority v) = (v \<noteq> [])"
| "authority_ok (PWildcardAuthority pat) = (\<exists>host. pat = ''*.'' @ host \<and> host \<noteq> [] \<and> CHR ''*'' \<notin> set host)"
| "authority_ok (PAnyAuthority b) = b"

fun path_value :: "parsed_path_match \<Rightarrow> string" where
  "path_value (PExactPath v) = v"
| "path_value (PPrefixPath v) = v"

definition rule_ok :: "match_rule \<Rightarrow> bool" where
  "rule_ok r \<longleftrightarrow> authority_ok (mr_authority r) \<and> (\<exists>rest. path_value (mr_path r) = CHR ''/'' # rest)"

fun authority_text :: "authority_match \<Rightarrow> string \<times> string" where
  "authority_text (PExactAuthority v) = (''exact'', v)"
| "authority_text (PWildcardAuthority v) = (''wildcard'', v)"
| "authority_text (PAnyAuthority _) = (''any'', [])"

definition rule_key :: "match_rule \<Rightarrow> string" where
  "rule_key r =
     makeCompositeKey (fst (authority_text (mr_authority r))) (snd (authority_text (mr_authority r))) (mr_path r)"

definition cache_ok :: "parsed_cache_config \<Rightarrow> bool" where
  "cache_ok c \<longleftrightarrow>
     enabled c \<noteq> None \<and> max_tracks c \<noteq> None \<and> max_groups_per_track c \<noteq> None \<and>
     (enabled c = Some True \<longrightarrow> max_groups_per_track c \<noteq> Some 0) \<and>
     max_cache_duration_s c \<noteq> Some 0 \<and> max_cached_mb c \<noteq> Some 0"

definition upstream_ok :: "parsed_upstream_config \<Rightarrow> bool" where
  "upstream_ok u \<longleftrightarrow> pu_url u \<noteq> [] \<and> \<not> (ut_insecure (pu_tls u) \<and> ca_cert (pu_tls u) \<noteq> None)"

definition service_ok :: "parsed_config \<Rightarrow> parsed_service_config \<Rightarrow> bool" where
  "service_ok cfg svc \<longleftrightarrow>
     (\<forall>r\<in>set (ps_match svc). rule_ok r) \<and> cache_ok (merged_cache svc cfg) \<and>
     (\<forall>u. ps_upstream svc = Some u \<longrightarrow> upstream_ok u)"

definition parsed_rules :: "(string \<times> parsed_service_config) list \<Rightarrow> match_rule list" where
  "parsed_rules svcs = concat (map (\<lambda>(_, svc). ps_match svc) svcs)"

definition sbd_ok :: "sbd_config \<Rightarrow> bool \<Rightarrow> bool" where
  "sbd_ok s is_edge \<longleftrightarrow>
     delaySource s \<in> {''owd'', ''rtt''} \<and>
     algorithm s \<in> {''PracticalPassiveAndRFC'', ''DcSBD'', ''Wei2020ECN''} \<and>
     (algorithm s = ''DcSBD'' \<longrightarrow> delaySource s = ''owd'') \<and> (sbd_enabled s \<longrightarrow> is_edge)"

definition rtt_ok :: "(string \<Rightarrow> bool) \<Rightarrow> parsed_config \<Rightarrow> bool" where
  "rtt_ok ip_valid cfg \<longleftrightarrow>
     (\<forall>(peer, dir)\<in>set (value_or (rtt_outputs cfg) []).
        ip_valid peer \<and> (\<exists>rest. dir = CHR ''/'' # rest) \<and>
        (\<forall>l\<in>set (pc_listeners cfg). stack_string l = ''mvfst''))"

definition quic_of :: "parsed_config \<Rightarrow> parsed_listener_config \<Rightarrow> quic_config" where
  "quic_of cfg l = mergeQuicConfig (Option.bind (listener_defaults cfg) ld_quic) (pl_quic l)"

definition mvfst_of :: "parsed_config \<Rightarrow> parsed_listener_config \<Rightarrow> mvfst_config" where
  "mvfst_of cfg l = mergeMvfstConfig (Option.bind (listener_defaults cfg) ld_mvfst) (pl_mvfst l)"

definition socket_of :: "parsed_listener_config \<Rightarrow> string \<times> u16" where
  "socket_of l = (s_address (u_socket (pl_udp l)), s_port (u_socket (pl_udp l)))"

definition valid_config :: "(string \<Rightarrow> bool) \<Rightarrow> parsed_config \<Rightarrow> bool" where
  "valid_config ip_valid cfg \<longleftrightarrow>
     pc_listeners cfg \<noteq> [] \<and>
     (\<forall>l\<in>set (pc_listeners cfg). listener_ok l (quic_of cfg l) (mvfst_of cfg l)) \<and>
     distinct (map socket_of (pc_listeners cfg)) \<and>
     (\<forall>a. pc_admin cfg = Some a \<longrightarrow> admin_ok a) \<and>
     pc_services cfg \<noteq> [] \<and> (\<forall>(_, svc)\<in>set (pc_services cfg). service_ok cfg svc) \<and>
     distinct (map rule_key (parsed_rules (pc_services cfg))) \<and>
     value_or (pc_threads cfg) 1 = 1 \<and>
     sbd_ok (sbd_of cfg) (value_or (pc_edge cfg) False) \<and> rtt_ok ip_valid cfg"

subsection \<open>No error is reported exactly when the condition holds\<close>

lemma report_Nil [simp]: "report b e = [] \<longleftrightarrow> \<not> b"
  by (simp add: report_def)

lemma both_simps [simp]: "fst (both d d') = fst d @ fst d'" "snd (both d d') = snd d @ snd d'"
  by (simp_all add: both_def)

lemma validateQuicConfig_ok: "fst (validateQuicConfig q stack ctx) = [] \<longleftrightarrow> quic_ok q stack"
  by (auto simp: validateQuicConfig_def quic_ok_def)

lemma validateMvfstConfig_ok: "fst (validateMvfstConfig m ctx) = [] \<longleftrightarrow> mvfst_ok m"
  by (cases "copa_deltaParam m"; cases "l4s_ceTarget m") (auto simp: validateMvfstConfig_def mvfst_ok_def not_le not_less)

lemma listener_diagnostics_ok:
  "fst (validate_one_listener l q m addrs) = [] \<longleftrightarrow> listener_ok l q m \<and> listener_addr l \<notin> addrs"
  unfolding validate_one_listener_def Let_def both_simps append_is_Nil_conv validateQuicConfig_ok validateMvfstConfig_ok
  by (auto simp: validateListener_def listener_ok_def validateListenerTlsConfig_def stack_string_def Let_def
      split: option.splits)

lemma validateAdmin_ok: "validateAdmin cfg = [] \<longleftrightarrow> (\<forall>a. pc_admin cfg = Some a \<longrightarrow> admin_ok a)"
  by (auto simp: validateAdmin_def admin_ok_def validateAdminTlsConfig_def Let_def split: option.splits)

lemma validateUpstream_ok: "validateUpstream u = [] \<longleftrightarrow> upstream_ok u"
  by (auto simp: validateUpstream_def upstream_ok_def)

lemma validate_cache_ok: "validate_cache name c = [] \<longleftrightarrow> cache_ok c"
proof -
  have "(g :: u32) < 1 \<longleftrightarrow> g = 0" for g by (simp add: word_less_1)
  then show ?thesis by (auto simp: validate_cache_def cache_ok_def split: option.splits)
qed

lemma validate_sbd_ok: "validate_sbd s is_edge = [] \<longleftrightarrow> sbd_ok s is_edge"
  by (auto simp: validate_sbd_def sbd_ok_def)

lemma validate_threads_ok: "validate_threads n = [] \<longleftrightarrow> n = 1"
  by (auto simp: validate_threads_def) (metis word_less_1 not_less_iff_gr_or_eq)

lemma validate_rtt_ok:
  "validate_rtt ip_valid (pc_listeners cfg) (value_or (rtt_outputs cfg) []) = [] \<longleftrightarrow> rtt_ok ip_valid cfg"
proof -
  have "(dir \<noteq> [] \<and> hd dir = CHR ''/'') \<longleftrightarrow> (\<exists>rest. dir = CHR ''/'' # rest)" for dir
    by (cases dir) auto
  then show ?thesis
    by (cases "value_or (rtt_outputs cfg) []") (auto simp: validate_rtt_def rtt_ok_def)
qed

lemma map_append_distinct: "distinct (map f xs) \<Longrightarrow> distinct xs"
  by (induction xs) auto

text \<open>The text "address:port" determines the address and the port.\<close>

lemma digits_no_colon: "CHR '':'' \<notin> set (to_string n)"
proof
  assume "CHR '':'' \<in> set (to_string n)"
  then obtain d where "d < 10" "CHR '':'' = digit_char d" using to_string_chars by blast
  then have "(of_char CHR '':'' :: nat) = of_char (digit_char d)" by simp
  then show False using \<open>d < 10\<close> by (simp add: digit_char_def)
qed

lemma last_colon_split:
  assumes "a @ CHR '':'' # p = b @ CHR '':'' # q" "CHR '':'' \<notin> set p" "CHR '':'' \<notin> set q"
  shows "a = b \<and> p = q"
  using assms by (auto simp: append_eq_append_conv2 append_eq_Cons_conv Cons_eq_append_conv)

lemma listener_addr_inj: "listener_addr l = listener_addr l' \<longleftrightarrow> socket_of l = socket_of l'"
proof
  assume "listener_addr l = listener_addr l'"
  then have "s_address (u_socket (pl_udp l)) = s_address (u_socket (pl_udp l')) \<and>
      to_string (unat (s_port (u_socket (pl_udp l)))) = to_string (unat (s_port (u_socket (pl_udp l'))))"
    unfolding listener_addr_def Let_def by (intro last_colon_split) (simp_all add: digits_no_colon)
  then show "socket_of l = socket_of l'" by (auto simp: socket_of_def word_unat_eq_iff intro: to_string_inj)
qed (simp add: listener_addr_def socket_of_def Let_def)

lemma validate_listeners_ok:
  "fst (fst (validate_listeners qd md ls addrs)) = [] \<longleftrightarrow>
     (\<forall>l\<in>set ls. listener_ok l (mergeQuicConfig qd (pl_quic l)) (mergeMvfstConfig md (pl_mvfst l)))
     \<and> distinct (map listener_addr ls) \<and> set (map listener_addr ls) \<inter> addrs = {}"
  by (induction qd md ls addrs rule: validate_listeners.induct)
     (auto simp: listener_diagnostics_ok split_beta Let_def)

lemma validate_listeners_merged:
  "snd (validate_listeners qd md ls addrs) =
     map (\<lambda>l. (mergeQuicConfig qd (pl_quic l), mergeMvfstConfig md (pl_mvfst l))) ls"
  by (induction qd md ls addrs rule: validate_listeners.induct) (auto simp: split_beta Let_def)

lemma distinct_listener_addr: "distinct (map listener_addr ls) \<longleftrightarrow> distinct (map socket_of ls)"
proof (induction ls)
  case (Cons l ls)
  have "listener_addr l \<in> listener_addr ` set ls \<longleftrightarrow> socket_of l \<in> socket_of ` set ls"
    by (simp add: image_iff listener_addr_inj)
  with Cons show ?case by simp
qed simp

lemma wildcard_ok:
  "authority_ok (PWildcardAuthority pat) \<longleftrightarrow>
     \<not> (length pat < 3 \<or> pat ! 0 \<noteq> CHR ''*'' \<or> pat ! 1 \<noteq> CHR ''.'') \<and> CHR ''*'' \<notin> set (drop 2 pat)"
  by (cases pat; cases "tl pat"; cases "tl (tl pat)") auto

lemma validateAuthority_valid:
  "authority_ok a \<Longrightarrow>
   validateAuthority a p = ([], Some \<lparr>ai_type = fst (authority_text a), ai_value = snd (authority_text a)\<rparr>)"
  by (cases a) (auto simp: wildcard_ok simp del: authority_ok.simps(2))

lemma validateAuthority_invalid: "\<not> authority_ok a \<Longrightarrow> \<exists>e. validateAuthority a p = ([e], None)"
  by (cases a) (auto simp: wildcard_ok simp del: authority_ok.simps(2))

lemma validatePath_valid: "path_value q = CHR ''/'' # rest \<Longrightarrow> validatePath q p = ([], True)"
  by (cases q) (auto simp: validatePath_def)

lemma validatePath_invalid:
  "(\<And>rest. path_value q \<noteq> CHR ''/'' # rest) \<Longrightarrow> \<exists>e. validatePath q p = ([e], False)"
  by (cases q; cases "path_value q") (auto simp: validatePath_def)

lemma validate_match_step:
  "rule_ok r \<Longrightarrow> validate_match name j (r # rs) keys =
     map_prod ((@) (report (rule_key r \<in> keys) (DuplicateMatch name (rule_key r)))) id
       (validate_match name (Suc j) rs (insert (rule_key r) keys))"
  by (auto simp: rule_ok_def rule_key_def Let_def validateAuthority_valid validatePath_valid)

lemma validate_match_invalid:
  assumes "\<not> rule_ok r"
  shows "fst (validate_match name j (r # rs) keys) \<noteq> []"
proof (cases "authority_ok (mr_authority r)")
  case True
  then obtain e where "validatePath (mr_path r) (name, j) = ([e], False)"
    using assms validatePath_invalid [of "mr_path r" "(name, j)"] by (auto simp: rule_ok_def)
  then show ?thesis using True by (simp add: validateAuthority_valid)
next
  case False
  then show ?thesis using validateAuthority_invalid [OF False, of "(name, j)"] by auto
qed

lemma validate_match_ok:
  "fst (validate_match name j rs keys) = [] \<longleftrightarrow>
     (\<forall>r\<in>set rs. rule_ok r) \<and> distinct (map rule_key rs) \<and> set (map rule_key rs) \<inter> keys = {}"
proof (induction rs arbitrary: j keys)
  case (Cons r rs)
  show ?case
    by (cases "rule_ok r")
       (auto simp: Cons validate_match_step validate_match_invalid simp del: validate_match.simps(2))
qed simp

lemma validate_match_keys:
  "(\<forall>r\<in>set rs. rule_ok r) \<Longrightarrow> snd (validate_match name j rs keys) = keys \<union> set (map rule_key rs)"
  by (induction rs arbitrary: j keys) (auto simp: validate_match_step simp del: validate_match.simps(2))

lemma validateService_ok:
  "fst (validateService name svc cfg keys caches) = [] \<longleftrightarrow>
     service_ok cfg svc \<and> distinct (map rule_key (ps_match svc)) \<and> set (map rule_key (ps_match svc)) \<inter> keys = {}"
  by (auto simp: validateService_def service_ok_def validate_match_ok validate_cache_ok validateUpstream_ok
      split_beta Let_def split: option.splits)

lemma validateService_keys:
  "service_ok cfg svc \<Longrightarrow> snd (validateService name svc cfg keys caches) =
     (keys \<union> set (map rule_key (ps_match svc)), hm_emplace name (merged_cache svc cfg) caches)"
  by (auto simp: validateService_def service_ok_def validate_match_keys split_beta Let_def)

lemma parsed_rules_simps [simp]:
  "parsed_rules [] = []" "parsed_rules ((name, svc) # svcs) = ps_match svc @ parsed_rules svcs"
  by (simp_all add: parsed_rules_def)

lemma validate_services_ok:
  "fst (validate_services cfg svcs keys caches) = [] \<longleftrightarrow>
     (\<forall>(_, svc)\<in>set svcs. service_ok cfg svc) \<and> distinct (map rule_key (parsed_rules svcs)) \<and>
     set (map rule_key (parsed_rules svcs)) \<inter> keys = {}"
proof (induction svcs arbitrary: keys caches)
  case (Cons x svcs)
  obtain name svc where x: "x = (name, svc)" by (cases x)
  have step: "fst (validate_services cfg (x # svcs) keys caches) = [] \<longleftrightarrow>
      fst (validateService name svc cfg keys caches) = [] \<and>
      fst (validate_services cfg svcs (fst (snd (validateService name svc cfg keys caches)))
        (snd (snd (validateService name svc cfg keys caches)))) = []"
    by (simp add: x split_beta Let_def)
  show ?case
    unfolding step validateService_ok Cons.IH
    by (cases "service_ok cfg svc") (auto simp: x validateService_keys)
qed simp

subsection \<open>Resolution after a clean validation\<close>

lemma validate_services_caches:
  "hm_find (snd (validate_services cfg svcs keys caches)) n =
     (case hm_find caches n of Some c \<Rightarrow> Some c | None \<Rightarrow> map_option (\<lambda>svc. merged_cache svc cfg) (map_of svcs n))"
proof (induction svcs arbitrary: keys caches)
  case (Cons x svcs)
  obtain name svc where x: "x = (name, svc)" by (cases x)
  have "snd (snd (validateService name svc cfg keys caches)) = hm_emplace name (merged_cache svc cfg) caches" for keys caches
    by (simp add: validateService_def split_beta Let_def)
  then show ?case using Cons.IH by (auto simp: x split_beta Let_def hm_simps split: option.splits)
qed (simp split: option.splits)

definition resolved_service :: "parsed_config \<Rightarrow> parsed_service_config \<Rightarrow> service_config" where
  "resolved_service cfg svc = the (resolveService svc (merged_cache svc cfg))"

lemma cache_ok_resolves: "cache_ok c \<Longrightarrow> \<exists>r. resolveCacheConfig c = Some r"
  by (cases "enabled c"; cases "max_tracks c"; cases "max_groups_per_track c")
     (auto simp: cache_ok_def resolveCacheConfig_def Let_def)

lemma service_ok_resolves:
  "service_ok cfg svc \<Longrightarrow> resolveService svc (merged_cache svc cfg) = Some (resolved_service cfg svc)"
  using cache_ok_resolves [of "merged_cache svc cfg"]
  by (auto simp: service_ok_def resolved_service_def resolveService_def)

lemma resolve_services_all:
  assumes "distinct (map fst svcs)" "set (map fst svcs) \<inter> set (hm_keys acc) = {}"
    and "\<forall>(n, svc)\<in>set svcs. service_ok cfg svc \<and> hm_find caches n = Some (merged_cache svc cfg)"
  shows "resolve_services svcs caches acc = Some (acc @ map (\<lambda>(n, svc). (n, resolved_service cfg svc)) svcs)"
  using assms
proof (induction svcs arbitrary: acc)
  case (Cons x svcs)
  obtain name svc where x: "x = (name, svc)" by (cases x)
  have "hm_find acc name = None" using Cons.prems(2) by (auto simp: x hm_find_None)
  then have "hm_emplace name (resolved_service cfg svc) acc = acc @ [(name, resolved_service cfg svc)]"
    by (simp add: hm_emplace_def)
  moreover have "resolveService svc (merged_cache svc cfg) = Some (resolved_service cfg svc)"
    using Cons.prems(3) by (simp add: x service_ok_resolves)
  moreover have "resolve_services svcs caches (acc @ [(name, resolved_service cfg svc)]) =
      Some ((acc @ [(name, resolved_service cfg svc)]) @ map (\<lambda>(n, svc). (n, resolved_service cfg svc)) svcs)"
    using Cons.prems by (intro Cons.IH) (auto simp: x)
  ultimately show ?case using Cons.prems(3) by (simp add: x)
qed simp

lemma bind_case: "Option.bind opt f = (case opt of None \<Rightarrow> None | Some x \<Rightarrow> f x)"
  by (cases opt) auto

lemma validate_config_merged:
  "fst (snd (validate_config ip_valid cfg)) = map (\<lambda>l. (quic_of cfg l, mvfst_of cfg l)) (pc_listeners cfg)"
  by (simp add: validate_config_def Let_def split_beta validate_listeners_merged quic_of_def mvfst_of_def bind_case)

lemma validate_config_ok:
  assumes "pc_listeners cfg \<noteq> []"
  shows "fst (fst (validate_config ip_valid cfg)) = [] \<longleftrightarrow> valid_config ip_valid cfg"
  unfolding validate_config_def Let_def split_beta fst_conv append_is_Nil_conv validate_listeners_ok
    validateAdmin_ok validate_services_ok validate_threads_ok validate_sbd_ok validate_rtt_ok report_Nil
    distinct_listener_addr valid_config_def quic_of_def mvfst_of_def
  using assms by (auto simp: bind_case)

definition addresses :: "parsed_config \<Rightarrow> (string \<times> u16) set" where
  "addresses cfg =
     socket_of ` set (pc_listeners cfg) \<union> (\<lambda>a. (pa_address a, pa_port a)) ` set_option (pc_admin cfg)"

lemma resolve_listeners_None:
  "resolve_listeners sockaddr ls (map f ls) = None \<longleftrightarrow> (\<exists>l\<in>set ls. case socket_of l of (a, p) \<Rightarrow> sockaddr a p = None)"
proof (induction ls)
  case (Cons l ls)
  obtain q m where f: "f l = (q, m)" by (cases "f l")
  show ?case
    using Cons by (cases "sockaddr (s_address (u_socket (pl_udp l))) (s_port (u_socket (pl_udp l)))")
      (auto simp: f resolveListener_def socket_of_def Let_def)
qed simp

lemma resolve_admin_None:
  "resolve_admin sockaddr opt = None \<longleftrightarrow> (\<exists>a. opt = Some a \<and> sockaddr (pa_address a) (pa_port a) = None)"
  by (auto simp: resolve_admin_def split: option.splits)

lemma resolveConfig_valid:
  assumes valid: "valid_config ip_valid cfg" and d: "distinct (map fst (pc_services cfg))"
  shows "resolveConfig sockaddr ip_valid r1 r2 cfg =
    (case resolve_admin sockaddr (pc_admin cfg) of None \<Rightarrow> AddressThrows | Some adm \<Rightarrow>
      (case resolve_listeners sockaddr (pc_listeners cfg) (map (\<lambda>l. (quic_of cfg l, mvfst_of cfg l)) (pc_listeners cfg)) of
         None \<Rightarrow> AddressThrows
       | Some ls \<Rightarrow>
           Resolved \<lparr>listeners = ls,
             services = map (\<lambda>(n, svc). (n, resolved_service cfg svc)) (pc_services cfg), admin = adm,
             relayID = value_or (relay_id cfg) (generateRelayID r1 r2),
             threads = value_or (pc_threads cfg) 1,
             mvfstBpfSteering = value_or (mvfst_bpf_steering cfg) True,
             edge = value_or (pc_edge cfg) False, sbd = sbd_of cfg,
             rttOutputs = value_or (rtt_outputs cfg) []\<rparr> (snd (fst (validate_config ip_valid cfg)))))"
proof -
  have ne: "pc_listeners cfg \<noteq> []" using valid by (simp add: valid_config_def)
  have "snd (snd (validate_config ip_valid cfg)) = snd (validate_services cfg (pc_services cfg) {} [])"
    by (simp add: validate_config_def Let_def split_beta)
  then have "resolve_services (pc_services cfg) (snd (snd (validate_config ip_valid cfg))) [] =
      Some ([] @ map (\<lambda>(n, svc). (n, resolved_service cfg svc)) (pc_services cfg))"
    using valid d
    by (intro resolve_services_all) (auto simp: valid_config_def validate_services_caches)
  then show ?thesis
    using validate_config_ok [OF ne, of ip_valid] ne valid
    unfolding resolveConfig_def split_beta Let_def validate_config_merged by simp
qed

lemma resolveConfig_invalid:
  assumes "\<not> valid_config ip_valid cfg" "pc_listeners cfg \<noteq> []"
  shows "\<exists>e es. resolveConfig sockaddr ip_valid r1 r2 cfg = Rejected (e # es)"
  using validate_config_ok [OF assms(2), of ip_valid] assms
  by (cases "fst (fst (validate_config ip_valid cfg))") (auto simp: resolveConfig_def split_beta Let_def)

text \<open>An accepted configuration, with what it resolves to.\<close>

lemma resolveConfig_ResolvedE:
  assumes "resolveConfig sockaddr ip_valid r1 r2 cfg = Resolved c ws" "distinct (map fst (pc_services cfg))"
  obtains "valid_config ip_valid cfg"
    "services c = map (\<lambda>(n, svc). (n, resolved_service cfg svc)) (pc_services cfg)"
    "resolve_listeners sockaddr (pc_listeners cfg) (map (\<lambda>l. (quic_of cfg l, mvfst_of cfg l)) (pc_listeners cfg)) = Some (listeners c)"
    "relayID c = value_or (relay_id cfg) (generateRelayID r1 r2)"
proof (cases "valid_config ip_valid cfg")
  case True
  then show ?thesis using assms that by (auto simp: resolveConfig_valid split: option.splits)
next
  case False
  then show ?thesis using assms resolveConfig_invalid [OF False, of sockaddr r1 r2]
    by (cases "pc_listeners cfg = []") (auto simp: resolveConfig_def)
qed

lemma resolve_listeners_mem:
  assumes "resolve_listeners sockaddr ls (map f ls) = Some rs" "r \<in> set rs"
  shows "\<exists>l\<in>set ls. resolveListener sockaddr l (fst (f l)) (snd (f l)) = Some r"
  using assms
proof (induction ls arbitrary: rs)
  case (Cons l ls)
  obtain q m where "f l = (q, m)" by (cases "f l")
  with Cons show ?case by (auto split: option.splits)
qed simp

subsection \<open>Routing rules of an accepted configuration\<close>

lemma resolved_service_match:
  "service_ok cfg svc \<Longrightarrow> svc_match (resolved_service cfg svc) = map resolveMatchEntry (ps_match svc)"
  using cache_ok_resolves [of "merged_cache svc cfg"]
  by (auto simp: service_ok_def resolved_service_def resolveService_def)

lemma resolved_rules:
  assumes "\<forall>(_, svc)\<in>set svcs. service_ok cfg svc"
  shows "map (\<lambda>(a, p, _). (a, p)) (all_rules (map (\<lambda>(n, svc). (n, resolved_service cfg svc)) svcs)) =
    map (\<lambda>r. (me_authority (resolveMatchEntry r), me_path (resolveMatchEntry r))) (parsed_rules svcs)"
  using assms by (induction svcs) (auto simp: all_rules_def resolved_service_match)

text \<open>The composite key is a function of the resolved authority and path.\<close>

fun resolved_key :: "authority \<times> path_matcher \<Rightarrow> string" where
  "resolved_key (a, p) =
     (case a of ExactAuthority v \<Rightarrow> ''exact:'' @ v | WildcardAuthority v \<Rightarrow> ''wildcard:'' @ v | AnyAuthority \<Rightarrow> ''any:'') @
     ''|'' @ (case p of ExactPath v \<Rightarrow> ''exact:'' @ v | PrefixPath v \<Rightarrow> ''prefix:'' @ v)"

lemma rule_key_resolved:
  "rule_key r = resolved_key (me_authority (resolveMatchEntry r), me_path (resolveMatchEntry r))"
  by (cases "mr_authority r"; cases "mr_path r") (auto simp: rule_key_def makeCompositeKey_def resolveMatchEntry_def)

lemma valid_config_unambiguous:
  assumes "valid_config ip_valid cfg"
  shows "unambiguous (all_rules (map (\<lambda>(n, svc). (n, resolved_service cfg svc)) (pc_services cfg)))"
    (is "unambiguous ?rules")
proof -
  have ok: "\<forall>(_, svc)\<in>set (pc_services cfg). service_ok cfg svc" using assms by (simp add: valid_config_def)
  let ?pair = "\<lambda>r. (me_authority (resolveMatchEntry r), me_path (resolveMatchEntry r))"
  have "distinct (map resolved_key (map ?pair (parsed_rules (pc_services cfg))))"
    using assms by (simp add: valid_config_def comp_def rule_key_resolved [symmetric] del: resolved_key.simps)
  then have "distinct (map (\<lambda>(a, p, _). (a, p)) ?rules)"
    unfolding resolved_rules [OF ok] by (rule map_append_distinct)
  moreover have "star_pattern a" if "(a, p, s) \<in> set ?rules" for a p s
  proof -
    have "(a, p) \<in> set (map (\<lambda>(a, p, _). (a, p)) ?rules)" using that by force
    then obtain r where r: "r \<in> set (parsed_rules (pc_services cfg))" "a = me_authority (resolveMatchEntry r)"
      unfolding resolved_rules [OF ok] by auto
    have "rule_ok r" using r(1) ok by (fastforce simp: parsed_rules_def service_ok_def)
    then show ?thesis using r(2) by (auto simp: rule_ok_def resolveMatchEntry_def split: authority_match.splits)
  qed
  ultimately show ?thesis by (auto simp: unambiguous_def)
qed

subsection \<open>Precedence of the transport settings\<close>

text \<open>The value of a field: the listener's if set, else the one of listener_defaults, else built in.\<close>

definition setting :: "('s \<Rightarrow> 'v option) \<Rightarrow> 's option \<Rightarrow> 's option \<Rightarrow> 'v \<Rightarrow> 'v" where
  "setting f perListener defaults builtin =
     value_or (Option.bind perListener f) (value_or (Option.bind defaults f) builtin)"

definition nested :: "('s \<Rightarrow> 't option) \<Rightarrow> ('t \<Rightarrow> 'v option) \<Rightarrow> 's \<Rightarrow> 'v option" where
  "nested g f s = Option.bind (g s) f"

lemma apply_opt_simps: "apply_opt g None a = a" "apply_opt g (Some b) a = g a b"
  by (simp_all add: apply_opt_def)

lemma apply_opt_bbr:
  "apply_opt apply_bbr opt b =
     b\<lparr>conservativeRecovery := value_or (Option.bind opt conservative_recovery) (conservativeRecovery b),
       largeProbeRttCwnd := value_or (Option.bind opt large_probe_rtt_cwnd) (largeProbeRttCwnd b),
       enableAckAggregationInStartup :=
         value_or (Option.bind opt enable_ack_aggregation_in_startup) (enableAckAggregationInStartup b),
       probeRttDisabledIfAppLimited :=
         value_or (Option.bind opt probe_rtt_disabled_if_app_limited) (probeRttDisabledIfAppLimited b),
       drainToTarget := value_or (Option.bind opt drain_to_target) (drainToTarget b)\<rparr>"
  by (cases opt) (simp_all add: apply_opt_def apply_bbr_def)

lemma apply_opt_bbr2:
  "apply_opt apply_bbr2 opt b =
     b\<lparr>ignoreInflightLongTerm := value_or (Option.bind opt ignore_inflight_long_term) (ignoreInflightLongTerm b),
       ignoreShortTerm := value_or (Option.bind opt ignore_short_term) (ignoreShortTerm b),
       exitStartupOnLoss := value_or (Option.bind opt exit_startup_on_loss) (exitStartupOnLoss b),
       enableRecoveryInStartup := value_or (Option.bind opt enable_recovery_in_startup) (enableRecoveryInStartup b),
       enableRecoveryInProbeStates :=
         value_or (Option.bind opt enable_recovery_in_probe_states) (enableRecoveryInProbeStates b),
       enableRenoCoexistence := value_or (Option.bind opt enable_reno_coexistence) (enableRenoCoexistence b),
       paceInitCwnd := value_or (Option.bind opt pace_init_cwnd) (paceInitCwnd b),
       overrideCruisePacingGain := value_or (Option.bind opt override_cruise_pacing_gain) (overrideCruisePacingGain b),
       overrideCruiseCwndGain := value_or (Option.bind opt override_cruise_cwnd_gain) (overrideCruiseCwndGain b),
       overrideStartupPacingGain := value_or (Option.bind opt override_startup_pacing_gain) (overrideStartupPacingGain b),
       overrideBwShortBeta := value_or (Option.bind opt override_bw_short_beta) (overrideBwShortBeta b)\<rparr>"
  by (cases opt) (simp_all add: apply_opt_def apply_bbr2_def)

lemma apply_opt_cubic:
  "apply_opt apply_cubic opt b =
     b\<lparr>additiveIncreaseAfterHystart :=
         value_or (Option.bind opt additive_increase_after_hystart) (additiveIncreaseAfterHystart b),
       onlyGrowCwndWhenLimited := value_or (Option.bind opt only_grow_cwnd_when_limited) (onlyGrowCwndWhenLimited b),
       leaveHeadroomForCwndLimited :=
         value_or (Option.bind opt leave_headroom_for_cwnd_limited) (leaveHeadroomForCwndLimited b)\<rparr>"
  by (cases opt) (simp_all add: apply_opt_def apply_cubic_def)

lemma apply_opt_value: "apply_opt (\<lambda>d s. value_or (f s) d) opt b = value_or (Option.bind opt f) b"
  by (cases opt) (simp_all add: apply_opt_def)

lemmas mvfst_merge_simps =
  apply_opt_bbr apply_opt_bbr2 apply_opt_cubic apply_opt_value applyMvfstOverride_def setting_def nested_def

text \<open>each QUIC transport setting of a listener is the listener's own value if it sets one, else
  the one of listener_defaults, else the built-in default of the struct.\<close>

theorem mergeQuicConfig_precedence:
  "mergeQuicConfig d l =
     \<lparr>maxData = setting max_data l d 67108864, maxStreamData = setting max_stream_data l d 16777216,
      maxUniStreams = setting max_uni_streams l d 8192, maxBidiStreams = setting max_bidi_streams l d 16,
      idleTimeoutMs = setting idle_timeout_ms l d 30000, maxAckDelayUs = setting max_ack_delay_us l d 25000,
      minAckDelayUs = setting min_ack_delay_us l d 1000,
      defaultStreamPriority = setting default_stream_priority l d 2,
      defaultDatagramPriority = setting default_datagram_priority l d 1,
      ccAlgo = setting cc_algo l d ''bbr''\<rparr>"
  by (cases d; cases l)
     (simp_all add: mergeQuicConfig_def apply_opt_def applyQuicOverride_def quic_config_default_def setting_def)

text \<open>the mvfst tunables follow the same precedence, field by field inside the bbr, bbr2, cubic,
  copa and l4s blocks as well: a block given by the listener does not hide the other fields of the
  block given by listener_defaults.\<close>

theorem mergeMvfstConfig_precedence:
  "mergeMvfstConfig d l =
     \<lparr>maxCwndInMss = setting max_cwnd_in_mss l d 860000, pacingEnabled = setting pacing_enabled l d True,
      enableGSO = setting enable_gso l d True,
      maxConnPacketsSentPerLoop = setting max_conn_packets_sent_per_loop l d 48,
      useRecvmmsg = setting use_recvmmsg l d True,
      maxServerRecvPacketsPerLoop = setting max_server_recv_packets_per_loop l d 64,
      numGROBuffers = setting num_gro_buffers l d 1,
      bbr = \<lparr>conservativeRecovery = setting (nested m_bbr conservative_recovery) l d False,
        largeProbeRttCwnd = setting (nested m_bbr large_probe_rtt_cwnd) l d False,
        enableAckAggregationInStartup = setting (nested m_bbr enable_ack_aggregation_in_startup) l d False,
        probeRttDisabledIfAppLimited = setting (nested m_bbr probe_rtt_disabled_if_app_limited) l d False,
        drainToTarget = setting (nested m_bbr drain_to_target) l d False\<rparr>,
      bbr2 = \<lparr>ignoreInflightLongTerm = setting (nested m_bbr2 ignore_inflight_long_term) l d False,
        ignoreShortTerm = setting (nested m_bbr2 ignore_short_term) l d False,
        exitStartupOnLoss = setting (nested m_bbr2 exit_startup_on_loss) l d True,
        enableRecoveryInStartup = setting (nested m_bbr2 enable_recovery_in_startup) l d True,
        enableRecoveryInProbeStates = setting (nested m_bbr2 enable_recovery_in_probe_states) l d True,
        enableRenoCoexistence = setting (nested m_bbr2 enable_reno_coexistence) l d False,
        paceInitCwnd = setting (nested m_bbr2 pace_init_cwnd) l d False,
        overrideCruisePacingGain = setting (nested m_bbr2 override_cruise_pacing_gain) l d (Finite (- 1)),
        overrideCruiseCwndGain = setting (nested m_bbr2 override_cruise_cwnd_gain) l d (Finite (- 1)),
        overrideStartupPacingGain = setting (nested m_bbr2 override_startup_pacing_gain) l d (Finite (- 1)),
        overrideBwShortBeta = setting (nested m_bbr2 override_bw_short_beta) l d (Finite 0)\<rparr>,
      cubic = \<lparr>additiveIncreaseAfterHystart = setting (nested m_cubic additive_increase_after_hystart) l d False,
        onlyGrowCwndWhenLimited = setting (nested m_cubic only_grow_cwnd_when_limited) l d False,
        leaveHeadroomForCwndLimited = setting (nested m_cubic leave_headroom_for_cwnd_limited) l d False\<rparr>,
      copa_deltaParam = setting (nested m_copa delta_param) l d (Finite (1 / 20)),
      l4s_ceTarget = setting (nested m_l4s ce_target) l d (Finite 0)\<rparr>"
  by (cases d; cases l)
     (simp_all add: mergeMvfstConfig_def apply_opt_simps mvfst_merge_simps mvfst_config_default_def)

subsection \<open>Properties of the resolver\<close>

text \<open>A small configuration for the witnesses: one insecure mvfst listener, one service.\<close>

definition demo_listener :: parsed_listener_config where
  "demo_listener =
     \<lparr>pl_name = ''main'', pl_udp = \<lparr>u_socket = \<lparr>s_address = ''::'', s_port = 4433\<rparr>\<rparr>,
      pl_tls = \<lparr>lt_cert_file = None, lt_key_file = None, lt_insecure = True\<rparr>, pl_endpoint = ''/moq'',
      moqt_versions = Some [16, 14], pl_quic_stack = None, pl_quic = None, pl_mvfst = None\<rparr>"

definition demo_service :: parsed_service_config where
  "demo_service =
     \<lparr>ps_match = [\<lparr>mr_authority = PWildcardAuthority ''*.a.b'', mr_path = PPrefixPath ''/''\<rparr>,
                  \<lparr>mr_authority = PExactAuthority ''x.a.b'', mr_path = PExactPath ''/live''\<rparr>],
      ps_cache = Some (empty_cache\<lparr>enabled := Some True, max_tracks := Some 10, max_groups_per_track := Some 2\<rparr>),
      ps_upstream = None\<rparr>"

definition demo_config :: parsed_config where
  "demo_config =
     \<lparr>rtt_outputs = None, pc_edge = None, pc_sbd = None, pc_listeners = [demo_listener],
      service_defaults = None, pc_services = [(''svc'', demo_service)], pc_admin = None, relay_id = None,
      listener_defaults = None, pc_threads = None, mvfst_bpf_steering = None\<rparr>"

definition demo_sockaddr :: "string \<Rightarrow> u16 \<Rightarrow> (string \<times> u16) option" where
  "demo_sockaddr a p = Some (a, p)"

definition resolves :: "'addr resolve_outcome \<Rightarrow> bool" where
  "resolves r = (case r of Resolved _ _ \<Rightarrow> True | _ \<Rightarrow> False)"

lemma resolvesE: "resolves r \<Longrightarrow> (\<And>c ws. r = Resolved c ws \<Longrightarrow> P) \<Longrightarrow> P"
  by (cases r) (auto simp: resolves_def)

lemma mvfst_default_ok: "mvfst_ok mvfst_config_default"
  by (auto simp: mvfst_ok_def mvfst_config_default_def intro: exI [of _ "1 / 20"])

lemma demo_valid: "valid_config (\<lambda>_. True) demo_config"
  by (auto simp: valid_config_def demo_config_def demo_listener_def demo_service_def listener_ok_def quic_ok_def
      mvfst_default_ok quic_of_def mvfst_of_def mergeQuicConfig_def mergeMvfstConfig_def apply_opt_simps
      quic_config_default_def stack_of_def stack_string_def valid_algos_def
      needs_pacing_def service_ok_def merged_cache_def empty_cache_def cache_ok_def rule_ok_def rule_key_def
      makeCompositeKey_def sbd_of_def sbd_ok_def rtt_ok_def) (simp_all add: mvfst_config_default_def)

lemma demo_fields: "pc_admin demo_config = None" "pc_listeners demo_config = [demo_listener]"
  by (simp_all add: demo_config_def)

lemma demo_names: "distinct (map fst (pc_services demo_config))"
  by (simp add: demo_config_def)

lemma demo_resolves: "resolves (resolveConfig demo_sockaddr (\<lambda>_. True) 1 2 demo_config)"
  unfolding resolveConfig_valid [OF demo_valid demo_names]
  by (simp add: resolves_def demo_fields resolve_admin_def resolveListener_def demo_sockaddr_def Let_def)

lemma addresses_constructible:
  "(\<exists>(a, p)\<in>addresses cfg. sockaddr a p = None) \<longleftrightarrow>
     resolve_admin sockaddr (pc_admin cfg) = None \<or>
     resolve_listeners sockaddr (pc_listeners cfg) (map f (pc_listeners cfg)) = None"
  unfolding resolve_admin_None resolve_listeners_None addresses_def
  by (auto simp: split_beta bex_Un)

text \<open>C4: the outcome of \<open>resolveConfig\<close> is decided by \<open>valid_config\<close>: a valid configuration is
  accepted unless one of its addresses cannot be constructed, an invalid one is rejected with at
  least one error, and no run dereferences an empty optional or misses a merged cache (the names of
  a std::map are distinct).\<close>

theorem resolveConfig_outcome:
  assumes "distinct (map fst (pc_services cfg))"
  shows "case resolveConfig sockaddr ip_valid r1 r2 cfg of
     NoListener \<Rightarrow> pc_listeners cfg = []
   | Rejected es \<Rightarrow> es \<noteq> [] \<and> \<not> valid_config ip_valid cfg
   | AddressThrows \<Rightarrow> valid_config ip_valid cfg \<and> (\<exists>(a, p)\<in>addresses cfg. sockaddr a p = None)
   | Undefined \<Rightarrow> False
   | Resolved c ws \<Rightarrow> valid_config ip_valid cfg \<and> (\<forall>(a, p)\<in>addresses cfg. sockaddr a p \<noteq> None)"
proof (cases "valid_config ip_valid cfg")
  case True
  note addr = addresses_constructible [of cfg sockaddr "\<lambda>l. (quic_of cfg l, mvfst_of cfg l)"]
  have all: "(\<forall>(a, p)\<in>addresses cfg. sockaddr a p \<noteq> None) \<longleftrightarrow> \<not> (\<exists>(a, p)\<in>addresses cfg. sockaddr a p = None)"
    by auto
  show ?thesis
    unfolding resolveConfig_valid [OF True assms] all addr using True by (simp split: option.split)
next
  case False
  show ?thesis
  proof (cases "pc_listeners cfg = []")
    case True
    then show ?thesis by (simp add: resolveConfig_def)
  next
    case ne: False
    then show ?thesis using False resolveConfig_invalid [OF False ne, of sockaddr r1 r2] by auto
  qed
qed

theorem resolveConfig_outcome_witness:
  "case resolveConfig demo_sockaddr (\<lambda>_. True) 1 2 demo_config of
     Resolved c ws \<Rightarrow> valid_config (\<lambda>_. True) demo_config | _ \<Rightarrow> False"
proof -
  from resolveConfig_outcome [OF demo_names, where sockaddr = demo_sockaddr and ip_valid = "\<lambda>_. True" and ?r1.0 = 1 and ?r2.0 = 2] show ?thesis
    using demo_resolves by (auto simp: resolves_def split: resolve_outcome.splits)
qed

lemma resolveListener_fields:
  assumes "resolveListener sockaddr pl q m = Some l"
  shows "quic l = q" "mvfst l = m" "quicStack l = stack_of pl"
    "tlsMode l = (if lt_insecure (pl_tls pl) then Insecure else Tls (resolveTlsConfig (pl_tls pl)))"
  using assms by (auto simp: resolveListener_def Let_def)

lemma resolveTlsConfig_files:
  "has_text (lt_cert_file t) \<Longrightarrow> certFile (resolveTlsConfig t) \<noteq> []"
  "has_text (lt_key_file t) \<Longrightarrow> keyFile (resolveTlsConfig t) \<noteq> []"
  by (auto simp: resolveTlsConfig_def has_text_def split: option.splits)

lemma listener_ok_stack:
  "listener_ok pl q m \<Longrightarrow> lt_insecure (pl_tls pl) \<Longrightarrow> stack_of pl = Mvfst"
  by (auto simp: listener_ok_def stack_of_def stack_string_def)

text \<open>C5: in an accepted configuration every listener has flow-control windows and ACK delays in
  order, a congestion controller its stack supports, pacing whenever that controller needs it, and
  either TLS with certificate and key or the insecure mode on mvfst.\<close>

theorem resolved_listener_sound:
  assumes "distinct (map fst (pc_services cfg))" "resolveConfig sockaddr ip_valid r1 r2 cfg = Resolved c ws"
    and "l \<in> set (listeners c)"
  shows "maxStreamData (quic l) \<le> maxData (quic l) \<and> minAckDelayUs (quic l) \<le> maxAckDelayUs (quic l) \<and>
    ccAlgo (quic l) \<in> set (valid_algos (quicStack l)) \<and>
    (needs_pacing (ccAlgo (quic l)) \<longrightarrow> pacingEnabled (mvfst l)) \<and> numGROBuffers (mvfst l) \<noteq> 0 \<and>
    (case tlsMode l of Insecure \<Rightarrow> quicStack l = Mvfst | Tls t \<Rightarrow> certFile t \<noteq> [] \<and> keyFile t \<noteq> [])"
proof -
  from assms(2,1) obtain pl where pl: "pl \<in> set (pc_listeners cfg)" "valid_config ip_valid cfg"
    "resolveListener sockaddr pl (quic_of cfg pl) (mvfst_of cfg pl) = Some l"
  proof (rule resolveConfig_ResolvedE)
    assume valid: "valid_config ip_valid cfg"
      and "resolve_listeners sockaddr (pc_listeners cfg) (map (\<lambda>l. (quic_of cfg l, mvfst_of cfg l)) (pc_listeners cfg)) = Some (listeners c)"
    from resolve_listeners_mem [OF this(2) assms(3)] valid show ?thesis using that by auto
  qed
  then have ok: "listener_ok pl (quic_of cfg pl) (mvfst_of cfg pl)" by (simp add: valid_config_def)
  show ?thesis
    unfolding resolveListener_fields [OF pl(3)]
    using ok listener_ok_stack [OF ok] resolveTlsConfig_files [of "pl_tls pl"]
    by (simp add: listener_ok_def quic_ok_def mvfst_ok_def)
qed

theorem resolved_listener_sound_witness:
  "\<exists>c ws l. resolveConfig demo_sockaddr (\<lambda>_. True) 1 2 demo_config = Resolved c ws \<and> l \<in> set (listeners c) \<and>
     maxStreamData (quic l) \<le> maxData (quic l)"
proof -
  obtain c ws where c: "resolveConfig demo_sockaddr (\<lambda>_. True) 1 2 demo_config = Resolved c ws"
    using demo_resolves by (rule resolvesE)
  have "listeners c \<noteq> []" using c unfolding resolveConfig_valid [OF demo_valid demo_names]
    by (auto simp: demo_fields resolve_admin_def resolveListener_def demo_sockaddr_def Let_def)
  then have l: "hd (listeners c) \<in> set (listeners c)" by simp
  from resolved_listener_sound [OF demo_names c l] c l show ?thesis by blast
qed

lemma resolved_cache_sound:
  assumes "service_ok cfg svc"
  shows "maxCachedMb (svc_cache (resolved_service cfg svc)) \<noteq> 0"
    "1000 \<le> maxCacheDuration (svc_cache (resolved_service cfg svc))"
    "0 < maxCachedTracks (svc_cache (resolved_service cfg svc)) \<Longrightarrow>
       0 < maxCachedGroupsPerTrack (svc_cache (resolved_service cfg svc))"
proof -
  define c where "c = merged_cache svc cfg"
  have ok: "cache_ok c" using assms by (simp add: service_ok_def c_def)
  then obtain r where r: "resolveCacheConfig c = Some r" using cache_ok_resolves by blast
  then have r': "svc_cache (resolved_service cfg svc) = r"
    by (simp add: resolved_service_def resolveService_def c_def)
  have dur: "(n :: u32) \<noteq> 0 \<Longrightarrow> 1000 \<le> unat n * 1000" for n by (simp add: unat_gt_0 Suc_le_eq)
  show "maxCachedMb (svc_cache (resolved_service cfg svc)) \<noteq> 0"
    using ok r unfolding r' by (cases "max_cached_mb c") (auto simp: resolveCacheConfig_def cache_ok_def Let_def split: option.splits)
  show "1000 \<le> maxCacheDuration (svc_cache (resolved_service cfg svc))"
    using ok r dur unfolding r' by (cases "max_cache_duration_s c") (auto simp: resolveCacheConfig_def cache_ok_def Let_def split: option.splits)
  show "0 < maxCachedGroupsPerTrack (svc_cache (resolved_service cfg svc))"
    if "0 < maxCachedTracks (svc_cache (resolved_service cfg svc))"
    using ok r that unfolding r' by (auto simp: resolveCacheConfig_def cache_ok_def Let_def unat_gt_0 split: option.splits if_splits)
qed

lemma relay_words_inj:
  fixes a b c d :: u32
  assumes "push_bit 32 (ucast a) OR ucast b = (push_bit 32 (ucast c) OR ucast d :: u64)"
  shows "a = c \<and> b = d"
proof -
  have bits: "bit (push_bit 32 (ucast a) OR ucast b :: u64) n = (if n < 32 then bit b n else n < 64 \<and> bit a (n - 32))"
    for a b :: u32 and n
    by (auto simp: bit_or_iff bit_push_bit_iff bit_ucast_iff dest: bit_imp_le_length)
  have "bit b n = bit d n" if "n < 32" for n using that bits [of a b n] bits [of c d n] assms by simp
  moreover have "bit a n = bit c n" if "n < 32" for n
    using that bits [of a b "n + 32"] bits [of c d "n + 32"] assms by simp
  ultimately show ?thesis by (auto intro!: bit_word_eqI)
qed

text \<open>C6: the routing rules of an accepted configuration are unambiguous (no two of them have the
  same authority and path, every wildcard pattern starts with a star), the service names are
  distinct, and every cache that is enabled has room for at least one group and a positive size
  and duration.\<close>

theorem resolved_services_sound:
  assumes "distinct (map fst (pc_services cfg))" "resolveConfig sockaddr ip_valid r1 r2 cfg = Resolved c ws"
  shows "unambiguous (all_rules (services c)) \<and> distinct (hm_keys (services c)) \<and>
    (\<forall>(_, svc)\<in>set (services c).
       maxCachedMb (svc_cache svc) \<noteq> 0 \<and> 1000 \<le> maxCacheDuration (svc_cache svc) \<and>
       (0 < maxCachedTracks (svc_cache svc) \<longrightarrow> 0 < maxCachedGroupsPerTrack (svc_cache svc)))"
  using assms(2,1)
proof (rule resolveConfig_ResolvedE)
  assume valid: "valid_config ip_valid cfg"
    and svcs: "services c = map (\<lambda>(n, svc). (n, resolved_service cfg svc)) (pc_services cfg)"
  have "\<forall>(_, svc)\<in>set (services c).
       maxCachedMb (svc_cache svc) \<noteq> 0 \<and> 1000 \<le> maxCacheDuration (svc_cache svc) \<and>
       (0 < maxCachedTracks (svc_cache svc) \<longrightarrow> 0 < maxCachedGroupsPerTrack (svc_cache svc))"
    using valid resolved_cache_sound unfolding svcs by (auto simp: valid_config_def)
  moreover have "hm_keys (services c) = map fst (pc_services cfg)"
    unfolding svcs by (simp add: split_beta comp_def)
  ultimately show ?thesis
    using valid_config_unambiguous [OF valid] assms(1) unfolding svcs [symmetric] by simp
qed

theorem resolved_services_sound_witness:
  "\<exists>c ws. resolveConfig demo_sockaddr (\<lambda>_. True) 1 2 demo_config = Resolved c ws \<and>
     unambiguous (all_rules (services c)) \<and> distinct (hm_keys (services c))"
proof -
  obtain c ws where c: "resolveConfig demo_sockaddr (\<lambda>_. True) 1 2 demo_config = Resolved c ws"
    using demo_resolves by (rule resolvesE)
  from resolved_services_sound [OF demo_names c] c show ?thesis by blast
qed

text \<open>duplicate detection by composite key is exact as long as no authority contains a bar: two
  valid rules get the same key only if they resolve to the same authority and path.\<close>

theorem composite_key_exact:
  assumes "CHR ''|'' \<notin> set (snd (authority_text (mr_authority r)))" "CHR ''|'' \<notin> set (snd (authority_text (mr_authority r')))"
  shows "rule_key r = rule_key r' \<longleftrightarrow> resolveMatchEntry r = resolveMatchEntry r'"
proof
  assume eq: "rule_key r = rule_key r'"
  have bar: "a @ CHR ''|'' # x = b @ CHR ''|'' # y \<longleftrightarrow> a = b \<and> x = y"
    if "CHR ''|'' \<notin> set a" "CHR ''|'' \<notin> set b" for a b x y
    using that by (auto simp: append_eq_append_conv2 append_eq_Cons_conv Cons_eq_append_conv)
  show "resolveMatchEntry r = resolveMatchEntry r'"
    using eq assms
    by (cases "mr_authority r"; cases "mr_authority r'"; cases "mr_path r"; cases "mr_path r'")
       (simp_all add: rule_key_def makeCompositeKey_def resolveMatchEntry_def bar)
next
  assume "resolveMatchEntry r = resolveMatchEntry r'"
  then show "rule_key r = rule_key r'" by (simp add: rule_key_resolved del: resolved_key.simps)
qed

theorem composite_key_exact_witness:
  "rule_key (ps_match demo_service ! 0) \<noteq> rule_key (ps_match demo_service ! 1)"
proof -
  have "resolveMatchEntry (ps_match demo_service ! 0) \<noteq> resolveMatchEntry (ps_match demo_service ! 1)"
    by (simp add: demo_service_def resolveMatchEntry_def)
  then show ?thesis
    using composite_key_exact [of "ps_match demo_service ! 0" "ps_match demo_service ! 1"]
    by (simp add: demo_service_def)
qed

text \<open>without that restriction the key is not injective: an authority holding a bar collides with
  a different rule, so that a configuration with two different rules is rejected as a duplicate.\<close>

theorem composite_key_collision:
  "let r = \<lparr>mr_authority = PExactAuthority ''a|exact:/b'', mr_path = PExactPath ''/c''\<rparr>;
       r' = \<lparr>mr_authority = PExactAuthority ''a'', mr_path = PExactPath ''/b|exact:/c''\<rparr>
   in rule_ok r \<and> rule_ok r' \<and> resolveMatchEntry r \<noteq> resolveMatchEntry r' \<and>
      fst (validate_match ''svc'' 0 [r, r'] {}) = [DuplicateMatch ''svc'' ''exact:a|exact:/b|exact:/c'']"
  by (simp add: rule_ok_def resolveMatchEntry_def validatePath_def makeCompositeKey_def report_def Let_def)

text \<open>the range check of copa.delta_param lets NaN through: a listener whose merged settings hold
  NaN there is reported valid, although the message says the value must be in (0, 1).\<close>

theorem copa_delta_nan_accepted:
  "fst (validateMvfstConfig (mergeMvfstConfig None (Some
     \<lparr>max_cwnd_in_mss = None, pacing_enabled = None, enable_gso = None, max_conn_packets_sent_per_loop = None,
      use_recvmmsg = None, max_server_recv_packets_per_loop = None, num_gro_buffers = None, m_bbr = None,
      m_bbr2 = None, m_cubic = None, m_copa = Some \<lparr>delta_param = Some NaN\<rparr>, m_l4s = None\<rparr>)) ctx) = []"
  by (simp add: validateMvfstConfig_def mergeMvfstConfig_def apply_opt_simps applyMvfstOverride_def mvfst_config_default_def)

text \<open>a generated relay id is sixteen lower-case hexadecimal digits, and it determines the 64
  random bits it was made from.\<close>

theorem generateRelayID_hex:
  "length (generateRelayID r1 r2) = 16 \<and> set (generateRelayID r1 r2) \<subseteq> set ''0123456789abcdef'' \<and>
   (generateRelayID r1 r2 = generateRelayID s1 s2 \<longleftrightarrow> r1 = s1 \<and> r2 = s2)"
proof -
  have digit: "digit_char d \<in> set ''0123456789abcdef''" if "d < 16" for d
  proof -
    have "d \<in> set [0..<16]" using that by simp
    moreover have "\<forall>d\<in>set [0..<16]. digit_char d \<in> set ''0123456789abcdef''" by code_simp
    ultimately show ?thesis by blast
  qed
  have chars: "set (generateRelayID r1 r2) \<subseteq> set ''0123456789abcdef''"
    using digits_of_chars [of 16] digit by (fastforce simp: generateRelayID_def Let_def)
  have val: "number_of_digits 16 (generateRelayID a b) = unat (push_bit 32 (ucast a) OR ucast b :: u64)" for a b
    using unsigned_less [where w = "push_bit 32 (ucast a) OR ucast b :: u64" and ?'a = nat]
    by (simp add: generateRelayID_def Let_def number_of_digits_of)
  have "a = c \<and> b = d" if "generateRelayID a b = generateRelayID c d" for a b c d :: u32
    using arg_cong [OF that, of "number_of_digits 16"] unfolding val word_unat_eq_iff [symmetric] by (rule relay_words_inj)
  then show ?thesis using chars by (auto simp: generateRelayID_def Let_def)
qed

end
