(* ===== verification/Namespace_Tree.thy ===== *)
theory Namespace_Tree
  imports Prelude
begin

section \<open>The namespace tree (src/src/NamespaceTree.h, NamespaceTree.cpp)\<close>

text \<open>
  A node of the tree is addressed by its namespace, the list of keys on the way from the
  root, so that \<open>parent_\<close> of the node \<open>p\<close> is \<open>butlast p\<close> and \<open>children_\<close> of \<open>p\<close> are the
  nodes \<open>p @ [key]\<close>. The tree is the list of all its nodes; erasing a child erases the nodes
  below it. Sessions are the type \<open>'s\<close>, property rankings \<open>'r\<close>, and the opaque objects of
  the MoQ library (callbacks and publish handles) \<open>'h\<close>; a null shared_ptr is
  \<open>None\<close>. \<open>setPublishNamespaceOk\<close> belongs to the base class of that library and changes
  nothing that is modelled.

  \<open>None\<close> as the result of an operation is a failed XCHECK. The lemmas show that no XCHECK
  fails, that \<open>activeChildCount_\<close> bounds the active children from above, that no inactive node
  is left behind, and that every operation changes the content of its own node only: pruning
  loses nothing. The tree therefore refines a map from namespaces to their content.
\<close>

type_synonym ns_path = "string list"

subsection \<open>Nodes\<close>

text \<open>moxygen::TrackFilter, with the two fields used here.\<close>

record track_filter =
  propertyType :: nat
  maxSelected :: nat

text \<open>moxygen::SubscribeNamespaceOptions.\<close>

datatype ns_options = PUBLISH | NAMESPACE | BOTH

record 'h subscriber_info =
  si_forward :: bool
  si_options :: ns_options
  namespacePublishHandle :: "'h option"
  trackNamespacePrefix :: ns_path
  si_trackFilter :: "track_filter option"

record ('s, 'h, 'r) ns_node =
  trackNamespace :: ns_path
  activeChildCount :: nat
  publisherSession :: "'s option"
  publisherPeerID :: string
  publishes :: "(string, 's) hmap"
  subscribers :: "('s, 'h subscriber_info) hmap"
  publishNamespaceCallback :: "'h option"
  rankings :: "(nat, 'r option) hmap"
  draft14PubNsHandles :: "('s, 'h) hmap"

type_synonym ('s, 'h, 'r) ns_tree = "(ns_path, ('s, 'h, 'r) ns_node) hmap"

type_synonym ('s, 'h) subscriber_list = "('s \<times> 'h subscriber_info) list"

definition new_node :: "ns_path \<Rightarrow> ('s, 'h, 'r) ns_node" where
  "new_node ns =
     \<lparr>trackNamespace = ns, activeChildCount = 0, publisherSession = None, publisherPeerID = [],
      publishes = [], subscribers = [], publishNamespaceCallback = None, rankings = [],
      draft14PubNsHandles = []\<rparr>"

definition empty_tree :: "('s, 'h, 'r) ns_tree" where
  "empty_tree = [([], new_node [])]"

definition hasContent :: "('s, 'h, 'r) ns_node \<Rightarrow> bool" where
  "hasContent d \<longleftrightarrow>
     publishes d \<noteq> [] \<or> subscribers d \<noteq> [] \<or> draft14PubNsHandles d \<noteq> [] \<or> publisherSession d \<noteq> None"

definition shouldKeep :: "('s, 'h, 'r) ns_node \<Rightarrow> bool" where
  "shouldKeep d \<longleftrightarrow> hasContent d \<or> activeChildCount d > 0"

definition node :: "('s, 'h, 'r) ns_tree \<Rightarrow> ns_path \<Rightarrow> ('s, 'h, 'r) ns_node" where
  "node t p = the (hm_find t p)"

definition upd_node ::
  "ns_path \<Rightarrow> (('s, 'h, 'r) ns_node \<Rightarrow> ('s, 'h, 'r) ns_node) \<Rightarrow> ('s, 'h, 'r) ns_tree \<Rightarrow> ('s, 'h, 'r) ns_tree" where
  "upd_node p f t = hm_set p (f (node t p)) t"

definition erase_subtree :: "ns_path \<Rightarrow> ('s, 'h, 'r) ns_tree \<Rightarrow> ('s, 'h, 'r) ns_tree" where
  "erase_subtree p t = filter (\<lambda>(q, _). \<not> prefix p q) t"

definition findPublishSession :: "('s, 'h, 'r) ns_node \<Rightarrow> string \<Rightarrow> 's option" where
  "findPublishSession d trackName = hm_find (publishes d) trackName"

subsection \<open>Counting and pruning\<close>

function incrementActiveChildren :: "('s, 'h, 'r) ns_tree \<Rightarrow> ns_path \<Rightarrow> ('s, 'h, 'r) ns_tree" where
  "incrementActiveChildren t p =
     (let t' = upd_node p (\<lambda>d. d\<lparr>activeChildCount := activeChildCount d + 1\<rparr>) t
      in if activeChildCount (node t' p) = 1 \<and> p \<noteq> [] \<and> \<not> hasContent (node t' p)
         then incrementActiveChildren t' (butlast p) else t')"
  by pat_completeness auto
termination
  by (relation "measure (\<lambda>(t, p). length p)") auto

declare incrementActiveChildren.simps [simp del]

text \<open>The loop of \<open>tryPruneChild\<close>: \<open>rem\<close> is the node that will be erased.\<close>

function prune_walk :: "('s, 'h, 'r) ns_tree \<Rightarrow> ns_path \<Rightarrow> ns_path \<Rightarrow> ('s, 'h, 'r) ns_tree option" where
  "prune_walk t current rem =
     (if activeChildCount (node t current) = 0 then None
      else let t' = upd_node current (\<lambda>d. d\<lparr>activeChildCount := activeChildCount d - 1\<rparr>) t
           in if hasContent (node t' current) \<or> activeChildCount (node t' current) > 0
              then Some (erase_subtree rem t')
              else if current = [] then Some (erase_subtree rem t')
              else prune_walk t' (butlast current) current)"
  by pat_completeness auto
termination
  by (relation "measure (\<lambda>(t, current, rem). length current)") auto

declare prune_walk.simps [simp del]

definition tryPruneChild :: "('s, 'h, 'r) ns_tree \<Rightarrow> ns_path \<Rightarrow> string \<Rightarrow> ('s, 'h, 'r) ns_tree option" where
  "tryPruneChild t parentNode childKey =
     (case hm_find t (parentNode @ [childKey]) of
        None \<Rightarrow> Some t
      | Some child \<Rightarrow>
          if shouldKeep child then Some t else prune_walk t parentNode (parentNode @ [childKey]))"

definition notifyParentIfFirstContent :: "('s, 'h, 'r) ns_tree \<Rightarrow> ns_path \<Rightarrow> bool \<Rightarrow> ('s, 'h, 'r) ns_tree" where
  "notifyParentIfFirstContent t p wasEmpty =
     (if wasEmpty \<and> hasContent (node t p) \<and> p \<noteq> [] then incrementActiveChildren t (butlast p) else t)"

definition tryPruneSelf ::
  "('s, 'h, 'r) ns_tree \<Rightarrow> ns_path \<Rightarrow> bool \<Rightarrow> ns_path \<Rightarrow> ('s, 'h, 'r) ns_tree option" where
  "tryPruneSelf t p hadContent ns =
     (if hadContent \<and> \<not> shouldKeep (node t p) \<and> p \<noteq> [] \<and> ns \<noteq> []
      then tryPruneChild t (butlast p) (last ns) else Some t)"

text \<open>A mutation bracketed by \<open>NodeMutationGuard\<close>.\<close>

definition mutate_node ::
  "('s, 'h, 'r) ns_tree \<Rightarrow> ns_path \<Rightarrow> (('s, 'h, 'r) ns_node \<Rightarrow> ('s, 'h, 'r) ns_node) \<Rightarrow> ('s, 'h, 'r) ns_tree option" where
  "mutate_node t p f =
     (let hadContent = hasContent (node t p);
          t1 = upd_node p f t;
          t2 = notifyParentIfFirstContent t1 p (\<not> hadContent)
      in tryPruneSelf t2 p hadContent p)"

subsection \<open>Operations\<close>

text \<open>\<open>findNode\<close> from the node \<open>cur\<close> on: the tree with the missing nodes created, the node found,
  and the subscribers of the nodes passed.\<close>

fun find_from ::
  "bool \<Rightarrow> bool \<Rightarrow> ('s, 'h, 'r) ns_tree \<Rightarrow> ns_path \<Rightarrow> ns_path
   \<Rightarrow> ('s, 'h, 'r) ns_tree \<times> ns_path option \<times> ('s, 'h) subscriber_list" where
  "find_from createMissing prefixMatch t cur [] = (t, Some cur, [])"
| "find_from createMissing prefixMatch t cur (name # rest) =
     (let subs = subscribers (node t cur); next_node = cur @ [name];
          go = (\<lambda>t'. case find_from createMissing prefixMatch t' next_node rest of
                      (t'', r, subs') \<Rightarrow> (t'', r, subs @ subs'))
      in if hm_find t next_node = None
         then if createMissing then go (hm_set next_node (new_node next_node) t)
              else if prefixMatch \<and> cur \<noteq> [] then (t, Some cur, subs)
              else (t, None, subs)
         else go t)"

definition findNode ::
  "bool \<Rightarrow> bool \<Rightarrow> ('s, 'h, 'r) ns_tree \<Rightarrow> ns_path
   \<Rightarrow> ('s, 'h, 'r) ns_tree \<times> ns_path option \<times> ('s, 'h) subscriber_list" where
  "findNode createMissing prefixMatch t ns = find_from createMissing prefixMatch t [] ns"

definition findPublisherSession :: "('s, 'h, 'r) ns_tree \<Rightarrow> ns_path \<Rightarrow> 's option" where
  "findPublisherSession t ns =
     (case fst (snd (findNode False True t ns)) of
        None \<Rightarrow> None
      | Some p \<Rightarrow> publisherSession (node t p))"

record ('s, 'h) set_publisher_result =
  sp_subscribers :: "('s, 'h) subscriber_list"
  replacedSession :: "'s option"
  cancelledCallback :: "'h option"

definition setPublisher ::
  "('s, 'h, 'r) ns_tree \<Rightarrow> ns_path \<Rightarrow> 's \<Rightarrow> 'h option \<Rightarrow> string
   \<Rightarrow> (('s, 'h, 'r) ns_tree \<times> ('s, 'h) set_publisher_result) option" where
  "setPublisher t ns session callback peerID =
     (let (t1, _, subs) = findNode True False t ns;
          replaced = publisherSession (node t1 ns);
          cancelled = (if replaced \<noteq> None then publishNamespaceCallback (node t1 ns) else None);
          t2 = (if replaced \<noteq> None
                then upd_node ns (\<lambda>d. d\<lparr>publishNamespaceCallback := None, publisherSession := None\<rparr>) t1
                else t1)
      in map_option (\<lambda>t3. (t3, \<lparr>sp_subscribers = subs @ subscribers (node t2 ns), replacedSession = replaced,
                                cancelledCallback = cancelled\<rparr>))
           (mutate_node t2 ns (\<lambda>d. d\<lparr>publisherSession := Some session, publisherPeerID := peerID,
                                    publishNamespaceCallback := callback, trackNamespace := ns\<rparr>)))"

datatype ns_error = NodeNotFound | NotOwner | NotSubscribed

record ('s, 'h) unpublish_result =
  un_subscribers :: "('s, 'h) subscriber_list"
  legacyHandles :: "('s \<times> 'h) list"

definition unpublishNamespace ::
  "('s, 'h, 'r) ns_tree \<Rightarrow> ns_path \<Rightarrow> 's
   \<Rightarrow> (('s, 'h, 'r) ns_tree \<times> (ns_error + ('s, 'h) unpublish_result)) option" where
  "unpublishNamespace t ns session =
     (case findNode False False t ns of
        (_, None, _) \<Rightarrow> Some (t, Inl NodeNotFound)
      | (_, Some p, subs) \<Rightarrow>
          if publisherSession (node t p) \<noteq> Some session then Some (t, Inl NotOwner)
          else map_option (\<lambda>t'. (t', Inr \<lparr>un_subscribers = subs @ subscribers (node t p),
                                         legacyHandles = draft14PubNsHandles (node t p)\<rparr>))
                 (mutate_node t p (\<lambda>d. d\<lparr>publisherSession := None, publisherPeerID := [],
                    publishNamespaceCallback := None, draft14PubNsHandles := []\<rparr>)))"

definition unpublishTrack ::
  "('s, 'h, 'r) ns_tree \<Rightarrow> ns_path \<Rightarrow> string \<Rightarrow> (('s, 'h, 'r) ns_tree \<times> (ns_error + unit)) option" where
  "unpublishTrack t ns trackName =
     (case fst (snd (findNode False False t ns)) of
        None \<Rightarrow> Some (t, Inl NodeNotFound)
      | Some p \<Rightarrow>
          map_option (\<lambda>t'. (t', Inr ())) (mutate_node t p (\<lambda>d. d\<lparr>publishes := hm_erase trackName (publishes d)\<rparr>)))"

text \<open>The rankings passed to \<open>onRanking\<close>: the non-null ones of the node and of its ancestors.\<close>

function rankings_up :: "('s, 'h, 'r) ns_tree \<Rightarrow> ns_path \<Rightarrow> (nat \<times> 'r) list" where
  "rankings_up t p =
     concat (map (\<lambda>(ty, r). case r of Some x \<Rightarrow> [(ty, x)] | None \<Rightarrow> []) (rankings (node t p))) @
     (if p = [] then [] else rankings_up t (butlast p))"
  by pat_completeness auto
termination
  by (relation "measure (\<lambda>(t, p). length p)") auto

declare rankings_up.simps [simp del]

definition addPublish ::
  "('s, 'h, 'r) ns_tree \<Rightarrow> ns_path \<Rightarrow> string \<Rightarrow> 's
   \<Rightarrow> (('s, 'h, 'r) ns_tree \<times> ('s, 'h) subscriber_list \<times> (nat \<times> 'r) list) option" where
  "addPublish t ns trackName session =
     (let (t1, _, subs) = findNode True False t ns
      in map_option (\<lambda>t2. (t2, subs @ subscribers (node t1 ns), rankings_up t2 ns))
           (mutate_node t1 ns (\<lambda>d. d\<lparr>publishes := hm_set trackName session (publishes d)\<rparr>)))"

definition getOrInsertRanking ::
  "('s, 'h, 'r) ns_tree \<Rightarrow> ns_path \<Rightarrow> nat \<Rightarrow> ('s, 'h, 'r) ns_tree \<times> 'r option" where
  "getOrInsertRanking t p ty =
     (let t' = upd_node p (\<lambda>d. d\<lparr>rankings := hm_emplace ty None (rankings d)\<rparr>) t
      in (t', the (hm_find (rankings (node t' p)) ty)))"

definition addDraft14PublishNamespaceHandle ::
  "('s, 'h, 'r) ns_tree \<Rightarrow> ns_path \<Rightarrow> 's \<Rightarrow> 'h \<Rightarrow> ('s, 'h, 'r) ns_tree" where
  "addDraft14PublishNamespaceHandle t p session handle =
     upd_node p (\<lambda>d. d\<lparr>draft14PubNsHandles := hm_emplace session handle (draft14PubNsHandles d)\<rparr>) t"

definition addNamespaceSubscriber ::
  "('s, 'h, 'r) ns_tree \<Rightarrow> ns_path \<Rightarrow> 's \<Rightarrow> 'h subscriber_info \<Rightarrow> ('s, 'h, 'r) ns_tree option" where
  "addNamespaceSubscriber t ns session info =
     (let (t1, _, _) = findNode True False t ns
      in mutate_node t1 ns (\<lambda>d. d\<lparr>subscribers := hm_emplace session info (subscribers d)\<rparr>))"

text \<open>\<open>removeNamespaceSubscriber\<close> also tells the ranking of the subscription's filter to drop the
  session; that call, if there is one, is the second result: the ranking (\<open>None\<close> would be a null
  pointer) and the group size.\<close>

definition ranking_call ::
  "('s, 'h, 'r) ns_node \<Rightarrow> 'h subscriber_info \<Rightarrow> ('r option \<times> nat) option" where
  "ranking_call d info =
     (case si_trackFilter info of
        None \<Rightarrow> None
      | Some f \<Rightarrow> map_option (\<lambda>r. (r, maxSelected f)) (hm_find (rankings d) (propertyType f)))"

definition removeNamespaceSubscriber ::
  "('s, 'h, 'r) ns_tree \<Rightarrow> ns_path \<Rightarrow> 's
   \<Rightarrow> (('s, 'h, 'r) ns_tree \<times> (ns_error + ('r option \<times> nat) option)) option" where
  "removeNamespaceSubscriber t ns session =
     (case fst (snd (findNode False False t ns)) of
        None \<Rightarrow> Some (t, Inl NodeNotFound)
      | Some p \<Rightarrow>
          (case hm_find (subscribers (node t p)) session of
             None \<Rightarrow> Some (t, Inl NotSubscribed)
           | Some info \<Rightarrow>
               map_option (\<lambda>t'. (t', Inr (ranking_call (node t p) info)))
                 (mutate_node t p (\<lambda>d. d\<lparr>subscribers := hm_erase session (subscribers d)\<rparr>))))"

subsection \<open>Activity and the invariant\<close>

definition has_node :: "('s, 'h, 'r) ns_tree \<Rightarrow> ns_path \<Rightarrow> bool" where
  "has_node t p \<longleftrightarrow> hm_find t p \<noteq> None"

definition active :: "('s, 'h, 'r) ns_tree \<Rightarrow> ns_path \<Rightarrow> bool" where
  "active t p \<longleftrightarrow> has_node t p \<and> shouldKeep (node t p)"

definition active_children :: "('s, 'h, 'r) ns_tree \<Rightarrow> ns_path \<Rightarrow> ns_path set" where
  "active_children t p = {q. q \<noteq> [] \<and> butlast q = p \<and> active t q}"

definition shape :: "('s, 'h, 'r) ns_tree \<Rightarrow> bool" where
  "shape t \<longleftrightarrow> has_node t [] \<and> (\<forall>q. q \<noteq> [] \<longrightarrow> has_node t q \<longrightarrow> has_node t (butlast q))"

text \<open>The active children of every node are bounded by its counter; \<open>short\<close> may be one short.\<close>

definition counted :: "('s, 'h, 'r) ns_tree \<Rightarrow> ns_path set \<Rightarrow> bool" where
  "counted t short \<longleftrightarrow>
     (\<forall>p. has_node t p \<longrightarrow>
        card (active_children t p) \<le> activeChildCount (node t p) + (if p \<in> short then 1 else 0))"

definition idle :: "('s, 'h, 'r) ns_tree \<Rightarrow> ns_path set" where
  "idle t = {q. q \<noteq> [] \<and> has_node t q \<and> \<not> active t q}"

definition ns_inv :: "('s, 'h, 'r) ns_tree \<Rightarrow> bool" where
  "ns_inv t \<longleftrightarrow> shape t \<and> counted t {} \<and> idle t = {}"

text \<open>The content of a namespace: what clients have put there. A missing node has none.\<close>

record ('s, 'h) ns_content =
  c_publisher :: "'s option"
  c_publishes :: "(string, 's) hmap"
  c_subscribers :: "('s, 'h subscriber_info) hmap"
  c_handles :: "('s, 'h) hmap"

definition content :: "('s, 'h, 'r) ns_node \<Rightarrow> ('s, 'h) ns_content" where
  "content d = \<lparr>c_publisher = publisherSession d, c_publishes = publishes d, c_subscribers = subscribers d,
                c_handles = draft14PubNsHandles d\<rparr>"

definition no_content :: "('s, 'h) ns_content" where
  "no_content = \<lparr>c_publisher = None, c_publishes = [], c_subscribers = [], c_handles = []\<rparr>"

definition content_at :: "('s, 'h, 'r) ns_tree \<Rightarrow> ns_path \<Rightarrow> ('s, 'h) ns_content" where
  "content_at t p = (if has_node t p then content (node t p) else no_content)"

lemma hasContent_content: "hasContent d \<longleftrightarrow> content d \<noteq> no_content"
  by (auto simp: hasContent_def content_def no_content_def)

lemma content_set_count [simp]: "content (d\<lparr>activeChildCount := n\<rparr>) = content d"
  by (simp add: content_def)

lemma hasContent_set_count [simp]: "hasContent (d\<lparr>activeChildCount := n\<rparr>) = hasContent d"
  by (simp add: hasContent_def)

subsection \<open>Reading an updated tree\<close>

lemma has_node_set: "has_node (hm_set p d t) q \<longleftrightarrow> q = p \<or> has_node t q"
  by (simp add: has_node_def hm_simps)

lemma node_set: "node (hm_set p d t) q = (if q = p then d else node t q)"
  by (simp add: node_def hm_simps)

lemma has_node_upd [simp]: "has_node t p \<Longrightarrow> has_node (upd_node p f t) q \<longleftrightarrow> has_node t q"
  by (auto simp: upd_node_def has_node_set)

lemma node_upd [simp]: "node (upd_node p f t) q = (if q = p then f (node t p) else node t q)"
  by (simp add: upd_node_def node_set)

lemma find_erase: "hm_find (erase_subtree p t) q = (if prefix p q then None else hm_find t q)"
  by (induction t) (auto simp: erase_subtree_def)

lemma has_node_erase [simp]: "has_node (erase_subtree p t) q \<longleftrightarrow> has_node t q \<and> \<not> prefix p q"
  by (simp add: has_node_def find_erase)

lemma node_erase [simp]: "\<not> prefix p q \<Longrightarrow> node (erase_subtree p t) q = node t q"
  by (simp add: node_def find_erase)

lemma active_upd: "has_node t p \<Longrightarrow> active (upd_node p f t) q \<longleftrightarrow> (if q = p then shouldKeep (f (node t p)) else active t q)"
  by (auto simp: active_def)

lemma shape_upd: "has_node t p \<Longrightarrow> shape (upd_node p f t) \<longleftrightarrow> shape t"
  by (simp add: shape_def)

lemma content_at_upd:
  "has_node t p \<Longrightarrow> content_at (upd_node p f t) q = (if q = p then content (f (node t p)) else content_at t q)"
  by (simp add: content_at_def)

lemma finite_active_children [simp]: "finite (active_children t p)"
proof (rule finite_subset)
  show "active_children t p \<subseteq> dom (hm_find t)" by (auto simp: active_children_def active_def has_node_def)
qed (rule finite_dom_map_of)

lemma shape_prefix: "shape t \<Longrightarrow> has_node t q \<Longrightarrow> prefix r q \<Longrightarrow> has_node t r"
proof (induction q rule: rev_induct)
  case (snoc k q)
  then show ?case by (auto simp: shape_def prefix_snoc)
qed simp

lemma shape_parent: "shape t \<Longrightarrow> has_node t q \<Longrightarrow> has_node t (butlast q)"
  by (cases "q = []") (auto simp: shape_def)

lemma counted_le:
  "counted t short \<Longrightarrow> has_node t p \<Longrightarrow>
   card (active_children t p) \<le> activeChildCount (node t p) + (if p \<in> short then 1 else 0)"
  by (auto simp: counted_def)

lemma idle_content: "q \<in> idle t \<Longrightarrow> content_at t q = no_content"
  by (auto simp: idle_def active_def shouldKeep_def content_at_def hasContent_content)

text \<open>What happens to the active children when one node is updated in place.\<close>

lemma active_children_upd:
  assumes "has_node t p"
  shows "active_children (upd_node p f t) r =
     (if p \<noteq> [] \<and> butlast p = r
      then (if shouldKeep (f (node t p)) then insert p (active_children t r) else active_children t r - {p})
      else active_children t r)"
  using assms by (auto simp: active_children_def active_upd)

lemma idle_upd:
  assumes "has_node t p"
  shows "idle (upd_node p f t) =
     (if p \<noteq> [] \<and> \<not> shouldKeep (f (node t p)) then insert p (idle t) else idle t - {p})"
  using assms by (auto simp: idle_def active_upd)

subsection \<open>Counting up\<close>

text \<open>The idle nodes form the lower end of the path to \<open>p\<close>.\<close>

definition idle_chain :: "('s, 'h, 'r) ns_tree \<Rightarrow> ns_path \<Rightarrow> bool" where
  "idle_chain t p \<longleftrightarrow>
     (\<forall>q\<in>idle t. prefix q p \<and> (\<forall>r. prefix q r \<longrightarrow> prefix r p \<longrightarrow> r \<in> idle t))"

lemma idle_chain_done: "idle_chain t p \<Longrightarrow> p = [] \<or> active t p \<Longrightarrow> idle t = {}"
proof (rule ccontr)
  assume chain: "idle_chain t p" and p: "p = [] \<or> active t p" and "idle t \<noteq> {}"
  then obtain q where "q \<in> idle t" by blast
  then have "p \<in> idle t" using chain unfolding idle_chain_def by blast
  then show False using p by (simp add: idle_def)
qed

lemma idle_chain_parent:
  assumes "idle_chain t p" "idle t' = idle t - {p}" "p \<noteq> []"
  shows "idle_chain t' (butlast p)"
proof -
  have bl: "prefix r p \<longleftrightarrow> r = p \<or> prefix r (butlast p)" for r
    using assms(3) prefix_snoc [of r "butlast p" "last p"] by simp
  have ne: "\<not> prefix p (butlast p)" using assms(3) prefix_length_le [of p "butlast p"] by (cases p) auto
  show ?thesis
    unfolding idle_chain_def assms(2)
  proof (intro ballI conjI allI impI)
    fix q assume q: "q \<in> idle t - {p}"
    then show "prefix q (butlast p)" using assms(1) bl [of q] unfolding idle_chain_def by blast
    fix r assume "prefix q r" "prefix r (butlast p)"
    then show "r \<in> idle t - {p}" using q assms(1) bl [of r] ne unfolding idle_chain_def by blast
  qed
qed

lemma butlast_neq: "p \<noteq> [] \<Longrightarrow> butlast p \<noteq> p"
  by (cases p rule: rev_cases) auto

lemma incrementActiveChildren_ok:
  assumes "shape t" "has_node t p" "counted t {p}" "idle_chain t p"
  shows "ns_inv (incrementActiveChildren t p) \<and>
    (\<forall>q. has_node (incrementActiveChildren t p) q \<longleftrightarrow> has_node t q) \<and>
    (\<forall>q. content_at (incrementActiveChildren t p) q = content_at t q)"
  using assms
proof (induction t p rule: incrementActiveChildren.induct)
  case (1 t p)
  define t' where "t' = upd_node p (\<lambda>d. d\<lparr>activeChildCount := activeChildCount d + 1\<rparr>) t"
  note p = \<open>has_node t p\<close>
  have unfold: "incrementActiveChildren t p =
      (if activeChildCount (node t' p) = 1 \<and> p \<noteq> [] \<and> \<not> hasContent (node t' p)
       then incrementActiveChildren t' (butlast p) else t')"
    unfolding t'_def by (subst incrementActiveChildren.simps) (simp only: Let_def)
  have keep: "shouldKeep (node t' p)" by (simp add: t'_def shouldKeep_def)
  have idle': "idle t' = idle t - {p}" using keep by (simp add: t'_def idle_upd [OF p] shouldKeep_def)
  have shape': "shape t'" using 1 by (simp add: t'_def shape_upd)
  have same: "has_node t' q = has_node t q" "content_at t' q = content_at t q" for q
    using p by (simp_all add: t'_def content_at_upd content_at_def)
  have kids': "active_children t' r = (if p \<noteq> [] \<and> butlast p = r then insert p (active_children t r) else active_children t r)" for r
    unfolding t'_def by (simp add: active_children_upd [OF p] shouldKeep_def)
  have cnt': "activeChildCount (node t' r) = activeChildCount (node t r) + (if r = p then 1 else 0)" for r
    by (simp add: t'_def)
  note ne = butlast_neq [of p]
  show ?case
  proof (cases "activeChildCount (node t' p) = 1 \<and> p \<noteq> [] \<and> \<not> hasContent (node t' p)")
    case True
    then have rec: "incrementActiveChildren t p = incrementActiveChildren t' (butlast p)" unfolding unfold by (rule if_P)
    have "counted t' {butlast p}"
      unfolding counted_def
    proof (intro allI impI)
      fix r assume "has_node t' r"
      then have r: "card (active_children t r) \<le> activeChildCount (node t r) + (if r \<in> {p} then 1 else 0)"
        using counted_le [OF \<open>counted t {p}\<close>] same by blast
      show "card (active_children t' r) \<le> activeChildCount (node t' r) + (if r \<in> {butlast p} then 1 else 0)"
        using r True ne
        by (auto simp: kids' cnt' card_insert_if)
    qed
    moreover have "idle_chain t' (butlast p)" using 1 True idle' by (intro idle_chain_parent) auto
    moreover have "has_node t' (butlast p)" using shape_parent [OF shape'] same p by blast
    ultimately show ?thesis using "1.IH" [OF t'_def True shape'] same unfolding rec by simp
  next
    case False
    then have eq: "incrementActiveChildren t p = t'" unfolding unfold by (rule if_not_P)
    have act: "p = [] \<or> active t p" using False p by (auto simp: t'_def active_def shouldKeep_def)
    then have "p \<noteq> [] \<Longrightarrow> p \<in> active_children t (butlast p)" by (simp add: active_children_def)
    then have kids: "active_children t' r = active_children t r" for r by (auto simp: kids')
    have "idle t' = {}" using idle_chain_done [OF \<open>idle_chain t p\<close> act] idle' by simp
    moreover have "counted t' {}"
      using \<open>counted t {p}\<close> by (auto simp: counted_def kids same cnt')
    ultimately show ?thesis using shape' same by (simp add: eq ns_inv_def)
  qed
qed

subsection \<open>Pruning\<close>

text \<open>Erasing a subtree of idle nodes restores the invariant and loses no content.\<close>

lemma erase_idle_subtree:
  assumes "shape t" "counted t {}" "rem \<noteq> []" "idle t = {q. has_node t q \<and> prefix rem q}"
  shows "ns_inv (erase_subtree rem t) \<and> (\<forall>q. content_at (erase_subtree rem t) q = content_at t q)"
proof -
  let ?t = "erase_subtree rem t"
  have act: "active ?t q \<longleftrightarrow> active t q" for q
  proof (cases "prefix rem q")
    case True
    then have "has_node t q \<Longrightarrow> q \<in> idle t" using assms(4) by simp
    with True show ?thesis by (auto simp: active_def idle_def)
  qed (simp add: active_def)
  have "shape ?t"
    unfolding shape_def
  proof (intro conjI allI impI)
    show "has_node ?t []" using assms(1,3) by (simp add: shape_def)
    fix q assume "q \<noteq> []" "has_node ?t q"
    then show "has_node ?t (butlast q)" using assms(1) by (cases q rule: rev_cases) (auto simp: shape_def)
  qed
  moreover have "active_children ?t p = active_children t p" for p by (simp add: active_children_def act)
  then have "counted ?t {}" using assms(2) by (auto simp: counted_def)
  moreover have "q \<notin> idle ?t" for q
  proof
    assume "q \<in> idle ?t"
    then have "q \<in> idle t" "\<not> prefix rem q" by (auto simp: idle_def act)
    then show False using assms(4) by simp
  qed
  then have "idle ?t = {}" by blast
  moreover have "content_at ?t q = content_at t q" for q
  proof (cases "prefix rem q")
    case True
    then have "has_node t q \<Longrightarrow> content_at t q = no_content" using assms(4) idle_content [of q t] by simp
    with True show ?thesis by (simp add: content_at_def)
  qed (simp add: content_at_def)
  ultimately show ?thesis by (simp add: ns_inv_def)
qed

lemma child_on_path:
  assumes "shape t" "has_node t q" "prefix cur q" "q \<noteq> cur"
  obtains k where "has_node t (cur @ [k])" "prefix (cur @ [k]) q"
proof -
  obtain zs where zs: "q = cur @ zs" using assms(3) by (auto simp: prefix_def)
  then obtain k rest where q: "q = cur @ k # rest" using assms(4) by (cases zs) auto
  then have "prefix (cur @ [k]) q" by (simp add: prefix_def)
  then show ?thesis using that shape_prefix [OF assms(1,2)] by blast
qed

text \<open>If the only idle nodes below the last child are idle, an inactive parent tops an idle subtree.\<close>

lemma only_idle_below:
  assumes "shape t" "active_children t cur = {}" "idle t = {q. has_node t q \<and> prefix (cur @ [x]) q}"
    and q: "has_node t q" "prefix cur q"
  shows "q \<in> idle t \<or> q = cur"
proof (rule ccontr)
  assume ne: "\<not> (q \<in> idle t \<or> q = cur)"
  then obtain k where k: "has_node t (cur @ [k])" "prefix (cur @ [k]) q"
    using child_on_path [OF assms(1) q] by blast
  have "cur @ [k] \<notin> active_children t cur" using assms(2) by simp
  then have "cur @ [k] \<in> idle t" using k(1) by (auto simp: active_children_def idle_def)
  then have "k = x" using assms(3) by simp
  then show False using k(2) assms(3) q(1) ne by simp
qed

lemma active_children_drop:
  assumes "has_node t p" "active t p"
  shows "p \<noteq> [] \<Longrightarrow> \<not> shouldKeep (f (node t p)) \<Longrightarrow>
     card (active_children (upd_node p f t) r) + (if r = butlast p then 1 else 0) = card (active_children t r)"
proof -
  assume p: "p \<noteq> []" and drop: "\<not> shouldKeep (f (node t p))"
  have "p \<in> active_children t (butlast p)" using assms p by (simp add: active_children_def)
  then show ?thesis
    using p drop card_Suc_Diff1 [of "active_children t (butlast p)" p] by (simp add: active_children_upd [OF assms(1)])
qed

lemma prune_walk_ok:
  assumes "shape t" "rem \<noteq> []" "butlast rem = cur" "has_node t rem"
    and "\<forall>p. has_node t p \<longrightarrow> card (active_children t p) + (if p = cur then 1 else 0) \<le> activeChildCount (node t p)"
    and "idle t = {q. has_node t q \<and> prefix rem q}"
  shows "\<exists>t'. prune_walk t cur rem = Some t' \<and> ns_inv t' \<and> (\<forall>q. content_at t' q = content_at t q)"
  using assms
proof (induction t cur rem rule: prune_walk.induct)
  case (1 t cur rem)
  have cur: "has_node t cur" using shape_parent [OF \<open>shape t\<close> \<open>has_node t rem\<close>] "1.prems"(3) by simp
  define t' where "t' = upd_node cur (\<lambda>d. d\<lparr>activeChildCount := activeChildCount d - 1\<rparr>) t"
  have unfold: "prune_walk t cur rem =
      (if activeChildCount (node t cur) = 0 then None
       else if hasContent (node t' cur) \<or> activeChildCount (node t' cur) > 0 \<or> cur = []
       then Some (erase_subtree rem t') else prune_walk t' (butlast cur) cur)"
    unfolding t'_def by (subst prune_walk.simps) (simp add: Let_def)
  have pos: "activeChildCount (node t cur) \<noteq> 0" and few: "card (active_children t cur) \<le> activeChildCount (node t cur) - 1"
    using "1.prems"(5) cur by force+
  obtain x where rem: "rem = cur @ [x]" using "1.prems"(2,3) by (cases rem rule: rev_cases) auto
  have shape': "shape t'" using "1.prems"(1) cur by (simp add: t'_def shape_upd)
  have same: "has_node t' q = has_node t q" "content_at t' q = content_at t q" for q
    using cur by (simp_all add: t'_def content_at_upd content_at_def)
  have cnt: "activeChildCount (node t' p) = (if p = cur then activeChildCount (node t cur) - 1 else activeChildCount (node t p))" for p
    by (simp add: t'_def)
  have hc: "hasContent (node t' cur) = hasContent (node t cur)" by (simp add: t'_def)
  have act_cur: "active t cur" using cur pos by (simp add: active_def shouldKeep_def)
  show ?case
  proof (cases "hasContent (node t' cur) \<or> activeChildCount (node t' cur) > 0 \<or> cur = []")
    case True
    then have eq: "prune_walk t cur rem = Some (erase_subtree rem t')" using pos unfolding unfold by simp
    have keep: "cur \<noteq> [] \<Longrightarrow> shouldKeep (node t' cur)" using True by (auto simp: shouldKeep_def)
    have mem: "cur \<noteq> [] \<Longrightarrow> cur \<in> active_children t (butlast cur)" using act_cur by (simp add: active_children_def)
    have kids: "active_children t' p = active_children t p" for p
      using keep mem unfolding t'_def active_children_upd [OF cur] by auto
    have "counted t' {}"
      using "1.prems"(5) few by (auto simp: counted_def kids cnt same)
    moreover have "cur \<notin> idle t" using act_cur by (simp add: idle_def)
    then have "idle t' = idle t" using keep by (auto simp: t'_def idle_upd [OF cur])
    then have "idle t' = {q. has_node t' q \<and> prefix rem q}" using "1.prems"(6) same by simp
    ultimately show ?thesis
      using erase_idle_subtree [OF shape' _ "1.prems"(2)] same eq by auto
  next
    case False
    then have rec: "prune_walk t cur rem = prune_walk t' (butlast cur) cur" using pos unfolding unfold by simp
    have idle': "idle t' = insert cur (idle t)"
      using False by (auto simp: t'_def idle_upd [OF cur] shouldKeep_def)
    have "card (active_children t cur) = 0" using few False cnt by simp
    then have none: "active_children t cur = {}" by simp
    have all: "q \<in> idle t \<or> q = cur" if "has_node t q" "prefix cur q" for q
      using only_idle_below [OF "1.prems"(1) none _ that] "1.prems"(6) rem by blast
    have "idle t' = {q. has_node t' q \<and> prefix cur q}"
      unfolding idle' same
    proof (intro equalityI subsetI)
      fix q assume "q \<in> insert cur (idle t)"
      then show "q \<in> {q. has_node t q \<and> prefix cur q}" using cur "1.prems"(6) rem by (auto simp: prefix_def)
    qed (use all in blast)
    moreover have "\<forall>p. has_node t' p \<longrightarrow> card (active_children t' p) + (if p = butlast cur then 1 else 0) \<le> activeChildCount (node t' p)"
    proof (intro allI impI)
      fix p assume "has_node t' p"
      then have p: "card (active_children t p) + (if p = cur then 1 else 0) \<le> activeChildCount (node t p)"
        using "1.prems"(5) same by blast
      note kids = active_children_drop [OF cur act_cur, of "\<lambda>d. d\<lparr>activeChildCount := activeChildCount d - 1\<rparr>" p, folded t'_def]
      show "card (active_children t' p) + (if p = butlast cur then 1 else 0) \<le> activeChildCount (node t' p)"
        using p none butlast_neq [of cur] False kids by (auto simp: cnt hc shouldKeep_def)
    qed
    ultimately show ?thesis
      using "1.IH" [OF pos t'_def] False shape' same cur unfolding rec by auto
  qed
qed

subsection \<open>Guarded mutations\<close>

lemma mutate_node_add:
  assumes "shape t" "has_node t p" "counted t {}" "idle_chain t p"
    and f: "hasContent (f (node t p))" "activeChildCount (f (node t p)) = activeChildCount (node t p)"
  shows "\<exists>t'. mutate_node t p f = Some t' \<and> ns_inv t' \<and> (\<forall>q. has_node t' q \<longleftrightarrow> has_node t q) \<and>
    (\<forall>q. content_at t' q = (if q = p then content (f (node t p)) else content_at t q))"
proof -
  define t1 where "t1 = upd_node p f t"
  note p = assms(2)
  have keep: "shouldKeep (f (node t p))" using f by (simp add: shouldKeep_def)
  have shape1: "shape t1" using assms by (simp add: t1_def shape_upd)
  have same: "has_node t1 q = has_node t q" for q using p by (simp add: t1_def)
  have content1: "content_at t1 q = (if q = p then content (f (node t p)) else content_at t q)" for q
    by (simp add: t1_def content_at_upd [OF p])
  have idle1: "idle t1 = idle t - {p}" using keep by (simp add: t1_def idle_upd [OF p])
  have cnt: "activeChildCount (node t1 q) = activeChildCount (node t q)" for q using f by (simp add: t1_def)
  have kids: "active_children t1 r = (if p \<noteq> [] \<and> butlast p = r then insert p (active_children t r) else active_children t r)" for r
    using keep by (simp add: t1_def active_children_upd [OF p])
  have result: "mutate_node t p f = Some (if \<not> hasContent (node t p) \<and> p \<noteq> [] then incrementActiveChildren t1 (butlast p) else t1)"
    using keep f by (auto simp: mutate_node_def tryPruneSelf_def notifyParentIfFirstContent_def t1_def Let_def)
  show ?thesis
  proof (cases "\<not> hasContent (node t p) \<and> p \<noteq> []")
    case True
    have "counted t1 {butlast p}"
      using assms(3) by (auto simp: counted_def kids cnt same card_insert_if)
    moreover have "idle_chain t1 (butlast p)" using assms(4) idle1 True by (intro idle_chain_parent) auto
    moreover have "has_node t1 (butlast p)" using shape_parent [OF shape1] same p by blast
    ultimately show ?thesis
      using incrementActiveChildren_ok [OF shape1] result True same content1 by simp
  next
    case False
    then have act: "p = [] \<or> active t p" using p by (auto simp: active_def shouldKeep_def)
    then have "p \<noteq> [] \<Longrightarrow> p \<in> active_children t (butlast p)" by (simp add: active_children_def)
    then have "counted t1 {}" using assms(3) by (auto simp: counted_def kids cnt same insert_absorb)
    moreover have "idle t1 = {}" using idle_chain_done [OF assms(4) act] idle1 by simp
    ultimately show ?thesis using shape1 result False same content1 by (auto simp: ns_inv_def)
  qed
qed

lemma no_node_below_inactive:
  assumes "ns_inv t" "has_node t p" "activeChildCount (node t p) = 0" "has_node t q" "prefix p q"
  shows "q = p"
proof (rule ccontr)
  assume "q \<noteq> p"
  then obtain k where k: "has_node t (p @ [k])" using child_on_path [of t q p] assms by (auto simp: ns_inv_def)
  have "p @ [k] \<notin> idle t" using assms(1) by (simp add: ns_inv_def)
  then have "p @ [k] \<in> active_children t p" using k by (simp add: active_children_def idle_def)
  moreover have "card (active_children t p) = 0" using assms counted_le [of t "{}" p] by (simp add: ns_inv_def)
  ultimately show False by simp
qed

lemma mutate_node_remove:
  assumes inv: "ns_inv t" and p: "has_node t p"
    and f: "hasContent (f (node t p)) \<longrightarrow> hasContent (node t p)"
      "activeChildCount (f (node t p)) = activeChildCount (node t p)"
  shows "\<exists>t'. mutate_node t p f = Some t' \<and> ns_inv t' \<and>
    (\<forall>q. content_at t' q = (if q = p then content (f (node t p)) else content_at t q))"
proof -
  define t1 where "t1 = upd_node p f t"
  have shape1: "shape t1" using inv p by (simp add: t1_def shape_upd ns_inv_def)
  have same: "has_node t1 q = has_node t q" for q using p by (simp add: t1_def)
  have content1: "content_at t1 q = (if q = p then content (f (node t p)) else content_at t q)" for q
    by (simp add: t1_def content_at_upd [OF p])
  have cnt: "activeChildCount (node t1 q) = activeChildCount (node t q)" for q using f by (simp add: t1_def)
  have act: "p = [] \<or> active t p" using inv p by (auto simp: ns_inv_def idle_def)
  have notify: "notifyParentIfFirstContent t1 p (\<not> hasContent (node t p)) = t1"
    using f by (auto simp: notifyParentIfFirstContent_def t1_def)
  show ?thesis
  proof (cases "hasContent (node t p) \<and> \<not> shouldKeep (f (node t p)) \<and> p \<noteq> []")
    case False
    then have "mutate_node t p f = Some t1"
      unfolding mutate_node_def Let_def t1_def [symmetric] notify by (auto simp: tryPruneSelf_def t1_def)
    moreover have keep: "p \<noteq> [] \<Longrightarrow> shouldKeep (f (node t p))"
      using False act f by (auto simp: active_def shouldKeep_def)
    have "p \<noteq> [] \<Longrightarrow> p \<in> active_children t (butlast p)" using act by (simp add: active_children_def)
    then have "active_children t1 r = active_children t r" for r
      using keep unfolding t1_def active_children_upd [OF p] by auto
    then have "counted t1 {}" using inv by (simp add: counted_def cnt same ns_inv_def)
    moreover have "idle t1 = {}" using inv keep by (auto simp: t1_def idle_upd [OF p] ns_inv_def)
    ultimately show ?thesis using shape1 content1 by (auto simp: ns_inv_def)
  next
    case True
    then have zero: "activeChildCount (node t p) = 0" using f by (simp add: shouldKeep_def)
    have "hm_find t1 p = Some (f (node t p))" by (simp add: t1_def upd_node_def hm_simps)
    moreover from this have "node t1 p = f (node t p)" by (simp add: node_def)
    ultimately have result: "mutate_node t p f = prune_walk t1 (butlast p) p"
      unfolding mutate_node_def Let_def t1_def [symmetric] notify
      using True by (simp add: tryPruneSelf_def tryPruneChild_def)
    have act': "active t p" using act True by simp
    have "idle t1 = {p}" using inv True by (auto simp: t1_def idle_upd [OF p] ns_inv_def)
    also have "\<dots> = {q. has_node t1 q \<and> prefix p q}"
      using no_node_below_inactive [OF inv p zero] p by (auto simp: same)
    finally have idle1: "idle t1 = {q. has_node t1 q \<and> prefix p q}" .
    have "\<forall>q. has_node t1 q \<longrightarrow> card (active_children t1 q) + (if q = butlast p then 1 else 0) \<le> activeChildCount (node t1 q)"
      using active_children_drop [OF p act', of f] True inv unfolding t1_def [symmetric]
      by (simp add: cnt same ns_inv_def counted_def)
    from prune_walk_ok [OF shape1 _ _ _ this idle1] show ?thesis
      using True same p content1 by (auto simp: result)
  qed
qed

subsection \<open>Finding and creating nodes\<close>

lemma create_child:
  assumes "shape t" "counted t {}" "has_node t cur" "idle_chain t cur" "\<not> has_node t (cur @ [name])"
  defines "t' \<equiv> hm_set (cur @ [name]) (new_node (cur @ [name])) t"
  shows "shape t'" "counted t' {}" "idle_chain t' (cur @ [name])"
    "has_node t' q \<longleftrightarrow> q = cur @ [name] \<or> has_node t q" "content_at t' q = content_at t q"
    "has_node t q \<Longrightarrow> node t' q = node t q"
proof -
  let ?n = "cur @ [name]"
  show has: "has_node t' q \<longleftrightarrow> q = ?n \<or> has_node t q" for q by (simp add: t'_def has_node_set)
  show nd: "has_node t q \<Longrightarrow> node t' q = node t q" for q using assms(5) by (auto simp: t'_def node_set)
  have new: "node t' ?n = new_node ?n" by (simp add: t'_def node_set)
  have act: "active t' q = active t q" for q
    using assms(5) new nd by (auto simp: active_def has shouldKeep_def hasContent_def new_node_def)
  have idle': "idle t' = insert ?n (idle t)"
    using assms(5) act by (auto simp: idle_def has active_def)
  have none: "active_children t' ?n = {}"
    using assms(1,5) unfolding active_children_def act by (auto simp: active_def shape_def)
  show "shape t'" using assms(1,3) by (auto simp: shape_def has)
  have kids: "active_children t' p = active_children t p" for p by (simp add: active_children_def act)
  show "counted t' {}" using assms(2) none nd by (auto simp: counted_def has kids)
  have chain: "\<And>q. q \<in> idle t \<Longrightarrow> prefix q cur" "\<And>q r. q \<in> idle t \<Longrightarrow> prefix q r \<Longrightarrow> prefix r cur \<Longrightarrow> r \<in> idle t"
    using assms(4) unfolding idle_chain_def by blast+
  show "idle_chain t' ?n"
    unfolding idle_chain_def idle'
  proof (intro ballI conjI allI impI)
    fix q assume q: "q \<in> insert ?n (idle t)"
    then show "prefix q ?n" using chain(1) by (auto simp: prefix_snoc)
    fix r assume r: "prefix q r" "prefix r ?n"
    show "r \<in> insert ?n (idle t)"
    proof (cases "r = ?n")
      case False
      then have "prefix r cur" using r(2) by (simp add: prefix_snoc)
      moreover from this have "q \<noteq> ?n" using prefix_length_le [OF r(1)] prefix_length_le [of r cur] by auto
      ultimately show ?thesis using chain(2) q r(1) by blast
    qed simp
  qed
  show "content_at t' q = content_at t q"
    using assms(5) new nd by (auto simp: content_at_def has content_def no_content_def new_node_def)
qed

text \<open>The subscribers met between two nodes.\<close>

definition subscribers_between :: "('s, 'h, 'r) ns_tree \<Rightarrow> ns_path \<Rightarrow> ns_path \<Rightarrow> ('s, 'h) subscriber_list" where
  "subscribers_between t cur rest =
     concat (map (\<lambda>i. c_subscribers (content_at t (cur @ take i rest))) [0..<length rest])"

lemma subscribers_between_Cons:
  "subscribers_between t cur (name # rest) = c_subscribers (content_at t cur) @ subscribers_between t (cur @ [name]) rest"
  by (simp add: subscribers_between_def upt_conv_Cons map_Suc_upt [symmetric] comp_def del: upt_Suc)

lemma subscribers_content: "has_node t p \<Longrightarrow> subscribers (node t p) = c_subscribers (content_at t p)"
  by (simp add: content_at_def content_def)

lemma find_create:
  assumes "shape t" "counted t {}" "has_node t cur" "idle_chain t cur"
    and "\<forall>q. idle t \<noteq> {} \<longrightarrow> has_node t q \<longrightarrow> prefix cur q \<longrightarrow> q = cur"
    and "find_from True b t cur rest = (t', r, subs)"
  shows "r = Some (cur @ rest) \<and> shape t' \<and> counted t' {} \<and> has_node t' (cur @ rest) \<and> idle_chain t' (cur @ rest) \<and>
    (\<forall>q. content_at t' q = content_at t q) \<and> (\<forall>q. has_node t q \<longrightarrow> has_node t' q \<and> node t' q = node t q) \<and>
    subs = subscribers_between t cur rest"
  using assms
proof (induction rest arbitrary: t cur t' r subs)
  case Nil
  then show ?case by (simp add: subscribers_between_def)
next
  case (Cons name rest)
  let ?n = "cur @ [name]"
  define t1 where "t1 = (if has_node t ?n then t else hm_set ?n (new_node ?n) t)"
  obtain subs1 where rec: "find_from True b t1 ?n rest = (t', r, subs1)" "subs = subscribers (node t cur) @ subs1"
    using Cons.prems(6) by (auto simp: t1_def has_node_def Let_def split: prod.splits if_splits)
  have t1: "shape t1 \<and> counted t1 {} \<and> has_node t1 ?n \<and> idle_chain t1 ?n \<and> (\<forall>q. content_at t1 q = content_at t q)
      \<and> (\<forall>q. has_node t q \<longrightarrow> has_node t1 q \<and> node t1 q = node t q)
      \<and> (\<forall>q. idle t1 \<noteq> {} \<longrightarrow> has_node t1 q \<longrightarrow> prefix ?n q \<longrightarrow> q = ?n)"
  proof (cases "has_node t ?n")
    case True
    then have "idle t = {}" using Cons.prems(5) by (metis append_self_conv not_Cons_self2 prefixI)
    then show ?thesis using True Cons.prems by (simp add: t1_def idle_chain_def)
  next
    case False
    then show ?thesis
      using create_child [OF Cons.prems(1-4) False] shape_prefix [OF Cons.prems(1)] by (auto simp: t1_def)
  qed
  have "subscribers_between t1 ?n rest = subscribers_between t ?n rest" using t1 by (simp add: subscribers_between_def)
  with Cons.IH [OF _ _ _ _ _ rec(1)] t1 show ?case
    by (simp add: rec(2) subscribers_between_Cons subscribers_content [OF Cons.prems(3)])
qed

lemma find_exact_Some:
  "shape t \<Longrightarrow> has_node t (cur @ rest) \<Longrightarrow>
   find_from False b t cur rest = (t, Some (cur @ rest), subscribers_between t cur rest)"
proof (induction rest arbitrary: cur)
  case (Cons name rest)
  have "has_node t (cur @ [name])" "has_node t cur"
    by (rule shape_prefix [OF Cons.prems]; simp)+
  then show ?case
    using Cons.IH [of "cur @ [name]"] Cons.prems
    by (simp add: has_node_def Let_def subscribers_between_Cons subscribers_content split: prod.splits)
qed (simp add: subscribers_between_def)

lemma find_exact_None:
  "shape t \<Longrightarrow> \<not> has_node t (cur @ rest) \<Longrightarrow> has_node t cur \<Longrightarrow> fst (snd (find_from False False t cur rest)) = None"
proof (induction rest arbitrary: cur)
  case (Cons name rest)
  show ?case
  proof (cases "has_node t (cur @ [name])")
    case True
    then have "fst (snd (find_from False False t (cur @ [name]) rest)) = None" using Cons by simp
    with True show ?thesis by (simp add: has_node_def Let_def split_beta)
  qed (simp add: has_node_def Let_def)
qed simp

lemma findNode_Some:
  "shape t \<Longrightarrow> has_node t ns \<Longrightarrow> findNode False b t ns = (t, Some ns, subscribers_between t [] ns)"
  using find_exact_Some [of t "[]" ns] by (simp add: findNode_def)

lemma findNode_None: "shape t \<Longrightarrow> \<not> has_node t ns \<Longrightarrow> fst (snd (findNode False False t ns)) = None"
  using find_exact_None [of t "[]" ns] by (simp add: findNode_def shape_def)

lemma findNode_create:
  assumes "ns_inv t" "findNode True b t ns = (t', r, subs)"
  shows "shape t'" "counted t' {}" "has_node t' ns" "idle_chain t' ns" "content_at t' q = content_at t q"
    "subs = subscribers_between t [] ns"
proof -
  have t: "shape t" "counted t {}" "idle t = {}" using assms(1) by (simp_all add: ns_inv_def)
  then have "has_node t []" "idle_chain t []" by (simp_all add: shape_def idle_chain_def)
  then have "shape t' \<and> counted t' {} \<and> has_node t' ns \<and> idle_chain t' ns \<and> (\<forall>q. content_at t' q = content_at t q) \<and>
      subs = subscribers_between t [] ns"
    using find_create [OF t(1,2), of "[]" b ns t' r subs] t(3) assms(2) by (simp add: findNode_def)
  then show "shape t'" "counted t' {}" "has_node t' ns" "idle_chain t' ns" "content_at t' q = content_at t q"
    "subs = subscribers_between t [] ns" by blast+
qed

subsection \<open>Each operation changes the content of its own namespace only\<close>

lemma content_node: "has_node t p \<Longrightarrow> content (node t p) = content_at t p"
  by (simp add: content_at_def)

lemma active_mem: "active t p \<Longrightarrow> p \<noteq> [] \<Longrightarrow> p \<in> active_children t (butlast p)"
  by (simp add: active_children_def)

text \<open>Taking content out of a node before it gets new content keeps what \<open>mutate_node_add\<close> needs.\<close>

lemma reset_before_add:
  assumes t: "shape t" "counted t {}" "has_node t p" "idle_chain t p" "hasContent (node t p)"
    and f: "activeChildCount (f (node t p)) = activeChildCount (node t p)"
  shows "shape (upd_node p f t)" "counted (upd_node p f t) {}" "has_node (upd_node p f t) p" "idle_chain (upd_node p f t) p"
proof -
  have act: "active t p" using t by (simp add: active_def shouldKeep_def)
  have idle: "idle t = {}" using idle_chain_done [OF t(4)] act by blast
  have "active_children (upd_node p f t) r \<subseteq> active_children t r" for r
    using active_mem [OF act] by (auto simp: active_children_upd [OF t(3)])
  then have "card (active_children (upd_node p f t) r) \<le> card (active_children t r)" for r
    by (simp add: card_mono)
  then show "counted (upd_node p f t) {}"
    using t(2,3) f unfolding counted_def by (auto intro: le_trans)
  have "idle (upd_node p f t) \<subseteq> {p}" by (auto simp: idle_upd [OF t(3)] idle)
  then show "idle_chain (upd_node p f t) p" unfolding idle_chain_def by (auto dest: prefix_order.antisym)
qed (use t in \<open>simp_all add: shape_upd\<close>)

lemma setPublisher_ok:
  assumes inv: "ns_inv t"
  shows "\<exists>t' res. setPublisher t ns session callback peerID = Some (t', res) \<and> ns_inv t' \<and>
    content_at t' = (content_at t)(ns := (content_at t ns)\<lparr>c_publisher := Some session\<rparr>) \<and>
    replacedSession res = c_publisher (content_at t ns) \<and>
    sp_subscribers res = subscribers_between t [] ns @ c_subscribers (content_at t ns)"
proof -
  obtain t1 r subs where find: "findNode True False t ns = (t1, r, subs)" by (cases "findNode True False t ns") auto
  note t1 = findNode_create [OF inv find]
  have c1: "content_at t ns = content (node t1 ns)" using t1(3) t1(5) [of ns] by (simp add: content_at_def)
  define f where "f = (\<lambda>d :: ('a, 'b, 'c) ns_node. d\<lparr>publishNamespaceCallback := None, publisherSession := None\<rparr>)"
  define g where "g = (\<lambda>d :: ('a, 'b, 'c) ns_node. d\<lparr>publisherSession := Some session, publisherPeerID := peerID,
                                    publishNamespaceCallback := callback, trackNamespace := ns\<rparr>)"
  define t2 where "t2 = (if publisherSession (node t1 ns) \<noteq> None then upd_node ns f t1 else t1)"
  have reset: "shape t2 \<and> counted t2 {} \<and> has_node t2 ns \<and> idle_chain t2 ns"
    using t1 reset_before_add [OF t1(1-4), of f] by (auto simp: t2_def f_def hasContent_def)
  have "hasContent (g d)" "activeChildCount (g d) = activeChildCount d" for d by (simp_all add: g_def hasContent_def)
  then obtain t3 where t3: "mutate_node t2 ns g = Some t3" "ns_inv t3"
    "\<And>q. content_at t3 q = (if q = ns then content (g (node t2 ns)) else content_at t2 q)"
    using mutate_node_add [of t2 ns g] reset by auto
  have node2: "content (g (node t2 ns)) = (content_at t ns)\<lparr>c_publisher := Some session\<rparr>"
    unfolding c1 by (simp add: t2_def f_def g_def content_def)
  have other: "q \<noteq> ns \<Longrightarrow> content_at t2 q = content_at t q" for q
    using t1(5) by (simp add: t2_def content_at_upd [OF t1(3)])
  have subs2: "subscribers (node t2 ns) = c_subscribers (content_at t ns)"
    using subscribers_content [OF t1(3)] t1(5) by (simp add: t2_def f_def)
  have pub: "publisherSession (node t1 ns) = c_publisher (content_at t ns)"
    unfolding c1 by (simp add: content_def)
  have "setPublisher t ns session callback peerID =
      Some (t3, \<lparr>sp_subscribers = subs @ subscribers (node t2 ns), replacedSession = publisherSession (node t1 ns),
        cancelledCallback = (if publisherSession (node t1 ns) \<noteq> None then publishNamespaceCallback (node t1 ns) else None)\<rparr>)"
    using t3(1) unfolding setPublisher_def find t2_def f_def g_def by (simp add: Let_def)
  then show ?thesis
    using t3(2,3) node2 other subs2 pub t1(6) by (auto simp: fun_eq_iff)
qed

lemma addPublish_ok:
  assumes inv: "ns_inv t"
  shows "\<exists>t' rs. addPublish t ns name session =
      Some (t', subscribers_between t [] ns @ c_subscribers (content_at t ns), rs) \<and> ns_inv t' \<and>
    content_at t' = (content_at t)(ns := (content_at t ns)\<lparr>c_publishes := hm_set name session (c_publishes (content_at t ns))\<rparr>)"
proof -
  obtain t1 r subs where find: "findNode True False t ns = (t1, r, subs)" by (cases "findNode True False t ns") auto
  note t1 = findNode_create [OF inv find]
  have c1: "content_at t ns = content (node t1 ns)" using t1(3) t1(5) [of ns] by (simp add: content_at_def)
  define g where "g = (\<lambda>d :: ('a, 'b, 'c) ns_node. d\<lparr>publishes := hm_set name session (publishes d)\<rparr>)"
  have "hm_set name session m \<noteq> []" for m :: "(string, 'a) hmap" by (cases m) auto
  then have "hasContent (g d)" "activeChildCount (g d) = activeChildCount d" for d by (simp_all add: g_def hasContent_def)
  then obtain t3 where t3: "mutate_node t1 ns g = Some t3" "ns_inv t3"
    "\<And>q. content_at t3 q = (if q = ns then content (g (node t1 ns)) else content_at t1 q)"
    using mutate_node_add [of t1 ns g] t1 by auto
  have "content (g (node t1 ns)) = (content_at t ns)\<lparr>c_publishes := hm_set name session (c_publishes (content_at t ns))\<rparr>"
    unfolding c1 by (simp add: g_def content_def)
  then show ?thesis
    using t3 t1 subscribers_content [OF t1(3)] unfolding addPublish_def find g_def by (auto simp: Let_def fun_eq_iff)
qed

lemma addNamespaceSubscriber_ok:
  assumes inv: "ns_inv t"
  shows "\<exists>t'. addNamespaceSubscriber t ns session info = Some t' \<and> ns_inv t' \<and>
    content_at t' = (content_at t)(ns := (content_at t ns)\<lparr>c_subscribers := hm_emplace session info (c_subscribers (content_at t ns))\<rparr>)"
proof -
  obtain t1 r subs where find: "findNode True False t ns = (t1, r, subs)" by (cases "findNode True False t ns") auto
  note t1 = findNode_create [OF inv find]
  have c1: "content_at t ns = content (node t1 ns)" using t1(3) t1(5) [of ns] by (simp add: content_at_def)
  define g where "g = (\<lambda>d :: ('a, 'b, 'c) ns_node. d\<lparr>subscribers := hm_emplace session info (subscribers d)\<rparr>)"
  have "hm_emplace session info m \<noteq> []" for m :: "('a, 'b subscriber_info) hmap"
    by (cases m) (auto simp: hm_emplace_def split: option.splits)
  then have "hasContent (g d)" "activeChildCount (g d) = activeChildCount d" for d by (simp_all add: g_def hasContent_def)
  then obtain t3 where t3: "mutate_node t1 ns g = Some t3" "ns_inv t3"
    "\<And>q. content_at t3 q = (if q = ns then content (g (node t1 ns)) else content_at t1 q)"
    using mutate_node_add [of t1 ns g] t1 by auto
  have "content (g (node t1 ns)) = (content_at t ns)\<lparr>c_subscribers := hm_emplace session info (c_subscribers (content_at t ns))\<rparr>"
    unfolding c1 by (simp add: g_def content_def)
  then show ?thesis
    using t3 t1 unfolding addNamespaceSubscriber_def find g_def by (auto simp: Let_def fun_eq_iff)
qed

lemma unpublishNamespace_ok:
  assumes inv: "ns_inv t"
  shows "\<exists>t' res. unpublishNamespace t ns session = Some (t', res) \<and> ns_inv t' \<and>
    (if c_publisher (content_at t ns) = Some session
     then content_at t' = (content_at t)(ns := (content_at t ns)\<lparr>c_publisher := None, c_handles := []\<rparr>) \<and>
       res = Inr \<lparr>un_subscribers = subscribers_between t [] ns @ c_subscribers (content_at t ns),
                  legacyHandles = c_handles (content_at t ns)\<rparr>
     else t' = t \<and> res = Inl (if has_node t ns then NotOwner else NodeNotFound))"
proof (cases "has_node t ns")
  case False
  have "shape t" using inv by (simp add: ns_inv_def)
  from findNode_None [OF this False] show ?thesis
    using inv False by (auto simp: unpublishNamespace_def content_at_def no_content_def split: prod.splits)
next
  case True
  have shape: "shape t" using inv by (simp add: ns_inv_def)
  have c: "content_at t ns = content (node t ns)" using True by (simp add: content_at_def)
  define f where "f = (\<lambda>d :: ('a, 'b, 'c) ns_node. d\<lparr>publisherSession := None, publisherPeerID := [],
                    publishNamespaceCallback := None, draft14PubNsHandles := []\<rparr>)"
  have "hasContent (f d) \<longrightarrow> hasContent d" "activeChildCount (f d) = activeChildCount d" for d
    by (auto simp: f_def hasContent_def)
  then obtain t' where t': "mutate_node t ns f = Some t'" "ns_inv t'"
    "\<And>q. content_at t' q = (if q = ns then content (f (node t ns)) else content_at t q)"
    using mutate_node_remove [OF inv True, of f] by auto
  have "content (f (node t ns)) = (content_at t ns)\<lparr>c_publisher := None, c_handles := []\<rparr>"
    unfolding c by (simp add: f_def content_def)
  then have upd: "content_at t' = (content_at t)(ns := (content_at t ns)\<lparr>c_publisher := None, c_handles := []\<rparr>)"
    using t'(3) by (auto simp: fun_eq_iff)
  have fields: "c_publisher (content_at t ns) = publisherSession (node t ns)"
    "c_subscribers (content_at t ns) = subscribers (node t ns)" "c_handles (content_at t ns) = draft14PubNsHandles (node t ns)"
    unfolding c by (simp_all add: content_def)
  show ?thesis
    using t'(1,2) upd inv True unfolding unpublishNamespace_def findNode_Some [OF shape True] f_def fields by auto
qed

lemma unpublishTrack_ok:
  assumes inv: "ns_inv t"
  shows "\<exists>t' res. unpublishTrack t ns name = Some (t', res) \<and> ns_inv t' \<and>
    content_at t' = (content_at t)(ns := (content_at t ns)\<lparr>c_publishes := hm_erase name (c_publishes (content_at t ns))\<rparr>)"
proof (cases "has_node t ns")
  case False
  have "shape t" using inv by (simp add: ns_inv_def)
  from findNode_None [OF this False] show ?thesis
    using inv False by (auto simp: unpublishTrack_def fun_eq_iff content_at_def no_content_def)
next
  case True
  have shape: "shape t" using inv by (simp add: ns_inv_def)
  have c: "content_at t ns = content (node t ns)" using True by (simp add: content_at_def)
  define f where "f = (\<lambda>d :: ('a, 'b, 'c) ns_node. d\<lparr>publishes := hm_erase name (publishes d)\<rparr>)"
  have "hasContent (f d) \<longrightarrow> hasContent d" "activeChildCount (f d) = activeChildCount d" for d
    by (auto simp: f_def hasContent_def)
  then obtain t' where t': "mutate_node t ns f = Some t'" "ns_inv t'"
    "\<And>q. content_at t' q = (if q = ns then content (f (node t ns)) else content_at t q)"
    using mutate_node_remove [OF inv True, of f] by auto
  have "content (f (node t ns)) = (content_at t ns)\<lparr>c_publishes := hm_erase name (c_publishes (content_at t ns))\<rparr>"
    unfolding c by (simp add: f_def content_def)
  then show ?thesis
    using t' unfolding unpublishTrack_def findNode_Some [OF shape True] f_def by (auto simp: fun_eq_iff)
qed

lemma removeNamespaceSubscriber_ok:
  assumes inv: "ns_inv t"
  shows "\<exists>t' res. removeNamespaceSubscriber t ns session = Some (t', res) \<and> ns_inv t' \<and>
    content_at t' = (content_at t)(ns := (content_at t ns)\<lparr>c_subscribers := hm_erase session (c_subscribers (content_at t ns))\<rparr>)"
proof (cases "has_node t ns \<and> hm_find (c_subscribers (content_at t ns)) session \<noteq> None")
  case False
  have shape: "shape t" using inv by (simp add: ns_inv_def)
  have "hm_erase session (c_subscribers (content_at t ns)) = c_subscribers (content_at t ns)"
    using False by (auto simp: content_at_def no_content_def hm_find_None intro: delete_notin_dom)
  moreover have "\<exists>res. removeNamespaceSubscriber t ns session = Some (t, res)"
  proof (cases "has_node t ns")
    case True
    with False show ?thesis by (simp add: removeNamespaceSubscriber_def findNode_Some [OF shape True] subscribers_content)
  qed (simp add: removeNamespaceSubscriber_def findNode_None [OF shape])
  ultimately show ?thesis using inv by auto
next
  case True
  have shape: "shape t" using inv by (simp add: ns_inv_def)
  have c: "content_at t ns = content (node t ns)" using True by (simp add: content_at_def)
  define f where "f = (\<lambda>d :: ('a, 'b, 'c) ns_node. d\<lparr>subscribers := hm_erase session (subscribers d)\<rparr>)"
  have "hasContent (f d) \<longrightarrow> hasContent d" "activeChildCount (f d) = activeChildCount d" for d
    by (auto simp: f_def hasContent_def)
  then obtain t' where t': "mutate_node t ns f = Some t'" "ns_inv t'"
    "\<And>q. content_at t' q = (if q = ns then content (f (node t ns)) else content_at t q)"
    using mutate_node_remove [OF inv, of ns f] True by auto
  have "content (f (node t ns)) = (content_at t ns)\<lparr>c_subscribers := hm_erase session (c_subscribers (content_at t ns))\<rparr>"
    unfolding c by (simp add: f_def content_def)
  moreover obtain info where "hm_find (subscribers (node t ns)) session = Some info"
    using True unfolding c by (auto simp: content_def)
  ultimately show ?thesis
    using t' True unfolding removeNamespaceSubscriber_def findNode_Some [OF shape conjunct1 [OF True]] f_def
    by (auto simp: fun_eq_iff)
qed

lemma addDraft14_ok:
  assumes inv: "ns_inv t" and ns: "has_node t ns"
  shows "ns_inv (addDraft14PublishNamespaceHandle t ns session h) \<and>
    content_at (addDraft14PublishNamespaceHandle t ns session h) =
      (content_at t)(ns := (content_at t ns)\<lparr>c_handles := hm_emplace session h (c_handles (content_at t ns))\<rparr>)"
proof -
  define f where "f = (\<lambda>d :: ('a, 'b, 'c) ns_node. d\<lparr>draft14PubNsHandles := hm_emplace session h (draft14PubNsHandles d)\<rparr>)"
  have "hm_emplace session h m \<noteq> []" for m :: "('a, 'b) hmap"
    by (cases m) (auto simp: hm_emplace_def split: option.splits)
  then have keep: "shouldKeep (f d)" "activeChildCount (f d) = activeChildCount d" for d
    by (simp_all add: f_def shouldKeep_def hasContent_def)
  have "active t ns \<or> ns = []" using inv ns by (auto simp: ns_inv_def idle_def)
  then have "active_children (upd_node ns f t) r = active_children t r" for r
    using active_mem [of t ns] keep by (auto simp: active_children_upd [OF ns])
  then have "ns_inv (upd_node ns f t)"
    using inv ns keep by (auto simp: ns_inv_def shape_upd counted_def idle_upd)
  moreover have "content_at (upd_node ns f t) = (content_at t)(ns := (content_at t ns)\<lparr>c_handles := hm_emplace session h (c_handles (content_at t ns))\<rparr>)"
    using ns by (auto simp: fun_eq_iff content_at_upd [OF ns] content_at_def f_def content_def)
  ultimately show ?thesis unfolding addDraft14PublishNamespaceHandle_def f_def by simp
qed

subsection \<open>Sequences of operations\<close>

datatype ('s, 'h) ns_op =
    SetPublisher ns_path 's "'h option" string
  | UnpublishNamespace ns_path 's
  | AddPublish ns_path string 's
  | UnpublishTrack ns_path string
  | AddSubscriber ns_path 's "'h subscriber_info"
  | RemoveSubscriber ns_path 's
  | AddHandle ns_path 's 'h

text \<open>\<open>AddHandle\<close> reaches the tree only while the node is attached: the relay calls it on a node
  it kept across an await, which may have been pruned meanwhile.\<close>

fun apply_op :: "('s, 'h) ns_op \<Rightarrow> ('s, 'h, 'r) ns_tree \<Rightarrow> ('s, 'h, 'r) ns_tree option" where
  "apply_op (SetPublisher ns s cb peer) t = map_option fst (setPublisher t ns s cb peer)"
| "apply_op (UnpublishNamespace ns s) t = map_option fst (unpublishNamespace t ns s)"
| "apply_op (AddPublish ns n s) t = map_option fst (addPublish t ns n s)"
| "apply_op (UnpublishTrack ns n) t = map_option fst (unpublishTrack t ns n)"
| "apply_op (AddSubscriber ns s i) t = addNamespaceSubscriber t ns s i"
| "apply_op (RemoveSubscriber ns s) t = map_option fst (removeNamespaceSubscriber t ns s)"
| "apply_op (AddHandle ns s h) t =
     Some (if hm_find t ns = None then t else addDraft14PublishNamespaceHandle t ns s h)"

fun op_target :: "('s, 'h) ns_op \<Rightarrow> ns_path" where
  "op_target (SetPublisher ns _ _ _) = ns"
| "op_target (UnpublishNamespace ns _) = ns"
| "op_target (AddPublish ns _ _) = ns"
| "op_target (UnpublishTrack ns _) = ns"
| "op_target (AddSubscriber ns _ _) = ns"
| "op_target (RemoveSubscriber ns _) = ns"
| "op_target (AddHandle ns _ _) = ns"

text \<open>The specification: a map from namespaces to contents, and what an operation does to the
  content of its namespace. A late handle is lost when nothing is left at its namespace, and may be
  lost only then.\<close>

fun new_content :: "('s, 'h) ns_op \<Rightarrow> ('s, 'h) ns_content \<Rightarrow> ('s, 'h) ns_content" where
  "new_content (SetPublisher _ s _ _) c = c\<lparr>c_publisher := Some s\<rparr>"
| "new_content (UnpublishNamespace _ s) c =
     (if c_publisher c = Some s then c\<lparr>c_publisher := None, c_handles := []\<rparr> else c)"
| "new_content (AddPublish _ n s) c = c\<lparr>c_publishes := hm_set n s (c_publishes c)\<rparr>"
| "new_content (UnpublishTrack _ n) c = c\<lparr>c_publishes := hm_erase n (c_publishes c)\<rparr>"
| "new_content (AddSubscriber _ s i) c = c\<lparr>c_subscribers := hm_emplace s i (c_subscribers c)\<rparr>"
| "new_content (RemoveSubscriber _ s) c = c\<lparr>c_subscribers := hm_erase s (c_subscribers c)\<rparr>"
| "new_content (AddHandle _ s h) c = c\<lparr>c_handles := hm_emplace s h (c_handles c)\<rparr>"

inductive spec_run ::
  "(ns_path \<Rightarrow> ('s, 'h) ns_content) \<Rightarrow> ('s, 'h) ns_op list \<Rightarrow> (ns_path \<Rightarrow> ('s, 'h) ns_content) \<Rightarrow> bool" where
  spec_done: "spec_run m [] m"
| spec_effect: "spec_run (m(op_target op := new_content op (m (op_target op)))) ops m' \<Longrightarrow> spec_run m (op # ops) m'"
| spec_late_handle: "m ns = no_content \<Longrightarrow> spec_run m ops m' \<Longrightarrow> spec_run m (AddHandle ns s h # ops) m'"

lemma apply_op_step:
  assumes inv: "ns_inv t"
  shows "\<exists>t'. apply_op op t = Some t' \<and> ns_inv t' \<and>
    content_at t' = (if (\<exists>ns s h. op = AddHandle ns s h \<and> \<not> has_node t ns) then content_at t
      else (content_at t)(op_target op := new_content op (content_at t (op_target op))))"
proof (cases op)
  case (SetPublisher ns s cb peer) then show ?thesis using setPublisher_ok [OF inv, of ns s cb peer] by auto
next
  case (UnpublishNamespace ns s)
  then show ?thesis using unpublishNamespace_ok [OF inv, of ns s] by (cases "c_publisher (content_at t ns) = Some s") auto
next
  case (AddPublish ns n s) then show ?thesis using addPublish_ok [OF inv, of ns n s] by auto
next
  case (UnpublishTrack ns n) then show ?thesis using unpublishTrack_ok [OF inv, of ns n] by auto
next
  case (AddSubscriber ns s i) then show ?thesis using addNamespaceSubscriber_ok [OF inv, of ns s i] by auto
next
  case (RemoveSubscriber ns s) then show ?thesis using removeNamespaceSubscriber_ok [OF inv, of ns s] by auto
next
  case (AddHandle ns s h) then show ?thesis using inv addDraft14_ok [OF inv, of ns s h] by (auto simp: has_node_def)
qed

interpretation ns_store: keyed_store ns_inv content_at apply_op op_target empty_tree
proof
  show "ns_inv empty_tree"
    by (auto simp: ns_inv_def shape_def counted_def idle_def empty_tree_def has_node_def active_children_def active_def)
next
  fix t :: "('s, 'h, 'r) ns_tree" and op :: "('s, 'h) ns_op"
  assume "ns_inv t"
  then show "\<exists>t'. apply_op op t = Some t' \<and> ns_inv t' \<and> (\<forall>k. k \<noteq> op_target op \<longrightarrow> content_at t' k = content_at t k)"
    using apply_op_step [of t op] by (auto split: if_splits)
qed

lemma run_refines:
  "ns_inv t \<Longrightarrow> \<exists>t'. run_all apply_op ops t = Some t' \<and> ns_inv t' \<and> spec_run (content_at t) ops (content_at t')"
proof (induction ops arbitrary: t)
  case Nil
  then show ?case by (auto intro: spec_done)
next
  case (Cons op ops)
  obtain t1 where t1: "apply_op op t = Some t1" "ns_inv t1"
    "content_at t1 = (if (\<exists>ns s h. op = AddHandle ns s h \<and> \<not> has_node t ns) then content_at t
      else (content_at t)(op_target op := new_content op (content_at t (op_target op))))"
    using apply_op_step [OF Cons.prems, of op] by blast
  obtain t' where t': "run_all apply_op ops t1 = Some t'" "ns_inv t'" "spec_run (content_at t1) ops (content_at t')"
    using Cons.IH [OF t1(2)] by blast
  have "spec_run (content_at t) (op # ops) (content_at t')"
  proof (cases "\<exists>ns s h. op = AddHandle ns s h \<and> \<not> has_node t ns")
    case True
    then obtain ns s h where "op = AddHandle ns s h" "content_at t ns = no_content" by (auto simp: content_at_def)
    then show ?thesis using t'(3) t1(3) [unfolded if_P [OF True]] by (auto intro: spec_late_handle)
  next
    case False
    show ?thesis using t'(3) unfolding t1(3) [unfolded if_not_P [OF False]] by (rule spec_effect)
  qed
  then show ?case using t1 t' by auto
qed

subsection \<open>Looking up a publisher\<close>

text \<open>The node a prefix lookup ends at: the deepest existing node on the path, the root only for the
  empty namespace.\<close>

lemma find_prefix:
  assumes "shape t" "has_node t cur" "fst (snd (find_from False True t cur rest)) = Some p"
  shows "prefix p (cur @ rest) \<and> prefix cur p \<and> has_node t p \<and>
    (\<forall>q. prefix p q \<longrightarrow> prefix q (cur @ rest) \<longrightarrow> has_node t q \<longrightarrow> q = p)"
  using assms
proof (induction rest arbitrary: cur)
  case Nil
  then show ?case by (auto dest: prefix_order.antisym)
next
  case (Cons name rest)
  show ?case
  proof (cases "has_node t (cur @ [name])")
    case True
    then have "fst (snd (find_from False True t (cur @ [name]) rest)) = Some p"
      using Cons.prems by (auto simp: has_node_def Let_def split_beta)
    from Cons.IH [OF Cons.prems(1) True this] show ?thesis
      using append_prefixD [of cur "[name]" p] by simp
  next
    case False
    then have p: "p = cur" using Cons.prems by (auto simp: has_node_def Let_def split: if_splits)
    have "q = cur" if q: "prefix cur q" "prefix q (cur @ name # rest)" "has_node t q" for q
    proof (rule ccontr)
      assume "q \<noteq> cur"
      then obtain k where "has_node t (cur @ [k])" "prefix (cur @ [k]) q"
        using child_on_path [OF Cons.prems(1) q(3,1)] by blast
      moreover from this have "prefix (cur @ [k]) (cur @ name # rest)" using q(2) prefix_order.trans by blast
      ultimately show False using False by simp
    qed
    then show ?thesis using p Cons.prems(2) by simp
  qed
qed

subsection \<open>Properties\<close>

text \<open>C7: starting from the empty tree, no sequence of announcements, publications, subscriptions and
  their removals ever fails an XCHECK; the counters and the pruning keep the tree consistent; and the
  content found at each namespace is what the same sequence leaves in a plain map from namespaces to
  contents, so that pruning never loses anything.\<close>

theorem namespace_tree_refines_map:
  fixes ops :: "('s, 'h) ns_op list"
  shows "\<exists>t :: ('s, 'h, 'r) ns_tree.
    run_all apply_op ops empty_tree = Some t \<and> ns_inv t \<and> spec_run (\<lambda>_. no_content) ops (content_at t)"
proof -
  have "content_at (empty_tree :: ('s, 'h, 'r) ns_tree) = (\<lambda>_. no_content)"
    by (auto simp: fun_eq_iff content_at_def empty_tree_def has_node_def node_def new_node_def content_def no_content_def)
  then show ?thesis using run_refines [OF ns_store.init_inv [where ?'c = 'r], of ops] by simp
qed

text \<open>C8: an operation sequence changes nothing at the namespaces it does not name.\<close>

theorem namespace_tree_frame:
  assumes "run_all apply_op before empty_tree = Some t" "run_all apply_op ops t = Some t'" "ns \<notin> op_target ` set ops"
  shows "content_at t' ns = content_at t ns"
proof -
  have "ns_inv t" using ns_store.run_inv assms(1) by blast
  then show ?thesis using ns_store.run_frame assms(2,3) by blast
qed

abbreviation demo_info :: "unit subscriber_info" where
  "demo_info \<equiv> \<lparr>si_forward = True, si_options = BOTH, namespacePublishHandle = None, trackNamespacePrefix = [],
     si_trackFilter = None\<rparr>"

definition demo_ops :: "(string, unit) ns_op list" where
  "demo_ops = [SetPublisher [''a''] ''p'' None [], AddSubscriber [''a'', ''b''] ''s'' demo_info]"

definition demo_tree :: "(string, unit, unit) ns_tree" where
  "demo_tree = the (run_all apply_op demo_ops empty_tree)"

lemma demo_tree_run: "run_all apply_op demo_ops empty_tree = Some demo_tree"
proof -
  obtain t :: "(string, unit, unit) ns_tree" where "run_all apply_op demo_ops empty_tree = Some t"
    using ns_store.run_ok [OF ns_store.init_inv, of demo_ops] by auto
  then show ?thesis by (simp add: demo_tree_def)
qed

theorem namespace_tree_frame_witness:
  "run_all apply_op demo_ops empty_tree = Some demo_tree \<and>
   run_all apply_op [AddPublish [''a'', ''c''] ''video'' ''q''] demo_tree \<noteq> None \<and>
   content_at (the (run_all apply_op [AddPublish [''a'', ''c''] ''video'' ''q''] demo_tree)) [''a'', ''b''] =
     content_at demo_tree [''a'', ''b'']"
proof -
  have inv: "ns_inv demo_tree" using ns_store.run_inv demo_tree_run by blast
  obtain t' where t': "run_all apply_op [AddPublish [''a'', ''c''] ''video'' ''q''] demo_tree = Some t'"
    using ns_store.run_ok [OF inv, of "[AddPublish [''a'', ''c''] ''video'' ''q'']"] by auto
  have "content_at t' [''a'', ''b''] = content_at demo_tree [''a'', ''b'']"
    by (rule namespace_tree_frame [OF demo_tree_run t']) simp
  then show ?thesis using t' demo_tree_run by simp
qed

text \<open>announcing a namespace reports to the relay exactly the subscribers of the namespace and of
  all its prefixes, and the publisher it replaces.\<close>

theorem setPublisher_subscribers:
  assumes "run_all apply_op before empty_tree = Some t" "setPublisher t ns session callback peer = Some (t', res)"
  shows "set (sp_subscribers res) = (\<Union>q\<in>{q. prefix q ns}. set (c_subscribers (content_at t q))) \<and>
    replacedSession res = c_publisher (content_at t ns) \<and> c_publisher (content_at t' ns) = Some session"
proof -
  have "ns_inv t" using ns_store.run_inv assms(1) by blast
  note ok = setPublisher_ok [OF this, of ns session callback peer]
  have "{q. prefix q ns} = (\<lambda>i. take i ns) ` {0..<length ns} \<union> {ns}"
  proof (intro equalityI subsetI)
    fix q assume "q \<in> {q. prefix q ns}"
    then have q: "q = take (length q) ns" "length q \<le> length ns" by (auto simp: prefix_def)
    show "q \<in> (\<lambda>i. take i ns) ` {0..<length ns} \<union> {ns}"
    proof (cases "length q = length ns")
      case False
      then have "length q \<in> {0..<length ns}" using q(2) by simp
      with q(1) show ?thesis by (metis UnI1 imageI)
    qed (use q in simp)
  qed (auto simp: take_is_prefix)
  then show ?thesis using ok assms(2) by (auto simp: subscribers_between_def)
qed

theorem setPublisher_subscribers_witness:
  "\<exists>t' res. setPublisher demo_tree [''a'', ''b'', ''c''] ''z'' None [] = Some (t', res) \<and>
     replacedSession res = c_publisher (content_at demo_tree [''a'', ''b'', ''c''])"
proof -
  have inv: "ns_inv demo_tree" using ns_store.run_inv demo_tree_run by blast
  obtain t' res where "setPublisher demo_tree [''a'', ''b'', ''c''] ''z'' None [] = Some (t', res)"
    using setPublisher_ok [OF inv] by blast
  from setPublisher_subscribers [OF demo_tree_run this] this show ?thesis by blast
qed






end
