(* ===== verification/Property_Ranking.thy ===== *)
theory Property_Ranking
  imports Prelude
begin

section \<open>Ranking tracks by a property (src/src/relay/PropertyRanking.h, PropertyRanking.cpp)\<close>

text \<open>
  Full track names are the type \<open>'f\<close>, sessions \<open>'s\<close> (a shared_ptr and the raw pointer it holds
  are the same identity). The std::map ordered by \<open>std::greater\<close> is the list of its entries in
  iteration order; an iterator into it is the key it points to. uint64_t values are \<open>nat\<close>, with
  \<open>add64\<close> where the code adds and UINT64_MAX written out. F14FastMap and F14FastSet are association
  lists and lists; the order in which the code visits a hash set is unspecified, and the model
  visits \<open>nowSelected\<close> in rank order. The callbacks are the list of events an operation returns,
  in the order of the calls. steady_clock time points are \<open>nat\<close> milliseconds with 0 the epoch;
  the clock and \<open>getLastActivity_\<close> are arguments. The debug flag \<open>iteratingSessions_\<close> is not
  modelled: callbacks do not re-enter.
\<close>

record rank_key =
  key_value :: nat
  arrivalSeq :: nat

definition rank_greater :: "rank_key \<Rightarrow> rank_key \<Rightarrow> bool" where
  "rank_greater a b \<longleftrightarrow>
     (if key_value a \<noteq> key_value b then key_value a > key_value b else arrivalSeq a < arrivalSeq b)"

definition rank_geq :: "rank_key \<Rightarrow> rank_key \<Rightarrow> bool" where
  "rank_geq a b \<longleftrightarrow> rank_greater a b \<or> a = b"

record ('f, 's) ranked_entry =
  ftn :: 'f
  publisherRaw :: 's

record rank_index =
  rankIter :: rank_key
  cachedRank :: nat

datatype track_state = Selected | Deselected

record 'f session_info =
  forward :: bool
  waterlineKey :: "rank_key option"
  selectedTracks :: "'f list"

record ('f, 's) topn_group =
  grp_maxSelected :: nat
  sessions :: "('s, 'f session_info) hmap"
  trackStates :: "('f, track_state) hmap"
  deselectedQueue :: "'f list"

record ('f, 's) ranking =
  maxDeselected :: nat
  idleTimeout :: nat
  sweepThrottle :: nat
  lastSweepTime :: "nat option"
  rankedTracks :: "(rank_key \<times> ('f, 's) ranked_entry) list"
  trackIndexByName :: "('f, rank_index) hmap"
  topNGroups :: "(nat, ('f, 's) topn_group) hmap"
  publisherTrackCount :: "('s, nat) hmap"
  nextSeq :: nat
  selectionThreshold :: nat
  publisherExtendedThreshold :: nat
  sortedThresholds :: "nat list"
  rankCacheValid :: bool

datatype ('f, 's) rank_event =
    OnSelected 'f 's bool
  | OnBatchSelected 'f "('s \<times> bool) list"
  | OnEvicted 'f 's

definition uint64_max :: nat where
  "uint64_max = 2 ^ 64 - 1"

definition new_ranking :: "nat \<Rightarrow> nat \<Rightarrow> nat \<Rightarrow> ('f, 's) ranking" where
  "new_ranking maxDes idle throttle =
     \<lparr>maxDeselected = maxDes, idleTimeout = idle, sweepThrottle = throttle, lastSweepTime = None,
      rankedTracks = [], trackIndexByName = [], topNGroups = [], publisherTrackCount = [], nextSeq = 0,
      selectionThreshold = 0, publisherExtendedThreshold = 0, sortedThresholds = [], rankCacheValid = False\<rparr>"

subsection \<open>The ordered map\<close>

text \<open>\<open>emplace\<close> in the map ordered by \<open>std::greater\<close>: nothing happens when the key is present.\<close>

fun ranked_emplace ::
  "rank_key \<Rightarrow> 'e \<Rightarrow> (rank_key \<times> 'e) list \<Rightarrow> (rank_key \<times> 'e) list" where
  "ranked_emplace k e [] = [(k, e)]"
| "ranked_emplace k e ((k', e') # xs) =
     (if rank_greater k k' then (k, e) # (k', e') # xs
      else if k = k' then (k', e') # xs
      else (k', e') # ranked_emplace k e xs)"

definition ranked_erase :: "rank_key \<Rightarrow> (rank_key \<times> 'e) list \<Rightarrow> (rank_key \<times> 'e) list" where
  "ranked_erase k xs = filter (\<lambda>(k', _). k' \<noteq> k) xs"

text \<open>The rank cache: the position of every entry, written into the index.\<close>

fun rebuild_from :: "nat \<Rightarrow> (rank_key \<times> ('f, 's) ranked_entry) list \<Rightarrow> ('f, rank_index) hmap \<Rightarrow> ('f, rank_index) hmap" where
  "rebuild_from rank [] index = index"
| "rebuild_from rank ((_, entry) # xs) index =
     rebuild_from (Suc rank) xs
       (case hm_find index (ftn entry) of
          Some i \<Rightarrow> hm_set (ftn entry) (i\<lparr>cachedRank := rank\<rparr>) index
        | None \<Rightarrow> index)"

definition rebuildRankCacheIfNeeded :: "('f, 's) ranking \<Rightarrow> ('f, 's) ranking" where
  "rebuildRankCacheIfNeeded st =
     (if rankCacheValid st then st
      else st\<lparr>trackIndexByName := rebuild_from 0 (rankedTracks st) (trackIndexByName st), rankCacheValid := True\<rparr>)"

definition getCachedRank :: "('f, 's) ranking \<Rightarrow> 'f \<Rightarrow> ('f, 's) ranking \<times> nat" where
  "getCachedRank st f =
     (let st' = rebuildRankCacheIfNeeded st
      in (st', case hm_find (trackIndexByName st') f of Some i \<Rightarrow> cachedRank i | None \<Rightarrow> uint64_max))"

definition getRank :: "('f, 's) ranking \<Rightarrow> rank_key \<Rightarrow> ('f, 's) ranking \<times> nat" where
  "getRank st key =
     (case map_of (rankedTracks st) key of
        None \<Rightarrow> (st, uint64_max)
      | Some entry \<Rightarrow>
          (let st' = rebuildRankCacheIfNeeded st
           in (st', cachedRank (the (hm_find (trackIndexByName st') (ftn entry))))))"

subsection \<open>Publisher-subscribers\<close>

definition isPublisher :: "('f, 's) ranking \<Rightarrow> 's \<Rightarrow> bool" where
  "isPublisher st s \<longleftrightarrow> hm_find (publisherTrackCount st) s \<noteq> None"

fun waterline_scan :: "'s \<Rightarrow> nat \<Rightarrow> nat \<Rightarrow> (rank_key \<times> ('f, 's) ranked_entry) list \<Rightarrow> rank_key option" where
  "waterline_scan s n c [] = None"
| "waterline_scan s n c ((key, entry) # xs) =
     (if publisherRaw entry \<noteq> s
      then if Suc c = n then Some key else waterline_scan s n (Suc c) xs
      else waterline_scan s n c xs)"

definition computeWaterlineKey :: "('f, 's) ranking \<Rightarrow> 's \<Rightarrow> nat \<Rightarrow> rank_key option" where
  "computeWaterlineKey st s n = waterline_scan s n 0 (rankedTracks st)"

definition reconcilePublisherSelection ::
  "('f, 's) ranking \<Rightarrow> 'f session_info \<Rightarrow> nat \<Rightarrow> 's \<Rightarrow> 'f session_info \<times> ('f, 's) rank_event list" where
  "reconcilePublisherSelection st info n s =
     (let wl = computeWaterlineKey st s n;
          nowSelected = map (ftn \<circ> snd)
            (filter (\<lambda>(key, entry). publisherRaw entry \<noteq> s \<and> (wl = None \<or> rank_geq key (the wl))) (rankedTracks st));
          old = selectedTracks info
      in (info\<lparr>waterlineKey := wl, selectedTracks := nowSelected\<rparr>,
          map (\<lambda>f. OnEvicted f s) (filter (\<lambda>f. f \<notin> set nowSelected) old) @
          map (\<lambda>f. OnSelected f s (forward info)) (filter (\<lambda>f. f \<notin> set old) nowSelected)))"

text \<open>A loop over the entries of a hash map that updates each and collects the events.\<close>

fun each :: "('k \<Rightarrow> 'v \<Rightarrow> 'v \<times> 'e list) \<Rightarrow> ('k, 'v) hmap \<Rightarrow> ('k, 'v) hmap \<times> 'e list" where
  "each f [] = ([], [])"
| "each f ((k, v) # m) =
     (let (v', es) = f k v; (m', es') = each f m in ((k, v') # m', es @ es'))"

definition viewers :: "('f, 's) ranking \<Rightarrow> ('s, 'f session_info) hmap \<Rightarrow> ('s \<times> bool) list" where
  "viewers st m = map (\<lambda>(s, info). (s, forward info)) (filter (\<lambda>(s, _). \<not> isPublisher st s) m)"

definition notifyTrackSelected ::
  "('f, 's) ranking \<Rightarrow> 'f \<Rightarrow> ('f, 's) topn_group \<Rightarrow> ('f, 's) topn_group \<times> ('f, 's) rank_event list" where
  "notifyTrackSelected st f g =
     (let (m, es) = each (\<lambda>s info. if isPublisher st s then reconcilePublisherSelection st info (grp_maxSelected g) s
                                   else (info, [])) (sessions g);
          viewerBatch = viewers st (sessions g)
      in (g\<lparr>sessions := m\<rparr>, es @ (if viewerBatch \<noteq> [] then [OnBatchSelected f viewerBatch] else [])))"

subsection \<open>The deselected queue\<close>

function trimDeselectedQueue ::
  "('f, 's) ranking \<Rightarrow> ('f, 's) topn_group \<Rightarrow> ('f, 's) topn_group \<times> ('f, 's) rank_event list" where
  "trimDeselectedQueue st g =
     (if length (deselectedQueue g) > maxDeselected st
      then let evicted = hd (deselectedQueue g);
               (g', es) = trimDeselectedQueue st
                 (g\<lparr>deselectedQueue := tl (deselectedQueue g), trackStates := hm_erase evicted (trackStates g)\<rparr>)
           in (g', map (\<lambda>(s, _). OnEvicted evicted s) (sessions g) @ es)
      else (g, []))"
  by pat_completeness auto
termination
  by (relation "measure (\<lambda>(st, g). length (deselectedQueue g))") auto

declare trimDeselectedQueue.simps [simp del]

definition removeFromDeselectedQueue :: "'f \<Rightarrow> ('f, 's) topn_group \<Rightarrow> ('f, 's) topn_group" where
  "removeFromDeselectedQueue f g = g\<lparr>deselectedQueue := filter (\<lambda>x. x \<noteq> f) (deselectedQueue g)\<rparr>"

definition demoteTrack ::
  "('f, 's) ranking \<Rightarrow> 'f \<Rightarrow> ('f, 's) topn_group \<Rightarrow> ('f, 's) topn_group \<times> ('f, 's) rank_event list" where
  "demoteTrack st f g =
     trimDeselectedQueue st
       (g\<lparr>trackStates := hm_set f Deselected (trackStates g), deselectedQueue := deselectedQueue g @ [f]\<rparr>)"

definition demoteTrackAtRank ::
  "('f, 's) ranking \<Rightarrow> nat \<Rightarrow> ('f, 's) topn_group \<Rightarrow> ('f, 's) topn_group \<times> ('f, 's) rank_event list" where
  "demoteTrackAtRank st n g =
     (if n < length (rankedTracks st) \<and>
         hm_find (trackStates g) (ftn (snd (rankedTracks st ! n))) = Some Selected
      then demoteTrack st (ftn (snd (rankedTracks st ! n))) g
      else (g, []))"

text \<open>Mark a track selected, take it out of the queue and notify.\<close>

definition promote_and_notify ::
  "('f, 's) ranking \<Rightarrow> 'f \<Rightarrow> ('f, 's) topn_group \<Rightarrow> ('f, 's) topn_group \<times> ('f, 's) rank_event list" where
  "promote_and_notify st f g =
     notifyTrackSelected st f
       (removeFromDeselectedQueue f (g\<lparr>trackStates := hm_set f Selected (trackStates g)\<rparr>))"

definition promoteNextAvailableTrack ::
  "('f, 's) ranking \<Rightarrow> 'f \<Rightarrow> ('f, 's) topn_group \<Rightarrow> ('f, 's) topn_group \<times> ('f, 's) rank_event list" where
  "promoteNextAvailableTrack st excludeFtn g =
     (case find (\<lambda>(_, entry). ftn entry \<noteq> excludeFtn \<and> hm_find (trackStates g) (ftn entry) \<noteq> Some Selected)
             (rankedTracks st) of
        None \<Rightarrow> (g, [])
      | Some (_, entry) \<Rightarrow> promote_and_notify st (ftn entry) g)"

subsection \<open>Thresholds\<close>

definition updateSelectionThreshold :: "('f, 's) ranking \<Rightarrow> ('f, 's) ranking" where
  "updateSelectionThreshold st =
     (let ns = hm_keys (topNGroups st)
      in st\<lparr>sortedThresholds := sort ns, selectionThreshold := add64 (fold max ns 0) (maxDeselected st)\<rparr>)"

text \<open>\<open>max(start, N + selfTrackCount)\<close> over all publisher-subscribers.\<close>

definition extended_window :: "('f, 's) ranking \<Rightarrow> nat \<Rightarrow> nat" where
  "extended_window st start =
     fold (\<lambda>(n, g) acc. fold (\<lambda>(s, _) acc. case hm_find (publisherTrackCount st) s of
                                     Some c \<Rightarrow> max acc (add64 n c) | None \<Rightarrow> acc) (sessions g) acc)
       (topNGroups st) start"

definition updatePublisherExtendedThreshold :: "('f, 's) ranking \<Rightarrow> ('f, 's) ranking" where
  "updatePublisherExtendedThreshold st =
     st\<lparr>publisherExtendedThreshold := add64 (extended_window st 0) (maxDeselected st)\<rparr>"

definition crossesThreshold :: "('f, 's) ranking \<Rightarrow> nat \<Rightarrow> nat \<Rightarrow> bool" where
  "crossesThreshold st oldRank newRank =
     (if topNGroups st = [] then False
      else let effective = max (selectionThreshold st) (publisherExtendedThreshold st);
               minRank = min oldRank newRank; maxRank = max oldRank newRank
      in if oldRank \<ge> effective \<and> newRank \<ge> effective then False
      else if (oldRank < selectionThreshold st) \<noteq> (newRank < selectionThreshold st) then True
      else if (case find (\<lambda>x. x > minRank) (sortedThresholds st) of Some x \<Rightarrow> x \<le> maxRank | None \<Rightarrow> False) then True
      else if publisherTrackCount st \<noteq> []
      then (let maxExtended = extended_window st (fold max (hm_keys (topNGroups st)) 0)
            in minRank < maxExtended \<or> maxRank < maxExtended)
      else False)"

subsection \<open>Groups\<close>

definition new_group :: "('f, 's) ranking \<Rightarrow> nat \<Rightarrow> ('f, 's) topn_group" where
  "new_group st n =
     \<lparr>grp_maxSelected = n, sessions = [],
      trackStates = fold (\<lambda>(_, entry). hm_set (ftn entry) Selected) (take n (rankedTracks st)) [],
      deselectedQueue = []\<rparr>"

definition getOrCreateTopNGroup :: "('f, 's) ranking \<Rightarrow> nat \<Rightarrow> ('f, 's) ranking" where
  "getOrCreateTopNGroup st n =
     (if hm_find (topNGroups st) n \<noteq> None then st
      else updateSelectionThreshold (st\<lparr>topNGroups := hm_set n (new_group st n) (topNGroups st)\<rparr>))"

definition upd_group ::
  "nat \<Rightarrow> (('f, 's) topn_group \<Rightarrow> ('f, 's) topn_group) \<Rightarrow> ('f, 's) ranking \<Rightarrow> ('f, 's) ranking" where
  "upd_group n f st = st\<lparr>topNGroups := hm_set n (f (the (hm_find (topNGroups st) n))) (topNGroups st)\<rparr>"

definition addSessionToTopNGroup ::
  "('f, 's) ranking \<Rightarrow> nat \<Rightarrow> 's \<Rightarrow> bool \<Rightarrow> ('f, 's) ranking \<times> ('f, 's) rank_event list" where
  "addSessionToTopNGroup st n s fwd =
     (let info = \<lparr>forward = fwd, waterlineKey = None, selectedTracks = []\<rparr>;
          st1 = upd_group n (\<lambda>g. g\<lparr>sessions := hm_set s info (sessions g)\<rparr>) (getOrCreateTopNGroup st n)
      in if isPublisher st1 s
         then let st2 = updatePublisherExtendedThreshold st1;
                  (info', es) = reconcilePublisherSelection st2 info n s
              in (upd_group n (\<lambda>g. g\<lparr>sessions := hm_set s info' (sessions g)\<rparr>) st2, es)
         else (st1, map (\<lambda>(_, entry). OnSelected (ftn entry) s fwd) (take n (rankedTracks st1))))"

definition removeTopNGroup :: "('f, 's) ranking \<Rightarrow> nat \<Rightarrow> ('f, 's) ranking" where
  "removeTopNGroup st n = updateSelectionThreshold (st\<lparr>topNGroups := hm_erase n (topNGroups st)\<rparr>)"

definition removeSessionFromTopNGroup :: "('f, 's) ranking \<Rightarrow> nat \<Rightarrow> 's \<Rightarrow> ('f, 's) ranking" where
  "removeSessionFromTopNGroup st n s =
     (case hm_find (topNGroups st) n of
        None \<Rightarrow> st
      | Some g \<Rightarrow>
          (let st1 = upd_group n (\<lambda>g. g\<lparr>sessions := hm_erase s (sessions g)\<rparr>) st;
               st2 = (if hm_erase s (sessions g) = [] then removeTopNGroup st1 n else st1)
           in if isPublisher st s then updatePublisherExtendedThreshold st2 else st2))"

definition updateSessionForward :: "('f, 's) ranking \<Rightarrow> nat \<Rightarrow> 's \<Rightarrow> bool \<Rightarrow> ('f, 's) ranking" where
  "updateSessionForward st n s fwd =
     (case hm_find (topNGroups st) n of
        None \<Rightarrow> st
      | Some g \<Rightarrow>
          (case hm_find (sessions g) s of
             None \<Rightarrow> st
           | Some info \<Rightarrow>
               upd_group n (\<lambda>g. g\<lparr>sessions := hm_set s (info\<lparr>forward := fwd\<rparr>) (sessions g)\<rparr>) st))"

subsection \<open>Registering, updating and removing tracks\<close>

text \<open>Run \<open>f\<close> on every group.\<close>

definition each_group ::
  "(nat \<Rightarrow> ('f, 's) topn_group \<Rightarrow> ('f, 's) topn_group \<times> ('f, 's) rank_event list) \<Rightarrow> ('f, 's) ranking
   \<Rightarrow> ('f, 's) ranking \<times> ('f, 's) rank_event list" where
  "each_group f st = (let (gs, es) = each f (topNGroups st) in (st\<lparr>topNGroups := gs\<rparr>, es))"

definition and_then ::
  "'a \<times> 'e list \<Rightarrow> ('a \<Rightarrow> 'a \<times> 'e list) \<Rightarrow> 'a \<times> 'e list" where
  "and_then r f = (let (a, es) = r; (a', es') = f a in (a', es @ es'))"

definition reconcilePublisherInAllGroups ::
  "('f, 's) ranking \<Rightarrow> 's \<Rightarrow> ('f, 's) ranking \<times> ('f, 's) rank_event list" where
  "reconcilePublisherInAllGroups st s =
     each_group (\<lambda>n g. case hm_find (sessions g) s of
         None \<Rightarrow> (g, [])
       | Some info \<Rightarrow>
           (let wasPublisher = selectedTracks info \<noteq> [] \<or> waterlineKey info \<noteq> None;
                info1 = (if wasPublisher then info
                         else info\<lparr>selectedTracks := map (ftn \<circ> snd) (take n (rankedTracks st))\<rparr>);
                (info2, es) = reconcilePublisherSelection st info1 n s
            in (g\<lparr>sessions := hm_set s info2 (sessions g)\<rparr>, es))) st"

definition registerTrack ::
  "('f, 's) ranking \<Rightarrow> 'f \<Rightarrow> nat option \<Rightarrow> 's \<Rightarrow> ('f, 's) ranking \<times> ('f, 's) rank_event list" where
  "registerTrack st f initial publisher =
     (if hm_find (trackIndexByName st) f \<noteq> None then (st, [])
      else
        let key = \<lparr>key_value = value_or initial 0, arrivalSeq = nextSeq st\<rparr>;
            st1 = st\<lparr>nextSeq := add64 (nextSeq st) 1,
                     publisherTrackCount := hm_at publisher 0 (\<lambda>c. add64 c 1) (publisherTrackCount st)\<rparr>;
            st2 = updatePublisherExtendedThreshold st1;
            st3 = st2\<lparr>rankedTracks := ranked_emplace key \<lparr>ftn = f, publisherRaw = publisher\<rparr> (rankedTracks st2),
                      trackIndexByName := hm_set f \<lparr>rankIter = key, cachedRank = uint64_max\<rparr> (trackIndexByName st2),
                      rankCacheValid := False\<rparr>;
            (st4, rank) = getCachedRank st3 f
        in and_then (reconcilePublisherInAllGroups st4 publisher)
             (\<lambda>st5. each_group (\<lambda>n g.
                if rank < n
                then and_then (notifyTrackSelected st5 f (g\<lparr>trackStates := hm_set f Selected (trackStates g)\<rparr>))
                       (demoteTrackAtRank st5 n)
                else (let (m, es) = each (\<lambda>s info. if isPublisher st5 s then reconcilePublisherSelection st5 info n s
                                                    else (info, [])) (sessions g)
                      in (g\<lparr>sessions := m\<rparr>, es))) st5))"

definition recompute_group ::
  "('f, 's) ranking \<Rightarrow> 'f \<Rightarrow> nat \<Rightarrow> nat \<Rightarrow> nat \<Rightarrow> ('f, 's) topn_group
   \<Rightarrow> ('f, 's) topn_group \<times> ('f, 's) rank_event list" where
  "recompute_group st f oldRank newRank n g =
     (let wasInTopN = oldRank < n; nowInTopN = newRank < n;
          ftnPublisher = map_option (\<lambda>i. publisherRaw (the (map_of (rankedTracks st) (rankIter i))))
            (hm_find (trackIndexByName st) f);
          shared = (if wasInTopN \<noteq> nowInTopN
                    then if nowInTopN
                         then (removeFromDeselectedQueue f (g\<lparr>trackStates := hm_set f Selected (trackStates g)\<rparr>), [])
                         else demoteTrack st f g
                    else (g, []))
      in and_then (and_then (and_then shared
           (\<lambda>g1. let (m, es) = each (\<lambda>s info.
                       if isPublisher st s \<and> Some s \<noteq> ftnPublisher then reconcilePublisherSelection st info n s
                       else (info, [])) (sessions g1);
                     viewerBatch = (if \<not> wasInTopN \<and> nowInTopN then viewers st (sessions g1) else [])
                 in (g1\<lparr>sessions := m\<rparr>, es @ (if viewerBatch \<noteq> [] then [OnBatchSelected f viewerBatch] else []))))
           (\<lambda>g2. if \<not> wasInTopN \<and> nowInTopN then demoteTrackAtRank st n g2 else (g2, [])))
           (\<lambda>g3. if wasInTopN \<and> \<not> nowInTopN \<and> n - 1 < length (rankedTracks st)
                 then let f' = ftn (snd (rankedTracks st ! (n - 1)))
                      in if hm_find (trackStates g3) f' \<noteq> Some Selected then promote_and_notify st f' g3 else (g3, [])
                 else (g3, [])))"

definition recomputeTopNGroups ::
  "('f, 's) ranking \<Rightarrow> 'f \<Rightarrow> nat \<Rightarrow> nat \<Rightarrow> ('f, 's) ranking \<times> ('f, 's) rank_event list" where
  "recomputeTopNGroups st f oldRank newRank = each_group (recompute_group st f oldRank newRank) st"

text \<open>The sweep of one group: its selected tracks, taken before any of them is deselected.\<close>

fun sweep_tracks ::
  "('f, 's) ranking \<Rightarrow> nat \<Rightarrow> ('f \<Rightarrow> nat) \<Rightarrow> 'f list \<Rightarrow> ('f, 's) topn_group
   \<Rightarrow> ('f, 's) topn_group \<times> ('f, 's) rank_event list" where
  "sweep_tracks st now getLastActivity [] g = (g, [])"
| "sweep_tracks st now getLastActivity (f # fs) g =
     (let lastActivity = getLastActivity f; neverPublished = (lastActivity = 0)
      in if \<not> neverPublished \<and> now - lastActivity \<le> idleTimeout st
         then sweep_tracks st now getLastActivity fs g
         else and_then (and_then (demoteTrack st f g) (promoteNextAvailableTrack st f))
                (sweep_tracks st now getLastActivity fs))"

definition sweepIdle ::
  "('f, 's) ranking \<Rightarrow> nat \<Rightarrow> ('f \<Rightarrow> nat) \<Rightarrow> ('f, 's) ranking \<times> ('f, 's) rank_event list" where
  "sweepIdle st now getLastActivity =
     (if idleTimeout st = 0 then (st, [])
      else if sweepThrottle st > 0 \<and>
              (case lastSweepTime st of Some t \<Rightarrow> now - t < sweepThrottle st | None \<Rightarrow> False)
      then (st, [])
      else each_group (\<lambda>n g. sweep_tracks st now getLastActivity
                               (map fst (filter (\<lambda>(_, s). s = Selected) (trackStates g))) g)
             (st\<lparr>lastSweepTime := Some now\<rparr>))"

definition updateSortValue ::
  "('f, 's) ranking \<Rightarrow> 'f \<Rightarrow> nat \<Rightarrow> nat \<Rightarrow> ('f \<Rightarrow> nat) \<Rightarrow> ('f, 's) ranking \<times> ('f, 's) rank_event list" where
  "updateSortValue st f val now getLastActivity =
     (case hm_find (trackIndexByName st) f of
        None \<Rightarrow> (st, [])
      | Some i \<Rightarrow>
          let oldKey = rankIter i
          in if key_value oldKey = val then (st, [])
             else let newKey = \<lparr>key_value = val, arrivalSeq = arrivalSeq oldKey\<rparr>;
                      (st1, oldRank) = getCachedRank st f;
                      entry = the (map_of (rankedTracks st1) oldKey);
                      st2 = st1\<lparr>rankedTracks := ranked_emplace newKey entry (ranked_erase oldKey (rankedTracks st1)),
                                trackIndexByName := hm_set f (the (hm_find (trackIndexByName st1) f)\<lparr>rankIter := newKey\<rparr>)
                                  (trackIndexByName st1),
                                rankCacheValid := False\<rparr>;
                      (st3, newRank) = getCachedRank st2 f
                  in if \<not> crossesThreshold st3 oldRank newRank then (st3, [])
                     else and_then (recomputeTopNGroups st3 f oldRank newRank)
                            (\<lambda>st4. sweepIdle st4 now getLastActivity))"

definition remove_from_group ::
  "('f, 's) ranking \<Rightarrow> 'f \<Rightarrow> ('f, 's) topn_group \<Rightarrow> ('f, 's) topn_group \<times> ('f, 's) rank_event list" where
  "remove_from_group st f g =
     (case hm_find (trackStates g) f of
        None \<Rightarrow> (g, [])
      | Some state \<Rightarrow>
          (let g1 = removeFromDeselectedQueue f (g\<lparr>trackStates := hm_erase f (trackStates g)\<rparr>)
           in if state = Selected
              then (case deselectedQueue g1 of
                      promoted # rest \<Rightarrow>
                        notifyTrackSelected st promoted
                          (g1\<lparr>deselectedQueue := rest, trackStates := hm_set promoted Selected (trackStates g1)\<rparr>)
                    | [] \<Rightarrow> promoteNextAvailableTrack st f g1)
              else (g1, [])))"

definition removeTrack :: "('f, 's) ranking \<Rightarrow> 'f \<Rightarrow> ('f, 's) ranking \<times> ('f, 's) rank_event list" where
  "removeTrack st f =
     (case hm_find (trackIndexByName st) f of
        None \<Rightarrow> (st, [])
      | Some i \<Rightarrow>
          let (st1, oldRank) = getCachedRank st f;
              publisher = publisherRaw (the (map_of (rankedTracks st1) (rankIter i)));
              st2 = (case hm_find (publisherTrackCount st1) publisher of
                       None \<Rightarrow> st1
                     | Some c \<Rightarrow>
                         updatePublisherExtendedThreshold
                           (st1\<lparr>publisherTrackCount :=
                             (if sub64 c 1 = 0 then hm_erase publisher (publisherTrackCount st1)
                              else hm_set publisher (sub64 c 1) (publisherTrackCount st1))\<rparr>));
              st3 = st2\<lparr>rankedTracks := ranked_erase (rankIter i) (rankedTracks st2),
                        trackIndexByName := hm_erase f (trackIndexByName st2), rankCacheValid := False\<rparr>
          in each_group (\<lambda>_. remove_from_group st3 f) st3)"

subsection \<open>Lists of names in rank order\<close>

definition insert_at :: "nat \<Rightarrow> 'a \<Rightarrow> 'a list \<Rightarrow> 'a list" where
  "insert_at r x xs = take r xs @ x # drop r xs"

lemma insert_at_set: "set (insert_at r x xs) = insert x (set xs)"
  unfolding insert_at_def by (metis Un_insert_right append_take_drop_id list.simps(15) set_append)

lemma insert_at_length [simp]: "length (insert_at r x xs) = Suc (length xs)"
  by (simp add: insert_at_def)

lemma take_insert_at_low: "n \<le> r \<Longrightarrow> r \<le> length xs \<Longrightarrow> take n (insert_at r x xs) = take n xs"
  by (simp add: insert_at_def min_absorb1)

lemma take_insert_at_high:
  assumes "r \<le> n" "r \<le> length xs"
  shows "set (take (Suc n) (insert_at r x xs)) = insert x (set (take n xs))"
proof -
  have "take (Suc n) (insert_at r x xs) = take r xs @ x # take (n - r) (drop r xs)"
    using assms by (simp add: insert_at_def Suc_diff_le)
  moreover have "take n xs = take r xs @ take (n - r) (drop r xs)"
    using assms by (metis le_add_diff_inverse take_add)
  ultimately show ?thesis by simp
qed

lemma nth_insert_at: "r \<le> length xs \<Longrightarrow> insert_at r x xs ! r = x"
  by (simp add: insert_at_def nth_append)

lemma take_Suc_minus:
  "distinct ys \<Longrightarrow> n < length ys \<Longrightarrow> set (take (Suc n) ys) - {ys ! n} = set (take n ys)"
  using distinct_take [of ys "Suc n"] by (auto simp: take_Suc_conv_app_nth)

text \<open>Taking one element out.\<close>

definition remove_at :: "nat \<Rightarrow> 'a list \<Rightarrow> 'a list" where
  "remove_at p xs = take p xs @ drop (Suc p) xs"

lemma insert_remove_at: "p < length xs \<Longrightarrow> insert_at p (xs ! p) (remove_at p xs) = xs"
  by (simp add: insert_at_def remove_at_def Cons_nth_drop_Suc)

lemma remove_at_length [simp]: "p < length xs \<Longrightarrow> length (remove_at p xs) = length xs - 1"
  by (simp add: remove_at_def)

lemma take_remove_at_low: "n \<le> p \<Longrightarrow> p < length xs \<Longrightarrow> take n (remove_at p xs) = take n xs"
  by (simp add: remove_at_def min_absorb1)

lemma take_remove_at_high:
  assumes "distinct xs" "p < n" "p < length xs"
  shows "set (take n xs) - {xs ! p} = set (take (n - 1) (remove_at p xs))"
proof -
  have "set (take (Suc (n - 1)) (insert_at p (xs ! p) (remove_at p xs))) = insert (xs ! p) (set (take (n - 1) (remove_at p xs)))"
    using assms by (intro take_insert_at_high) auto
  then have "set (take n xs) = insert (xs ! p) (set (take (n - 1) (remove_at p xs)))"
    using assms by (simp add: insert_remove_at)
  moreover have "distinct (take p xs @ xs ! p # drop (Suc p) xs)"
    using assms(1) by (subst id_take_nth_drop [OF assms(3), symmetric])
  then have "xs ! p \<notin> set (remove_at p xs)" by (simp add: remove_at_def)
  ultimately show ?thesis using set_take_subset [of "n - 1" "remove_at p xs"] by auto
qed

lemma find_first_not_taken:
  "distinct zs \<Longrightarrow> find (\<lambda>x. x \<notin> set (take m zs)) zs = (if m < length zs then Some (zs ! m) else None)"
proof (cases "m < length zs")
  case True
  assume d: "distinct zs"
  have "zs ! m \<notin> set (take m zs)" using d True by (auto simp: in_set_conv_nth nth_eq_iff_index_eq)
  moreover have "\<forall>j<m. zs ! j \<in> set (take m zs)" using True by (auto simp: in_set_conv_nth)
  ultimately show ?thesis using True by (auto simp: find_Some_iff intro!: exI [of _ m])
next
  case False
  then show "find (\<lambda>x. x \<notin> set (take m zs)) zs = (if m < length zs then Some (zs ! m) else None)"
    by (simp add: find_None_iff)
qed

subsection \<open>The rank order\<close>

lemma rank_greater_irrefl [simp]: "\<not> rank_greater k k"
  by (simp add: rank_greater_def)

lemma rank_greater_trans: "rank_greater a b \<Longrightarrow> rank_greater b c \<Longrightarrow> rank_greater a c"
  by (auto simp: rank_greater_def split: if_splits)

lemma rank_greater_linear: "rank_greater a b \<or> a = b \<or> rank_greater b a"
  by (cases a, cases b) (auto simp: rank_greater_def)

lemma rank_greater_asym: "rank_greater a b \<Longrightarrow> \<not> rank_greater b a"
  using rank_greater_trans by fastforce

definition ranked_sorted :: "(rank_key \<times> 'e) list \<Rightarrow> bool" where
  "ranked_sorted xs \<longleftrightarrow> sorted_wrt (\<lambda>a b. rank_greater (fst a) (fst b)) xs"

lemma ranked_sorted_distinct: "ranked_sorted xs \<Longrightarrow> distinct (map fst xs)"
  unfolding ranked_sorted_def by (induction xs) auto

text \<open>Where \<open>emplace\<close> puts a new key: after the entries that outrank it.\<close>

definition rank_of_key :: "rank_key \<Rightarrow> (rank_key \<times> 'e) list \<Rightarrow> nat" where
  "rank_of_key k xs = length (takeWhile (\<lambda>x. rank_greater (fst x) k) xs)"

lemma rank_of_key_le: "rank_of_key k xs \<le> length xs"
  by (simp add: rank_of_key_def length_takeWhile_le)

lemma ranked_emplace_at:
  assumes "ranked_sorted xs" "k \<notin> fst ` set xs"
  shows "ranked_emplace k e xs = insert_at (rank_of_key k xs) (k, e) xs"
  using assms
proof (induction xs)
  case (Cons x xs)
  obtain k' e' where x: "x = (k', e')" by (cases x)
  have "k' \<noteq> k" using Cons.prems(2) by (auto simp: x)
  then consider "rank_greater k k'" "\<not> rank_greater k' k" | "rank_greater k' k" "\<not> rank_greater k k'"
    using rank_greater_linear [of k k'] rank_greater_asym by blast
  then show ?case
  proof cases
    case 2
    then show ?thesis using Cons \<open>k' \<noteq> k\<close>
      by (auto simp: x rank_of_key_def insert_at_def ranked_sorted_def)
  qed (simp add: x rank_of_key_def insert_at_def)
qed (simp add: insert_at_def)

lemma ranked_emplace_sorted:
  assumes "ranked_sorted xs"
  shows "ranked_sorted (ranked_emplace k e xs)"
proof -
  have set: "set (ranked_emplace k e xs) \<subseteq> insert (k, e) (set xs)" for xs
    by (induction xs) (auto split: if_splits)
  show ?thesis
    using assms
  proof (induction xs)
    case (Cons x xs)
    obtain k' e' where x: "x = (k', e')" by (cases x)
    show ?case
    proof (cases "rank_greater k k'")
      case True
      then show ?thesis using Cons.prems by (auto simp: x ranked_sorted_def intro: rank_greater_trans)
    next
      case False
      show ?thesis
      proof (cases "k = k'")
        case False
        then have "rank_greater k' k" using \<open>\<not> rank_greater k k'\<close> rank_greater_linear by blast
        then show ?thesis using False \<open>\<not> rank_greater k k'\<close> Cons set [of xs]
          by (auto simp: x ranked_sorted_def)
      qed (use \<open>\<not> rank_greater k k'\<close> Cons.prems x in simp)
    qed
  qed (simp add: ranked_sorted_def)
qed

subsection \<open>The index and the rank cache\<close>

definition names :: "('f, 's) ranking \<Rightarrow> 'f list" where
  "names st = map (ftn \<circ> snd) (rankedTracks st)"

definition key_of :: "('f, 's) ranking \<Rightarrow> 'f \<Rightarrow> rank_key option" where
  "key_of st = map_of (map (\<lambda>(k, e). (ftn e, k)) (rankedTracks st))"

definition tracks_ok :: "('f, 's) ranking \<Rightarrow> bool" where
  "tracks_ok st \<longleftrightarrow>
     ranked_sorted (rankedTracks st) \<and> distinct (names st) \<and>
     distinct (map (arrivalSeq \<circ> fst) (rankedTracks st)) \<and> (\<forall>x\<in>set (rankedTracks st). arrivalSeq (fst x) < nextSeq st) \<and>
     (\<forall>f. map_option rankIter (hm_find (trackIndexByName st) f) = key_of st f) \<and>
     (rankCacheValid st \<longrightarrow>
        (\<forall>j<length (rankedTracks st). map_option cachedRank (hm_find (trackIndexByName st) (names st ! j)) = Some j))"

lemma tracks_okD:
  assumes "tracks_ok st"
  shows "ranked_sorted (rankedTracks st)" "distinct (names st)" "distinct (map (arrivalSeq \<circ> fst) (rankedTracks st))"
    "\<And>k e. (k, e) \<in> set (rankedTracks st) \<Longrightarrow> arrivalSeq k < nextSeq st"
    "\<And>f. map_option rankIter (hm_find (trackIndexByName st) f) = key_of st f"
  using assms by (auto simp: tracks_ok_def)

lemma length_names [simp]: "length (names st) = length (rankedTracks st)"
  by (simp add: names_def)

lemma key_of_Some:
  assumes "distinct (names st)"
  shows "key_of st f = Some k \<longleftrightarrow> (\<exists>e. (k, e) \<in> set (rankedTracks st) \<and> ftn e = f)"
proof -
  have "map fst (map (\<lambda>(k, e). (ftn e, k)) (rankedTracks st)) = names st"
    by (auto simp: names_def)
  then show ?thesis using assms unfolding key_of_def by (subst map_of_eq_Some_iff) auto
qed

lemma key_of_None: "key_of st f = None \<longleftrightarrow> f \<notin> set (names st)"
  by (auto simp: key_of_def map_of_eq_None_iff names_def image_iff split_beta)

lemma rebuild_other: "f \<notin> set (map (ftn \<circ> snd) xs) \<Longrightarrow> hm_find (rebuild_from r xs idx) f = hm_find idx f"
  by (induction r xs idx rule: rebuild_from.induct) (auto simp: hm_simps split: option.splits)

lemma rebuild_rankIter:
  "map_option rankIter (hm_find (rebuild_from r xs idx) f) = map_option rankIter (hm_find idx f)"
  by (induction r xs idx rule: rebuild_from.induct) (auto simp: hm_simps split: option.splits)

lemma rebuild_rank:
  "distinct (map (ftn \<circ> snd) xs) \<Longrightarrow> j < length xs \<Longrightarrow> hm_find idx (ftn (snd (xs ! j))) \<noteq> None \<Longrightarrow>
   map_option cachedRank (hm_find (rebuild_from r xs idx) (ftn (snd (xs ! j)))) = Some (r + j)"
proof (induction r xs idx arbitrary: j rule: rebuild_from.induct)
  case (2 rank k entry xs idx)
  show ?case
  proof (cases j)
    case 0
    then show ?thesis using 2 by (auto simp: rebuild_other hm_simps split: option.splits)
  next
    case (Suc i)
    then have "hm_find (case hm_find idx (ftn entry) of Some i \<Rightarrow> hm_set (ftn entry) (i\<lparr>cachedRank := rank\<rparr>) idx | None \<Rightarrow> idx)
        (ftn (snd (xs ! i))) \<noteq> None"
      using 2 by (auto simp: hm_simps split: option.splits)
    then show ?thesis using "2.IH" [of i] "2.prems" Suc by simp
  qed
qed simp

lemma getCachedRank_ok:
  assumes ok: "tracks_ok st" and f: "f \<in> set (names st)"
  obtains idx r where "getCachedRank st f = (st\<lparr>trackIndexByName := idx, rankCacheValid := True\<rparr>, r)"
    "r < length (rankedTracks st)" "names st ! r = f" "tracks_ok (st\<lparr>trackIndexByName := idx, rankCacheValid := True\<rparr>)"
proof -
  define st' where "st' = rebuildRankCacheIfNeeded st"
  define idx where "idx = trackIndexByName st'"
  have st': "st' = st\<lparr>trackIndexByName := idx, rankCacheValid := True\<rparr>"
    by (cases "rankCacheValid st") (simp_all add: idx_def st'_def rebuildRankCacheIfNeeded_def)
  have iter: "map_option rankIter (hm_find idx g) = key_of st g" for g
    using tracks_okD(5) [OF ok, of g]
    by (simp add: idx_def st'_def rebuildRankCacheIfNeeded_def rebuild_rankIter)
  have rank: "map_option cachedRank (hm_find idx (names st ! j)) = Some j" if j: "j < length (rankedTracks st)" for j
  proof (cases "rankCacheValid st")
    case True
    then show ?thesis using ok j by (simp add: tracks_ok_def idx_def st'_def rebuildRankCacheIfNeeded_def)
  next
    case False
    have "key_of st (names st ! j) \<noteq> None" using j by (simp add: key_of_None)
    then have "hm_find (trackIndexByName st) (names st ! j) \<noteq> None" using tracks_okD(5) [OF ok, of "names st ! j"] by auto
    then show ?thesis
      using rebuild_rank [of "rankedTracks st" j "trackIndexByName st" 0] tracks_okD(2) [OF ok] j False
      by (simp add: names_def idx_def st'_def rebuildRankCacheIfNeeded_def)
  qed
  obtain r where r: "r < length (rankedTracks st)" "names st ! r = f" using f by (auto simp: in_set_conv_nth)
  have key: "key_of (st\<lparr>trackIndexByName := idx, rankCacheValid := True\<rparr>) = key_of st" by (simp add: key_of_def)
  have nm: "names (st\<lparr>trackIndexByName := idx, rankCacheValid := True\<rparr>) = names st" by (simp add: names_def)
  have ok': "tracks_ok (st\<lparr>trackIndexByName := idx, rankCacheValid := True\<rparr>)"
    using ok iter rank unfolding tracks_ok_def key nm by simp
  have "getCachedRank st f = (st', r)"
    using rank [OF r(1)] r(2) by (auto simp: getCachedRank_def Let_def st'_def [symmetric] idx_def [symmetric])
  then show ?thesis using that r ok' st' by simp
qed

subsection \<open>Inserting and erasing a track\<close>

lemma map_insert_at: "map f (insert_at r x xs) = insert_at r (f x) (map f xs)"
  by (simp add: insert_at_def take_map drop_map)

lemma map_remove_at: "map f (remove_at p xs) = remove_at p (map f xs)"
  by (simp add: remove_at_def take_map drop_map)

lemma distinct_insert_at: "x \<notin> set xs \<Longrightarrow> distinct xs \<Longrightarrow> distinct (insert_at r x xs)"
  using distinct_take [of xs r] distinct_drop [of xs r] set_take_disj_set_drop_if_distinct [of xs r r]
    in_set_takeD [of x r xs] in_set_dropD [of x r xs]
  by (auto simp: insert_at_def)

lemma remove_at_mem:
  assumes "distinct xs" "p < length xs"
  shows "set (remove_at p xs) = set xs - {xs ! p}" "distinct (remove_at p xs)"
proof -
  have "distinct (take p xs @ xs ! p # drop (Suc p) xs)"
    using assms by (subst id_take_nth_drop [OF assms(2), symmetric])
  moreover have "set xs = set (take p xs @ xs ! p # drop (Suc p) xs)"
    by (subst id_take_nth_drop [OF assms(2)], rule refl)
  ultimately show "set (remove_at p xs) = set xs - {xs ! p}" "distinct (remove_at p xs)"
    by (auto simp: remove_at_def)
qed

lemma ranked_erase_at:
  assumes "ranked_sorted xs" "p < length xs" "fst (xs ! p) = k"
  shows "ranked_erase k xs = remove_at p xs"
proof -
  have split: "xs = take p xs @ xs ! p # drop (Suc p) xs" by (rule id_take_nth_drop [OF assms(2)])
  have "distinct (map fst (take p xs @ xs ! p # drop (Suc p) xs))"
    using ranked_sorted_distinct [OF assms(1)] by (subst split [symmetric])
  then have "\<forall>x\<in>set (take p xs). fst x \<noteq> k" "\<forall>x\<in>set (drop (Suc p) xs). fst x \<noteq> k"
    using assms(3) by (auto simp: image_iff)
  moreover have "ranked_erase k xs = ranked_erase k (take p xs) @ ranked_erase k (xs ! p # drop (Suc p) xs)"
    unfolding ranked_erase_def by (subst split) simp
  ultimately show ?thesis
    using assms(3) by (auto simp: remove_at_def ranked_erase_def split_beta filter_id_conv)
qed

lemma tracks_ok_insert:
  assumes ok: "tracks_ok st" and f: "f \<notin> set (names st)"
    and k: "\<forall>x\<in>set (rankedTracks st). arrivalSeq (fst x) \<noteq> arrivalSeq k" "arrivalSeq k < nextSeq st'" "nextSeq st \<le> nextSeq st'"
    and st': "rankedTracks st' = ranked_emplace k e (rankedTracks st)" "ftn e = f" "\<not> rankCacheValid st'"
      "\<And>g. hm_find (trackIndexByName st') g = (if g = f then Some i else hm_find (trackIndexByName st) g)" "rankIter i = k"
  shows "tracks_ok st'" "names st' = insert_at (rank_of_key k (rankedTracks st)) f (names st)" "key_of st' = (key_of st)(f \<mapsto> k)"
proof -
  note old = tracks_okD [OF ok]
  have "k \<notin> fst ` set (rankedTracks st)" using k(1) by auto
  then have ranked: "rankedTracks st' = insert_at (rank_of_key k (rankedTracks st)) (k, e) (rankedTracks st)"
    using ranked_emplace_at [OF old(1)] st'(1) by simp
  show nm: "names st' = insert_at (rank_of_key k (rankedTracks st)) f (names st)"
    by (simp add: names_def ranked map_insert_at st'(2))
  have d: "distinct (names st')" unfolding nm using f old(2) by (rule distinct_insert_at)
  show key: "key_of st' = (key_of st)(f \<mapsto> k)"
  proof (rule ext)
    fix g
    have "key_of st' g = Some k' \<longleftrightarrow> ((key_of st)(f \<mapsto> k)) g = Some k'" for k'
    proof (cases "g = f")
      case True
      moreover have "\<forall>x\<in>set (rankedTracks st). ftn (snd x) \<noteq> f" using f by (auto simp: names_def)
      ultimately show ?thesis unfolding key_of_Some [OF d] ranked insert_at_set using st'(2) by auto
    next
      case False
      then show ?thesis unfolding key_of_Some [OF d] ranked insert_at_set fun_upd_apply using st'(2)
        by (simp add: key_of_Some [OF old(2)]) blast
    qed
    then show "key_of st' g = ((key_of st)(f \<mapsto> k)) g" by (metis not_Some_eq)
  qed
  have "distinct (map (arrivalSeq \<circ> fst) (rankedTracks st'))"
    unfolding ranked map_insert_at using k(1) old(3) by (intro distinct_insert_at) auto
  moreover have "\<forall>x\<in>set (rankedTracks st'). arrivalSeq (fst x) < nextSeq st'"
    unfolding ranked insert_at_set using k old(4) by fastforce
  moreover have "ranked_sorted (rankedTracks st')" unfolding st'(1) by (rule ranked_emplace_sorted [OF old(1)])
  moreover have "map_option rankIter (hm_find (trackIndexByName st') g) = key_of st' g" for g
    using old(5) [of g] st'(5) by (simp add: st'(4) key)
  ultimately show "tracks_ok st'" using d st'(3) by (simp add: tracks_ok_def)
qed

lemma tracks_ok_erase:
  assumes ok: "tracks_ok st" and f: "key_of st f = Some k" and p: "p < length (rankedTracks st)" "names st ! p = f"
    and st': "rankedTracks st' = ranked_erase k (rankedTracks st)" "\<not> rankCacheValid st'" "nextSeq st' = nextSeq st"
      "\<And>g. hm_find (trackIndexByName st') g = (if g = f then None else hm_find (trackIndexByName st) g)"
  shows "tracks_ok st'" "names st' = remove_at p (names st)" "key_of st' = (key_of st)(f := None)"
    "\<forall>x\<in>set (rankedTracks st'). arrivalSeq (fst x) \<noteq> arrivalSeq k"
proof -
  note old = tracks_okD [OF ok]
  obtain e where e: "(k, e) \<in> set (rankedTracks st)" "ftn e = f" using f key_of_Some [OF old(2)] by auto
  have "inj_on (ftn \<circ> snd) (set (rankedTracks st))" using old(2) by (simp add: names_def distinct_map)
  then have "rankedTracks st ! p = (k, e)"
    using e p by (auto simp: names_def inj_on_def)
  then have kp: "fst (rankedTracks st ! p) = k" by simp
  have ranked: "rankedTracks st' = remove_at p (rankedTracks st)"
    using ranked_erase_at [OF old(1) p(1) kp] st'(1) by simp
  show nm: "names st' = remove_at p (names st)" by (simp add: names_def ranked map_remove_at)
  have d: "distinct (names st')" unfolding nm using remove_at_mem(2) [OF old(2)] p(1) by simp
  have dr: "distinct (rankedTracks st)" using ranked_sorted_distinct [OF old(1)] by (simp add: distinct_map)
  have set: "set (rankedTracks st') = set (rankedTracks st) - {(k, e)}"
    unfolding ranked remove_at_mem(1) [OF dr p(1)] using \<open>rankedTracks st ! p = (k, e)\<close> by simp
  show key: "key_of st' = (key_of st)(f := None)"
  proof (rule ext)
    fix g
    have "key_of st' g = Some k' \<longleftrightarrow> ((key_of st)(f := None)) g = Some k'" for k'
    proof (cases "g = f")
      case True
      have "f \<notin> set (names st')" unfolding nm using remove_at_mem(1) [of "names st" p] old(2) p by simp
      then have "key_of st' f = None" by (simp add: key_of_None)
      then show ?thesis using True by simp
    next
      case False
      then show ?thesis unfolding key_of_Some [OF d] set fun_upd_apply using e(2)
        by (auto simp: key_of_Some [OF old(2)])
    qed
    then show "key_of st' g = ((key_of st)(f := None)) g" by (metis not_Some_eq)
  qed
  have seq: "map (arrivalSeq \<circ> fst) (rankedTracks st') = remove_at p (map (arrivalSeq \<circ> fst) (rankedTracks st))"
    by (simp add: ranked map_remove_at)
  have "set (map (arrivalSeq \<circ> fst) (rankedTracks st')) = set (map (arrivalSeq \<circ> fst) (rankedTracks st)) - {arrivalSeq k}"
    unfolding seq using remove_at_mem(1) [OF old(3), of p] p(1) kp by simp
  then show "\<forall>x\<in>set (rankedTracks st'). arrivalSeq (fst x) \<noteq> arrivalSeq k" by (auto simp: image_iff set_eq_iff)
  have "distinct (map (arrivalSeq \<circ> fst) (rankedTracks st'))"
    unfolding seq using remove_at_mem(2) [OF old(3)] p(1) by simp
  moreover have "\<forall>x\<in>set (rankedTracks st'). arrivalSeq (fst x) < nextSeq st'"
    unfolding set using old(4) st'(3) by auto
  moreover have "ranked_sorted (rankedTracks st')"
    unfolding st'(1) ranked_erase_def using old(1) by (simp add: ranked_sorted_def sorted_wrt_filter)
  moreover have "map_option rankIter (hm_find (trackIndexByName st') g) = key_of st' g" for g
    using old(5) [of g] by (simp add: st'(4) key)
  ultimately show "tracks_ok st'" using d st'(2) by (simp add: tracks_ok_def)
qed

subsection \<open>The selection of a group\<close>

definition selected :: "('f, 's) topn_group \<Rightarrow> 'f set" where
  "selected g = {f. hm_find (trackStates g) f = Some Selected}"

definition queue_ok :: "('f, 's) topn_group \<Rightarrow> bool" where
  "queue_ok g \<longleftrightarrow> distinct (deselectedQueue g) \<and> set (deselectedQueue g) = {f. hm_find (trackStates g) f = Some Deselected}"

text \<open>
  A group in order, for the names in rank order: the first \<open>n\<close> tracks and no other are selected, the
  queue lists the deselected ones and is within its bound, and only registered tracks have a state.
\<close>

definition group_ok :: "nat \<Rightarrow> 'f list \<Rightarrow> nat \<Rightarrow> ('f, 's) topn_group \<Rightarrow> bool" where
  "group_ok md nm n g \<longleftrightarrow>
     grp_maxSelected g = n \<and> selected g = set (take n nm) \<and> queue_ok g \<and> length (deselectedQueue g) \<le> md \<and>
     set (deselectedQueue g) \<subseteq> set nm"

lemma selected_sessions [simp]: "selected (g\<lparr>sessions := m\<rparr>) = selected g"
  by (simp add: selected_def)

lemma queue_ok_sessions [simp]: "queue_ok (g\<lparr>sessions := m\<rparr>) = queue_ok g"
  by (simp add: queue_ok_def)

lemma group_ok_sessions [simp]: "group_ok md nm n (g\<lparr>sessions := m\<rparr>) = group_ok md nm n g"
  by (simp add: group_ok_def)

lemma fst_and_then: "fst (and_then r f) = fst (f (fst r))"
  by (simp add: and_then_def split_beta)

lemma notify_group: "\<exists>m. fst (notifyTrackSelected st f g) = g\<lparr>sessions := m\<rparr>"
  by (auto simp: notifyTrackSelected_def split_beta Let_def)

lemma notify_ok [simp]: "group_ok md nm n (fst (notifyTrackSelected st f g)) = group_ok md nm n g"
  using notify_group [of st f g] by auto

lemma trim_ok:
  "queue_ok g \<Longrightarrow> queue_ok (fst (trimDeselectedQueue st g)) \<and> length (deselectedQueue (fst (trimDeselectedQueue st g))) \<le> maxDeselected st
     \<and> selected (fst (trimDeselectedQueue st g)) = selected g \<and> grp_maxSelected (fst (trimDeselectedQueue st g)) = grp_maxSelected g
     \<and> set (deselectedQueue (fst (trimDeselectedQueue st g))) \<subseteq> set (deselectedQueue g)"
proof (induction st g rule: trimDeselectedQueue.induct)
  case (1 st g)
  show ?case
  proof (cases "maxDeselected st < length (deselectedQueue g)")
    case True
    define g1 where "g1 = g\<lparr>deselectedQueue := tl (deselectedQueue g), trackStates := hm_erase (hd (deselectedQueue g)) (trackStates g)\<rparr>"
    obtain x q where q: "deselectedQueue g = x # q" using True by (cases "deselectedQueue g") auto
    have x: "hm_find (trackStates g) x = Some Deselected" using 1(2) by (auto simp: queue_ok_def q)
    have "queue_ok g1" using 1(2) by (auto simp: queue_ok_def g1_def q hm_simps)
    moreover have "selected g1 = selected g" using x by (auto simp: selected_def g1_def q hm_simps)
    moreover have "fst (trimDeselectedQueue st g) = fst (trimDeselectedQueue st g1)"
      using True by (subst trimDeselectedQueue.simps) (simp add: split_beta g1_def Let_def)
    moreover have "set (deselectedQueue g1) \<subseteq> set (deselectedQueue g)" "grp_maxSelected g1 = grp_maxSelected g"
      by (auto simp: g1_def q)
    ultimately show ?thesis using 1(1) [OF True refl] by (simp add: g1_def [symmetric]) blast
  qed (use 1(2) in \<open>simp add: trimDeselectedQueue.simps [of st g]\<close>)
qed

lemma demote_ok:
  fixes st :: "('f, 's) ranking" and f :: 'f
  assumes "queue_ok g" "f \<notin> set (deselectedQueue g)"
  defines "g' \<equiv> fst (demoteTrack st f g)"
  shows "queue_ok g'" "length (deselectedQueue g') \<le> maxDeselected st" "selected g' = selected g - {f}"
    "grp_maxSelected g' = grp_maxSelected g" "set (deselectedQueue g') \<subseteq> insert f (set (deselectedQueue g))"
proof -
  define g1 where "g1 = g\<lparr>trackStates := hm_set f Deselected (trackStates g), deselectedQueue := deselectedQueue g @ [f]\<rparr>"
  have "queue_ok g1" using assms(1,2) by (auto simp: queue_ok_def g1_def hm_simps)
  moreover have "selected g1 = selected g - {f}" by (auto simp: selected_def g1_def hm_simps)
  moreover have "g' = fst (trimDeselectedQueue st g1)" by (simp add: g'_def demoteTrack_def g1_def)
  ultimately show "queue_ok g'" "length (deselectedQueue g') \<le> maxDeselected st" "selected g' = selected g - {f}"
    "grp_maxSelected g' = grp_maxSelected g" "set (deselectedQueue g') \<subseteq> insert f (set (deselectedQueue g))"
    using trim_ok [of g1 st] by (auto simp: g1_def)
qed

lemma select_ok:
  fixes f :: 'f
  assumes "queue_ok g"
  defines "g' \<equiv> removeFromDeselectedQueue f (g\<lparr>trackStates := hm_set f Selected (trackStates g)\<rparr>)"
  shows "queue_ok g'" "selected g' = insert f (selected g)" "grp_maxSelected g' = grp_maxSelected g"
    "length (deselectedQueue g') \<le> length (deselectedQueue g)" "set (deselectedQueue g') = set (deselectedQueue g) - {f}"
  using assms(1) by (auto simp: queue_ok_def g'_def removeFromDeselectedQueue_def selected_def hm_simps)

lemma demoteAtRank_ok:
  assumes g: "grp_maxSelected g = n" "selected g = set (take (Suc n) (names st))" "queue_ok g"
      "length (deselectedQueue g) \<le> maxDeselected st" "set (deselectedQueue g) \<subseteq> set (names st)"
    and d: "distinct (names st)"
  shows "group_ok (maxDeselected st) (names st) n (fst (demoteTrackAtRank st n g))"
proof (cases "n < length (names st)")
  case True
  let ?f = "names st ! n"
  have sel: "?f \<in> selected g" using True g(2) by (simp add: take_Suc_conv_app_nth)
  then have "hm_find (trackStates g) ?f = Some Selected" by (simp add: selected_def)
  then have eq: "demoteTrackAtRank st n g = demoteTrack st ?f g" and nq: "?f \<notin> set (deselectedQueue g)"
    using True g(3) by (auto simp: demoteTrackAtRank_def names_def queue_ok_def)
  show ?thesis
    unfolding eq group_ok_def using demote_ok [OF g(3) nq, of st] g take_Suc_minus [OF d True] True
    by (auto dest: nth_mem)
qed (use g in \<open>simp add: demoteTrackAtRank_def group_ok_def\<close>)

lemma promote_ok:
  assumes g: "grp_maxSelected g = n" "selected g = set (take (n - 1) nm)" "queue_ok g" "0 < n" "n - 1 < length nm"
      "length (deselectedQueue g) \<le> md" "set (deselectedQueue g) \<subseteq> set nm"
  shows "group_ok md nm n (fst (promote_and_notify st (nm ! (n - 1)) g))"
proof -
  have "set (take n nm) = insert (nm ! (n - 1)) (set (take (n - 1) nm))"
    using take_Suc_conv_app_nth [OF g(5)] g(4) by simp
  then have top: "insert (nm ! (n - 1)) (selected g) = set (take n nm)" using g(2) by simp
  have q: "set (deselectedQueue g) - {nm ! (n - 1)} \<subseteq> set nm" using g(7) by blast
  note sel = select_ok [OF g(3), of "nm ! (n - 1)"]
  show ?thesis
    unfolding promote_and_notify_def notify_ok unfolding group_ok_def sel(2,3,5) top
    using q g(1) sel(1) le_trans [OF sel(4) g(6)] by (intro conjI refl)
qed

subsection \<open>One group through each change of the ranking\<close>

lemma sessions_step: "\<exists>m. fst (let (m, es) = x in (g\<lparr>sessions := m\<rparr>, h m es)) = g\<lparr>sessions := m\<rparr>"
  by (cases x) auto

definition register_group ::
  "('f, 's) ranking \<Rightarrow> 'f \<Rightarrow> nat \<Rightarrow> nat \<Rightarrow> ('f, 's) topn_group \<Rightarrow> ('f, 's) topn_group \<times> ('f, 's) rank_event list" where
  "register_group st f rank n g =
     (if rank < n
      then and_then (notifyTrackSelected st f (g\<lparr>trackStates := hm_set f Selected (trackStates g)\<rparr>))
             (demoteTrackAtRank st n)
      else (let (m, es) = each (\<lambda>s info. if isPublisher st s then reconcilePublisherSelection st info n s
                                          else (info, [])) (sessions g)
            in (g\<lparr>sessions := m\<rparr>, es)))"

lemma register_group_ok:
  assumes g: "group_ok (maxDeselected st) nm n g" and f: "f \<notin> set nm" "r \<le> length nm"
    and st: "names st = insert_at r f nm" "distinct (names st)"
  shows "group_ok (maxDeselected st) (names st) n (fst (register_group st f r n g))"
proof (cases "r < n")
  case True
  define g1 where "g1 = g\<lparr>trackStates := hm_set f Selected (trackStates g)\<rparr>"
  have g0: "grp_maxSelected g = n" "selected g = set (take n nm)" "queue_ok g"
    "length (deselectedQueue g) \<le> maxDeselected st" "set (deselectedQueue g) \<subseteq> set nm"
    using g by (auto simp: group_ok_def)
  have "selected g1 = insert f (selected g)" by (auto simp: selected_def g1_def hm_simps)
  also have "\<dots> = set (take (Suc n) (names st))"
    unfolding st(1) g0(2) using True f(2) by (subst take_insert_at_high) auto
  finally have sel: "selected g1 = set (take (Suc n) (names st))" .
  have "f \<notin> set (deselectedQueue g)" using f(1) g0(5) by auto
  then have q: "queue_ok g1" using g0(3) by (auto simp: queue_ok_def g1_def hm_simps)
  obtain m where m: "fst (notifyTrackSelected st f g1) = g1\<lparr>sessions := m\<rparr>" using notify_group [of st f g1] by blast
  have "fst (register_group st f r n g) = fst (demoteTrackAtRank st n (g1\<lparr>sessions := m\<rparr>))"
    using True by (simp add: register_group_def fst_and_then m g1_def [symmetric])
  also have "group_ok (maxDeselected st) (names st) n (fst (demoteTrackAtRank st n (g1\<lparr>sessions := m\<rparr>)))"
    using sel q g0 by (intro demoteAtRank_ok [OF _ _ _ _ _ st(2)]) (auto simp: g1_def st(1) insert_at_set)
  finally show ?thesis .
next
  case False
  obtain m where "fst (register_group st f r n g) = g\<lparr>sessions := m\<rparr>"
    using False sessions_step by (simp add: register_group_def split_beta)
  moreover have "group_ok (maxDeselected st) (names st) n g"
    using g False f(2) unfolding group_ok_def st(1) by (auto simp: take_insert_at_low insert_at_set)
  ultimately show ?thesis by simp
qed

lemma nth_mem_take: "p < n \<Longrightarrow> p < length nm \<Longrightarrow> nm ! p \<in> set (take n nm)"
  by (auto simp: in_set_conv_nth intro!: exI [of _ p])

lemma moved_same:
  assumes "distinct nm" "p < length nm" "r < length nm" "p < n \<longleftrightarrow> r < n"
  shows "set (take n (insert_at r (nm ! p) (remove_at p nm))) = set (take n nm)"
proof (cases "p < n")
  case True
  then have "set (take (Suc (n - 1)) (insert_at r (nm ! p) (remove_at p nm))) = insert (nm ! p) (set (take (n - 1) (remove_at p nm)))"
    using assms by (intro take_insert_at_high) auto
  also have "\<dots> = insert (nm ! p) (set (take n nm))"
    using take_remove_at_high [OF assms(1) True assms(2)] by auto
  also have "\<dots> = set (take n nm)" using nth_mem_take [OF True assms(2)] by auto
  finally show ?thesis using True by simp
next
  case False
  then have "n \<le> p" "n \<le> r" using assms(4) by auto
  then show ?thesis using assms(2,3) by (simp add: take_insert_at_low take_remove_at_low)
qed

lemma moved_set: "p < length nm \<Longrightarrow> distinct nm \<Longrightarrow> set (insert_at r (nm ! p) (remove_at p nm)) = set nm"
  by (simp add: insert_at_set remove_at_mem(1) insert_absorb)

lemma group_ok_moved_same:
  assumes "group_ok md nm n g" "distinct nm" "p < length nm" "r < length nm" "p < n \<longleftrightarrow> r < n"
  shows "group_ok md (insert_at r (nm ! p) (remove_at p nm)) n g"
  using assms(1) unfolding group_ok_def moved_same [OF assms(2-5)] moved_set [OF assms(3,2)] .

lemma recompute_in_ok:
  assumes g: "group_ok (maxDeselected st) nm n g" and nm: "distinct nm" "p < length nm" "r < length nm" "n \<le> p" "r < n"
    and st: "names st = insert_at r (nm ! p) (remove_at p nm)" "distinct (names st)"
  shows "group_ok (maxDeselected st) (names st) n
           (fst (demoteTrackAtRank st n
             ((removeFromDeselectedQueue (nm ! p) (g\<lparr>trackStates := hm_set (nm ! p) Selected (trackStates g)\<rparr>))\<lparr>sessions := m\<rparr>)))"
proof -
  have g0: "grp_maxSelected g = n" "selected g = set (take n nm)" "queue_ok g"
    "length (deselectedQueue g) \<le> maxDeselected st" "set (deselectedQueue g) \<subseteq> set nm"
    using g by (auto simp: group_ok_def)
  note sel = select_ok [OF g0(3), of "nm ! p"]
  have "insert (nm ! p) (selected g) = set (take (Suc n) (names st))"
    unfolding st(1) g0(2) using nm by (subst take_insert_at_high) (auto simp: take_remove_at_low)
  then show ?thesis
    using sel g0 le_trans [OF sel(4) g0(4)] moved_set [OF nm(2,1), of r]
    by (intro demoteAtRank_ok [OF _ _ _ _ _ st(2)]) (auto simp: st(1))
qed

lemma recompute_out_ok:
  assumes g: "group_ok (maxDeselected st) nm n g" and nm: "distinct nm" "p < length nm" "r < length nm" "p < n" "n \<le> r"
    and st: "names st = insert_at r (nm ! p) (remove_at p nm)"
  defines "g' \<equiv> fst (demoteTrack st (nm ! p) g)"
  shows "grp_maxSelected g' = n" "selected g' = set (take (n - 1) (names st))" "queue_ok g'"
    "length (deselectedQueue g') \<le> maxDeselected st" "set (deselectedQueue g') \<subseteq> set (names st)"
proof -
  have g0: "grp_maxSelected g = n" "selected g = set (take n nm)" "queue_ok g"
    "length (deselectedQueue g) \<le> maxDeselected st" "set (deselectedQueue g) \<subseteq> set nm"
    using g by (auto simp: group_ok_def)
  have "nm ! p \<in> selected g" unfolding g0(2) using nm by (intro nth_mem_take)
  then have "nm ! p \<notin> set (deselectedQueue g)" using g0(3) by (auto simp: queue_ok_def selected_def)
  note dem = demote_ok [OF g0(3) this, of st]
  have "set (take n nm) - {nm ! p} = set (take (n - 1) (names st))"
    unfolding st take_remove_at_high [OF nm(1,4,2)] using nm by (simp add: take_insert_at_low)
  then show "selected g' = set (take (n - 1) (names st))" unfolding g'_def dem(3) g0(2) .
  show "grp_maxSelected g' = n" "queue_ok g'" "length (deselectedQueue g') \<le> maxDeselected st"
    unfolding g'_def using dem(1,2,4) g0(1) by simp_all
  have "insert (nm ! p) (set (deselectedQueue g)) \<subseteq> set nm" using g0(5) nm(2) by simp
  then show "set (deselectedQueue g') \<subseteq> set (names st)"
    unfolding g'_def st moved_set [OF nm(2,1)] using dem(5) by (rule order_trans [rotated])
qed

text \<open>The group after \<open>recompute_group\<close>, without the events.\<close>

definition others_reconciled :: "('f, 's) ranking \<Rightarrow> 'f \<Rightarrow> nat \<Rightarrow> ('f, 's) topn_group \<Rightarrow> ('f, 's) topn_group" where
  "others_reconciled st f n g = g\<lparr>sessions := fst (each (\<lambda>s info.
     if isPublisher st s \<and> Some s \<noteq> map_option (\<lambda>i. publisherRaw (the (map_of (rankedTracks st) (rankIter i))))
            (hm_find (trackIndexByName st) f)
     then reconcilePublisherSelection st info n s else (info, [])) (sessions g))\<rparr>"

lemma fst_if: "fst (if b then x else y) = (if b then fst x else fst y)"
  by simp

lemma recompute_group_fst:
  "fst (recompute_group st f p r n g) =
     (let g1 = others_reconciled st f n
                 (if (p < n) \<noteq> (r < n)
                  then if r < n then removeFromDeselectedQueue f (g\<lparr>trackStates := hm_set f Selected (trackStates g)\<rparr>)
                       else fst (demoteTrack st f g)
                  else g);
          g2 = (if \<not> p < n \<and> r < n then fst (demoteTrackAtRank st n g1) else g1)
      in if p < n \<and> \<not> r < n \<and> n - 1 < length (rankedTracks st) \<and>
            hm_find (trackStates g2) (ftn (snd (rankedTracks st ! (n - 1)))) \<noteq> Some Selected
         then fst (promote_and_notify st (ftn (snd (rankedTracks st ! (n - 1)))) g2) else g2)"
  by (cases "p < n"; cases "r < n") (simp_all add: recompute_group_def Let_def fst_and_then fst_if split_beta others_reconciled_def)

lemma others_simps [simp]:
  "group_ok md nm n (others_reconciled st f m g) = group_ok md nm n g" "selected (others_reconciled st f m g) = selected g"
  "queue_ok (others_reconciled st f m g) = queue_ok g" "deselectedQueue (others_reconciled st f m g) = deselectedQueue g"
  "grp_maxSelected (others_reconciled st f m g) = grp_maxSelected g" "trackStates (others_reconciled st f m g) = trackStates g"
  by (simp_all add: others_reconciled_def)

lemma recompute_group_ok:
  assumes g: "group_ok (maxDeselected st) nm n g" and nm: "distinct nm" "p < length nm" "r < length nm"
    and st: "names st = insert_at r (nm ! p) (remove_at p nm)" "distinct (names st)"
  shows "group_ok (maxDeselected st) (names st) n (fst (recompute_group st (nm ! p) p r n g))"
proof -
  consider "p < n \<longleftrightarrow> r < n" | "n \<le> p" "r < n" | "p < n" "n \<le> r" by linarith
  then show ?thesis
  proof cases
    case 1
    then have "fst (recompute_group st (nm ! p) p r n g) = others_reconciled st (nm ! p) n g"
      by (auto simp: recompute_group_fst Let_def)
    then show ?thesis using group_ok_moved_same [OF g nm 1] st(1) by simp
  next
    case 2
    then have "fst (recompute_group st (nm ! p) p r n g) = fst (demoteTrackAtRank st n (others_reconciled st (nm ! p) n
        (removeFromDeselectedQueue (nm ! p) (g\<lparr>trackStates := hm_set (nm ! p) Selected (trackStates g)\<rparr>))))"
      by (simp add: recompute_group_fst Let_def)
    then show ?thesis using recompute_in_ok [OF g nm 2 st] by (simp add: others_reconciled_def)
  next
    case 3
    note out = recompute_out_ok [OF g nm 3 st(1)]
    have len: "n - 1 < length (names st)" "0 < n" using 3 nm by (auto simp: st(1))
    then have nth: "ftn (snd (rankedTracks st ! (n - 1))) = names st ! (n - 1)" by (simp add: names_def)
    have notin: "names st ! (n - 1) \<notin> set (take (n - 1) (names st))"
      using st(2) len by (auto simp: in_set_conv_nth nth_eq_iff_index_eq)
    have "hm_find (trackStates (fst (demoteTrack st (nm ! p) g))) (names st ! (n - 1)) \<noteq> Some Selected"
      using notin unfolding out(2) [symmetric] selected_def by simp
    then have eq: "fst (recompute_group st (nm ! p) p r n g) =
        fst (promote_and_notify st (names st ! (n - 1)) (others_reconciled st (nm ! p) n (fst (demoteTrack st (nm ! p) g))))"
      unfolding recompute_group_fst Let_def nth using 3 len by simp
    show ?thesis unfolding eq by (rule promote_ok) (use out len in simp_all)
  qed
qed

lemma promoteNext_eq:
  assumes "distinct (names st)" "f \<notin> set (names st)" "selected g = set (take m (names st))"
  shows "promoteNextAvailableTrack st f g =
    (if m < length (names st) then promote_and_notify st (names st ! m) g else (g, []))"
proof -
  define P where "P = (\<lambda>x. x \<noteq> f \<and> hm_find (trackStates g) x \<noteq> Some Selected)"
  have find_map: "find (\<lambda>(_, e). P (ftn e)) xs = None \<and> find P (map (ftn \<circ> snd) xs) = None
      \<or> (\<exists>k e. find (\<lambda>(_, e). P (ftn e)) xs = Some (k, e) \<and> find P (map (ftn \<circ> snd) xs) = Some (ftn e))"
    for xs :: "(rank_key \<times> ('a, 'b) ranked_entry) list"
    by (induction xs) auto
  have "P x \<longleftrightarrow> x \<notin> set (take m (names st))" if "x \<in> set (names st)" for x
    using that assms(2,3) by (auto simp: P_def selected_def set_eq_iff)
  then have "find P (names st) = find (\<lambda>x. x \<notin> set (take m (names st))) (names st)"
    by (intro find_cong) auto
  then have "find P (names st) = (if m < length (names st) then Some (names st ! m) else None)"
    using find_first_not_taken [OF assms(1), of m] by simp
  then show ?thesis
    using find_map [of "rankedTracks st"]
    by (auto simp: promoteNextAvailableTrack_def P_def names_def split: if_splits)
qed

lemma remove_group_ok:
  assumes g: "group_ok (maxDeselected st) nm n g" and nm: "distinct nm" "p < length nm"
    and st: "names st = remove_at p nm" and md: "maxDeselected st = 0"
  shows "group_ok (maxDeselected st) (names st) n (fst (remove_from_group st (nm ! p) g))"
proof -
  have g0: "grp_maxSelected g = n" "selected g = set (take n nm)" "queue_ok g" "deselectedQueue g = []"
    using g md by (auto simp: group_ok_def)
  have st': "distinct (names st)" "nm ! p \<notin> set (names st)" unfolding st using remove_at_mem [OF nm] by auto
  have state: "hm_find (trackStates g) (nm ! p) = (if p < n then Some Selected else None)"
  proof (cases "p < n")
    case True
    then show ?thesis using nth_mem_take [OF True nm(2)] g0(2) by (auto simp: selected_def)
  next
    case False
    then have "nm ! p \<notin> set (take n nm)" using nm by (auto simp: in_set_conv_nth nth_eq_iff_index_eq)
    then have "nm ! p \<notin> selected g" "nm ! p \<notin> set (deselectedQueue g)" using g0 by auto
    then show ?thesis using g0(3) False unfolding selected_def queue_ok_def
      by (cases "hm_find (trackStates g) (nm ! p)") (auto intro: track_state.exhaust)
  qed
  show ?thesis
  proof (cases "p < n")
    case True
    define g1 where "g1 = removeFromDeselectedQueue (nm ! p) (g\<lparr>trackStates := hm_erase (nm ! p) (trackStates g)\<rparr>)"
    have "selected g1 = set (take n nm) - {nm ! p}"
      unfolding g0(2) [symmetric] by (auto simp: selected_def g1_def removeFromDeselectedQueue_def hm_simps)
    then have sel: "selected g1 = set (take (n - 1) (names st))"
      unfolding st take_remove_at_high [OF nm(1) True nm(2)] .
    have g1: "queue_ok g1" "deselectedQueue g1 = []" "grp_maxSelected g1 = n"
      using g0 by (auto simp: queue_ok_def g1_def removeFromDeselectedQueue_def hm_simps)
    have "remove_from_group st (nm ! p) g = promoteNextAvailableTrack st (nm ! p) g1"
      using state True g1(2) by (simp add: remove_from_group_def g1_def [symmetric] Let_def)
    then have eq: "remove_from_group st (nm ! p) g =
        (if n - 1 < length (names st) then promote_and_notify st (names st ! (n - 1)) g1 else (g1, []))"
      using promoteNext_eq [OF st' sel] by simp
    show ?thesis
    proof (cases "n - 1 < length (names st)")
      case short: True
      then show ?thesis unfolding eq using promote_ok [OF g1(3) sel g1(1) _ short] g1(2) True by simp
    next
      case False
      then have "set (take n (names st)) = set (take (n - 1) (names st))" by simp
      then show ?thesis unfolding eq using False g1 sel by (simp add: group_ok_def)
    qed
  next
    case False
    then have "remove_from_group st (nm ! p) g = (g, [])" using state by (simp add: remove_from_group_def)
    then show ?thesis using g0 False nm by (simp add: group_ok_def st take_remove_at_low)
  qed
qed

subsection \<open>The thresholds\<close>

definition thresholds_ok :: "('f, 's) ranking \<Rightarrow> bool" where
  "thresholds_ok st \<longleftrightarrow>
     (topNGroups st \<noteq> [] \<longrightarrow>
        sortedThresholds st = sort (hm_keys (topNGroups st)) \<and>
        selectionThreshold st = add64 (fold max (hm_keys (topNGroups st)) 0) (maxDeselected st)) \<and>
     (\<forall>n\<in>set (hm_keys (topNGroups st)). n + maxDeselected st < 2 ^ 64)"

lemma find_first_above:
  "sorted ys \<Longrightarrow> x \<in> set ys \<Longrightarrow> m < x \<Longrightarrow> \<exists>y. find (\<lambda>x. m < x) ys = Some y \<and> y \<le> x" for m :: nat
  by (induction ys) auto

lemma fold_max_ge: "x \<in> set xs \<Longrightarrow> x \<le> fold max xs b" for x :: nat
  using Max_ge [of "set (b # xs)" x] unfolding Max.set_eq_fold by simp

lemma fold_max_mem: "fold max xs b \<in> insert b (set xs)" for b :: nat
  using Max_in [of "set (b # xs)"] unfolding Max.set_eq_fold by simp

lemma selectionThreshold_ge:
  assumes "thresholds_ok st" "n \<in> set (hm_keys (topNGroups st))"
  shows "n \<le> selectionThreshold st"
proof -
  let ?m = "fold max (hm_keys (topNGroups st)) 0"
  have ne: "topNGroups st \<noteq> []" using assms(2) by auto
  have "n \<le> ?m" using assms(2) by (simp add: fold_max_ge)
  moreover have "?m \<in> insert 0 (set (hm_keys (topNGroups st)))" by (rule fold_max_mem)
  then have "?m = 0 \<or> ?m + maxDeselected st < 2 ^ 64" using assms(1) unfolding thresholds_ok_def by blast
  moreover have "selectionThreshold st = add64 ?m (maxDeselected st)" using assms(1) ne by (simp add: thresholds_ok_def)
  ultimately show ?thesis by (auto simp: add64_def)
qed

lemma not_crossing:
  assumes ok: "thresholds_ok st" and n: "n \<in> set (hm_keys (topNGroups st))" and not: "\<not> crossesThreshold st p r"
  shows "p < n \<longleftrightarrow> r < n"
proof (rule ccontr)
  assume ne: "(p < n) \<noteq> (r < n)"
  then have mid: "min p r < n" "n \<le> max p r" by auto
  have groups: "topNGroups st \<noteq> []" using n by auto
  have "\<not> (p \<ge> max (selectionThreshold st) (publisherExtendedThreshold st) \<and> r \<ge> max (selectionThreshold st) (publisherExtendedThreshold st))"
    using selectionThreshold_ge [OF ok n] ne by auto
  moreover have "sortedThresholds st = sort (hm_keys (topNGroups st))" using ok groups by (simp add: thresholds_ok_def)
  then obtain y where "find (\<lambda>x. min p r < x) (sortedThresholds st) = Some y" "y \<le> n"
    using find_first_above [of "sortedThresholds st" n "min p r"] n mid(1) by auto
  moreover from this mid(2) have "y \<le> max p r" by simp
  ultimately have "crossesThreshold st p r"
    using groups unfolding crossesThreshold_def Let_def by simp
  then show False using not by simp
qed

subsection \<open>All groups\<close>

lemma each_find: "hm_find (fst (each f m)) k = map_option (\<lambda>v. fst (f k v)) (hm_find m k)"
  by (induction f m rule: each.induct) (auto split: prod.splits)

lemma each_keys: "hm_keys (fst (each f m)) = hm_keys m"
  by (induction f m rule: each.induct) (auto split: prod.splits)

lemma each_group_fst: "fst (each_group F st) = st\<lparr>topNGroups := fst (each F (topNGroups st))\<rparr>"
  by (simp add: each_group_def split_beta)

lemma names_upd [simp]:
  "names (st\<lparr>topNGroups := a\<rparr>) = names st" "names (st\<lparr>publisherTrackCount := b\<rparr>) = names st"
  "names (st\<lparr>publisherExtendedThreshold := c\<rparr>) = names st" "names (st\<lparr>selectionThreshold := d\<rparr>) = names st"
  "names (st\<lparr>sortedThresholds := e\<rparr>) = names st" "names (st\<lparr>trackIndexByName := i, rankCacheValid := v\<rparr>) = names st"
  by (simp_all add: names_def)

lemma key_of_upd [simp]:
  "key_of (st\<lparr>topNGroups := a\<rparr>) = key_of st" "key_of (st\<lparr>publisherTrackCount := b\<rparr>) = key_of st"
  "key_of (st\<lparr>publisherExtendedThreshold := c\<rparr>) = key_of st" "key_of (st\<lparr>selectionThreshold := d\<rparr>) = key_of st"
  "key_of (st\<lparr>sortedThresholds := e\<rparr>) = key_of st" "key_of (st\<lparr>trackIndexByName := i, rankCacheValid := v\<rparr>) = key_of st"
  by (simp_all add: key_of_def)

lemma tracks_ok_upd [simp]:
  "tracks_ok (st\<lparr>topNGroups := a\<rparr>) = tracks_ok st" "tracks_ok (st\<lparr>publisherTrackCount := b\<rparr>) = tracks_ok st"
  "tracks_ok (st\<lparr>publisherExtendedThreshold := c\<rparr>) = tracks_ok st" "tracks_ok (st\<lparr>selectionThreshold := d\<rparr>) = tracks_ok st"
  "tracks_ok (st\<lparr>sortedThresholds := e\<rparr>) = tracks_ok st"
  by (simp_all add: tracks_ok_def)

definition groups_ok :: "'f list \<Rightarrow> ('f, 's) ranking \<Rightarrow> bool" where
  "groups_ok nm st \<longleftrightarrow> (\<forall>n g. hm_find (topNGroups st) n = Some g \<longrightarrow> group_ok (maxDeselected st) nm n g)"

definition ranking_ok :: "('f, 's) ranking \<Rightarrow> bool" where
  "ranking_ok st \<longleftrightarrow>
     tracks_ok st \<and> thresholds_ok st \<and> distinct (hm_keys (topNGroups st)) \<and> groups_ok (names st) st"

lemma each_group_ok:
  assumes "tracks_ok st" "thresholds_ok st" "distinct (hm_keys (topNGroups st))"
    and "\<And>n g. hm_find (topNGroups st) n = Some g \<Longrightarrow> group_ok (maxDeselected st) (names st) n (fst (F n g))"
  shows "ranking_ok (fst (each_group F st))"
proof -
  have "topNGroups st = [] \<longleftrightarrow> fst (each F (topNGroups st)) = []"
    using each_keys [of F "topNGroups st"] by (metis Nil_is_map_conv)
  then have "thresholds_ok (st\<lparr>topNGroups := fst (each F (topNGroups st))\<rparr>)"
    using assms(2) by (simp add: thresholds_ok_def each_keys)
  then show ?thesis
    using assms by (auto simp: ranking_ok_def groups_ok_def each_group_fst each_keys each_find)
qed

lemma hm_keys_mem: "hm_find m k = Some v \<Longrightarrow> k \<in> set (hm_keys m)"
  using hm_find_None [of m k] by auto

subsection \<open>The operations keep the ranking in order\<close>

lemma thresholds_ok_cong:
  assumes "hm_keys (topNGroups st') = hm_keys (topNGroups st)" "sortedThresholds st' = sortedThresholds st"
    "selectionThreshold st' = selectionThreshold st" "maxDeselected st' = maxDeselected st"
  shows "thresholds_ok st' = thresholds_ok st"
proof -
  have "topNGroups st' = [] \<longleftrightarrow> topNGroups st = []" using assms(1) by (metis Nil_is_map_conv)
  then show ?thesis unfolding thresholds_ok_def assms by simp
qed

text \<open>What the operations on tracks leave as it is.\<close>

definition same_settings :: "('f, 's) ranking \<Rightarrow> ('f, 's) ranking \<Rightarrow> bool" where
  "same_settings st' st \<longleftrightarrow>
     maxDeselected st' = maxDeselected st \<and> idleTimeout st' = idleTimeout st \<and>
     hm_keys (topNGroups st') = hm_keys (topNGroups st) \<and> sortedThresholds st' = sortedThresholds st \<and>
     selectionThreshold st' = selectionThreshold st"

lemma same_settings_each [simp]: "same_settings (fst (each_group F st')) st = same_settings st' st"
  by (simp add: same_settings_def each_group_fst each_keys)

lemma thresholds_same: "same_settings st' st \<Longrightarrow> thresholds_ok st \<Longrightarrow> thresholds_ok st'"
  using thresholds_ok_cong [of st' st] by (simp add: same_settings_def)

lemma reconcileAll_find:
  assumes "hm_find (topNGroups (fst (reconcilePublisherInAllGroups st s))) n = Some g'"
  obtains g m where "hm_find (topNGroups st) n = Some g" "g' = g\<lparr>sessions := m\<rparr>"
proof -
  obtain g where g: "hm_find (topNGroups st) n = Some g"
    using assms by (auto simp: reconcilePublisherInAllGroups_def each_group_fst each_find)
  have "\<exists>m. g' = g\<lparr>sessions := m\<rparr>"
  proof (cases "hm_find (sessions g) s")
    case None
    then have "g' = g\<lparr>sessions := sessions g\<rparr>"
      using assms g by (simp add: reconcilePublisherInAllGroups_def each_group_fst each_find)
    then show ?thesis by blast
  next
    case (Some info)
    then show ?thesis
      using assms g by (auto simp: reconcilePublisherInAllGroups_def each_group_fst each_find Let_def split_beta)
  qed
  then show ?thesis using that g by blast
qed

lemma each_group_ex: "\<exists>gs. fst (each_group F st) = st\<lparr>topNGroups := gs\<rparr> \<and> hm_keys gs = hm_keys (topNGroups st)"
  by (rule exI [of _ "fst (each F (topNGroups st))"]) (simp add: each_group_fst each_keys)

lemma reconcileAll_fst:
  "\<exists>gs. fst (reconcilePublisherInAllGroups st s) = st\<lparr>topNGroups := gs\<rparr> \<and> hm_keys gs = hm_keys (topNGroups st)"
  unfolding reconcilePublisherInAllGroups_def by (rule each_group_ex)

text \<open>The ranking when the loop over the groups starts: the new track is at its rank \<open>r\<close>.\<close>

lemma registerTrack_shape:
  fixes v :: "nat option" and p :: 's
  assumes ok: "tracks_ok st" and seq: "nextSeq st + 1 < 2 ^ 64" and f: "f \<notin> set (names st)"
  obtains r st5 where "fst (registerTrack st f v p) = fst (each_group (register_group st5 f r) st5)"
    "same_settings st5 st" "tracks_ok st5" "names st5 = insert_at r f (names st)" "r \<le> length (names st)"
    "key_of st5 = (key_of st)(f \<mapsto> \<lparr>key_value = value_or v 0, arrivalSeq = nextSeq st\<rparr>)" "nextSeq st5 = Suc (nextSeq st)"
    "\<forall>n g'. hm_find (topNGroups st5) n = Some g' \<longrightarrow> (\<exists>g m. hm_find (topNGroups st) n = Some g \<and> g' = g\<lparr>sessions := m\<rparr>)"
proof -
  define key where "key = \<lparr>key_value = value_or v 0, arrivalSeq = nextSeq st\<rparr>"
  define st2 where "st2 = updatePublisherExtendedThreshold (st\<lparr>nextSeq := add64 (nextSeq st) 1,
    publisherTrackCount := hm_at p 0 (\<lambda>c. add64 c 1) (publisherTrackCount st)\<rparr>)"
  define st3 where "st3 = st2\<lparr>rankedTracks := ranked_emplace key \<lparr>ftn = f, publisherRaw = p\<rparr> (rankedTracks st2),
    trackIndexByName := hm_set f \<lparr>rankIter = key, cachedRank = uint64_max\<rparr> (trackIndexByName st2), rankCacheValid := False\<rparr>"
  have st3: "nextSeq st3 = Suc (nextSeq st)" "topNGroups st3 = topNGroups st" "same_settings st3 st"
    using seq by (simp_all add: st3_def st2_def updatePublisherExtendedThreshold_def add64_def same_settings_def)
  have "\<forall>x\<in>set (rankedTracks st). arrivalSeq (fst x) \<noteq> arrivalSeq key"
    using tracks_okD(4) [OF ok] by (fastforce simp: key_def)
  then have ins: "tracks_ok st3" "names st3 = insert_at (rank_of_key key (rankedTracks st)) f (names st)"
      "key_of st3 = (key_of st)(f \<mapsto> key)"
    using st3(1) tracks_ok_insert [OF ok f, where k = key and st' = st3]
    by (simp_all add: key_def st3_def st2_def updatePublisherExtendedThreshold_def)
  define r where "r = rank_of_key key (rankedTracks st)"
  have r: "r \<le> length (names st)" using rank_of_key_le by (simp add: r_def)
  have fin: "f \<in> set (names st3)" by (simp add: ins(2) insert_at_set)
  obtain idx rank where cached: "getCachedRank st3 f = (st3\<lparr>trackIndexByName := idx, rankCacheValid := True\<rparr>, rank)"
      "rank < length (rankedTracks st3)" "names st3 ! rank = f" "tracks_ok (st3\<lparr>trackIndexByName := idx, rankCacheValid := True\<rparr>)"
    by (rule getCachedRank_ok [OF ins(1) fin])
  have "rank = r"
    using nth_eq_iff_index_eq [OF tracks_okD(2) [OF ins(1)], of rank r] cached(2,3) nth_insert_at [OF r, of f] r
    by (simp add: ins(2) r_def [symmetric]) (metis ins(2) insert_at_length length_names less_Suc_eq_le r_def)
  define st4 where "st4 = st3\<lparr>trackIndexByName := idx, rankCacheValid := True\<rparr>"
  obtain gs where gs: "fst (reconcilePublisherInAllGroups st4 p) = st4\<lparr>topNGroups := gs\<rparr>" "hm_keys gs = hm_keys (topNGroups st4)"
    using reconcileAll_fst [of st4 p] by blast
  define st5 where "st5 = st4\<lparr>topNGroups := gs\<rparr>"
  have "hm_find (trackIndexByName st) f = None"
    using tracks_okD(5) [OF ok, of f] f by (simp add: key_of_None [symmetric])
  then have "registerTrack st f v p = (case getCachedRank st3 f of (st4, rank) \<Rightarrow>
      and_then (reconcilePublisherInAllGroups st4 p) (\<lambda>st5. each_group (register_group st5 f rank) st5))"
    by (simp add: registerTrack_def register_group_def [abs_def] Let_def st3_def st2_def key_def)
  then have reg: "fst (registerTrack st f v p) = fst (each_group (register_group st5 f r) st5)"
    using cached(1) gs(1) \<open>rank = r\<close> by (simp add: st5_def st4_def fst_and_then)
  have groups: "\<exists>g m. hm_find (topNGroups st) n = Some g \<and> g' = g\<lparr>sessions := m\<rparr>" if "hm_find (topNGroups st5) n = Some g'" for n g'
  proof -
    have "hm_find (topNGroups (fst (reconcilePublisherInAllGroups st4 p))) n = Some g'" using that gs(1) by (simp add: st5_def)
    then obtain g m where "hm_find (topNGroups st4) n = Some g" "g' = g\<lparr>sessions := m\<rparr>" by (rule reconcileAll_find)
    then show ?thesis using st3(2) by (auto simp: st4_def)
  qed
  have "\<forall>n g'. hm_find (topNGroups st5) n = Some g' \<longrightarrow> (\<exists>g m. hm_find (topNGroups st) n = Some g \<and> g' = g\<lparr>sessions := m\<rparr>)"
    using groups by blast
  then show ?thesis
    using st3 gs(2) ins cached(4) r by (intro that [OF reg]) (simp_all add: st5_def st4_def same_settings_def r_def key_def)
qed

lemma registerTrack_ok:
  fixes v :: "nat option" and p :: 's
  assumes ok: "ranking_ok st" and seq: "nextSeq st + 1 < 2 ^ 64" and f: "f \<notin> set (names st)"
  defines "st' \<equiv> fst (registerTrack st f v p)"
  shows "ranking_ok st'" "key_of st' = (key_of st)(f \<mapsto> \<lparr>key_value = value_or v 0, arrivalSeq = nextSeq st\<rparr>)"
    "same_settings st' st" "nextSeq st' = nextSeq st + 1"
proof -
  have old: "tracks_ok st" "thresholds_ok st" "distinct (hm_keys (topNGroups st))" "groups_ok (names st) st"
    using ok by (auto simp: ranking_ok_def)
  obtain r st5 where reg: "fst (registerTrack st f v p) = fst (each_group (register_group st5 f r) st5)"
    and st5: "same_settings st5 st" "tracks_ok st5" "names st5 = insert_at r f (names st)" "r \<le> length (names st)"
      "key_of st5 = (key_of st)(f \<mapsto> \<lparr>key_value = value_or v 0, arrivalSeq = nextSeq st\<rparr>)" "nextSeq st5 = Suc (nextSeq st)"
    and groups: "\<forall>n g'. hm_find (topNGroups st5) n = Some g' \<longrightarrow> (\<exists>g m. hm_find (topNGroups st) n = Some g \<and> g' = g\<lparr>sessions := m\<rparr>)"
    by (rule registerTrack_shape [OF old(1) seq f, where v = v and p = p])
  show "ranking_ok st'"
    unfolding st'_def reg
  proof (rule each_group_ok)
    fix n g' assume "hm_find (topNGroups st5) n = Some g'"
    then obtain g m where g: "hm_find (topNGroups st) n = Some g" "g' = g\<lparr>sessions := m\<rparr>" using groups by blast
    have "group_ok (maxDeselected st5) (names st) n g'"
      using old(4) g st5(1) by (simp add: groups_ok_def same_settings_def)
    then show "group_ok (maxDeselected st5) (names st5) n (fst (register_group st5 f r n g'))"
      using f st5(3,4) tracks_okD(2) [OF st5(2)] by (intro register_group_ok) auto
  next
    show "distinct (hm_keys (topNGroups st5))" using st5(1) old(3) by (simp add: same_settings_def)
  qed (use st5 old(2) thresholds_same in auto)
  show "same_settings st' st" using st5(1) by (simp add: st'_def reg)
  show "key_of st' = (key_of st)(f \<mapsto> \<lparr>key_value = value_or v 0, arrivalSeq = nextSeq st\<rparr>)" "nextSeq st' = nextSeq st + 1"
    using st5(5,6) by (simp_all add: st'_def reg each_group_fst)
qed

lemma ranked_lookup:
  assumes "tracks_ok st" "key_of st f = Some k"
  obtains e where "map_of (rankedTracks st) k = Some e" "ftn e = f"
proof -
  obtain e where e: "(k, e) \<in> set (rankedTracks st)" "ftn e = f"
    using assms(2) unfolding key_of_Some [OF tracks_okD(2) [OF assms(1)]] by blast
  then have "map_of (rankedTracks st) k = Some e"
    using ranked_sorted_distinct [OF tracks_okD(1) [OF assms(1)]] by (simp add: map_of_eq_Some_iff)
  then show ?thesis using that e(2) by blast
qed

lemma tracks_ok_move:
  assumes ok: "tracks_ok st" and f: "key_of st f = Some k" and p: "p < length (rankedTracks st)" "names st ! p = f"
    and k': "arrivalSeq k' = arrivalSeq k" "ftn e = f" "rankIter i = k'"
  defines "st' \<equiv> st\<lparr>rankedTracks := ranked_emplace k' e (ranked_erase k (rankedTracks st)),
    trackIndexByName := hm_set f i (trackIndexByName st), rankCacheValid := False\<rparr>"
  obtains r where "tracks_ok st'" "names st' = insert_at r f (remove_at p (names st))" "r < length (names st)"
    "key_of st' = (key_of st)(f \<mapsto> k')"
proof -
  define st1 where "st1 = st\<lparr>rankedTracks := ranked_erase k (rankedTracks st), trackIndexByName := hm_erase f (trackIndexByName st),
    rankCacheValid := False\<rparr>"
  have er: "tracks_ok st1" "names st1 = remove_at p (names st)" "key_of st1 = (key_of st)(f := None)"
      "\<forall>x\<in>set (rankedTracks st1). arrivalSeq (fst x) \<noteq> arrivalSeq k"
    using tracks_ok_erase [OF ok f p, of st1] by (simp_all add: st1_def)
  have "f \<notin> set (names st1)" using er(3) key_of_None [of st1 f] by simp
  note ins = tracks_ok_insert [OF er(1) this, where k = k' and e = e and st' = st' and i = i]
  have "arrivalSeq k < nextSeq st"
    using f key_of_Some [OF tracks_okD(2) [OF ok]] tracks_okD(4) [OF ok] by blast
  then have "tracks_ok st'" "names st' = insert_at (rank_of_key k' (rankedTracks st1)) f (names st1)"
      "key_of st' = (key_of st1)(f \<mapsto> k')"
    using ins er(4) k' by (simp_all add: st1_def st'_def)
  moreover have "rank_of_key k' (rankedTracks st1) < length (names st)"
    using rank_of_key_le [of k' "rankedTracks st1"] length_names [of st1] p(1) by (simp add: er(2) del: length_names) simp
  ultimately show ?thesis using that er(2,3) by simp
qed

lemma insert_at_nth_unique:
  assumes "distinct (insert_at r f xs)" "insert_at r f xs ! q = f" "q < length (insert_at r f xs)" "r \<le> length xs"
  shows "q = r"
  using nth_eq_iff_index_eq [OF assms(1), of q r] assms(2-4) nth_insert_at [OF assms(4), of f] by simp

text \<open>The ranking when \<open>crossesThreshold\<close> is asked: the track has moved from rank \<open>p\<close> to rank \<open>r\<close>.\<close>

lemma updateSortValue_shape:
  fixes now :: nat and act :: "'f \<Rightarrow> nat"
  assumes old: "tracks_ok st" and f: "key_of st f = Some k" "key_value k \<noteq> v"
  obtains p r st3 where "updateSortValue st f v now act =
      (if \<not> crossesThreshold st3 p r then (st3, [])
       else and_then (recomputeTopNGroups st3 f p r) (\<lambda>st4. sweepIdle st4 now act))"
    "p < length (names st)" "names st ! p = f" "r < length (names st)"
    "tracks_ok st3" "names st3 = insert_at r f (remove_at p (names st))" "key_of st3 = (key_of st)(f \<mapsto> k\<lparr>key_value := v\<rparr>)"
    "topNGroups st3 = topNGroups st" "same_settings st3 st" "nextSeq st3 = nextSeq st"
proof -
  have nm: "distinct (names st)" by (rule tracks_okD(2) [OF old])
  have fst_mem: "f \<in> set (names st)" using key_of_None [of st f] f(1) by simp
  obtain i where i: "hm_find (trackIndexByName st) f = Some i" "rankIter i = k"
    using tracks_okD(5) [OF old, of f] f(1) by auto
  obtain idx p where p: "getCachedRank st f = (st\<lparr>trackIndexByName := idx, rankCacheValid := True\<rparr>, p)"
      "p < length (rankedTracks st)" "names st ! p = f" "tracks_ok (st\<lparr>trackIndexByName := idx, rankCacheValid := True\<rparr>)"
    by (rule getCachedRank_ok [OF old fst_mem])
  define st1 where "st1 = st\<lparr>trackIndexByName := idx, rankCacheValid := True\<rparr>"
  have k1: "key_of st1 f = Some k" "tracks_ok st1" "names st1 = names st" using f(1) p(4) by (simp_all add: st1_def)
  obtain e where e: "map_of (rankedTracks st1) k = Some e" "ftn e = f" by (rule ranked_lookup [OF k1(2,1)])
  define newKey where "newKey = \<lparr>key_value = v, arrivalSeq = arrivalSeq k\<rparr>"
  define j where "j = the (hm_find (trackIndexByName st1) f)\<lparr>rankIter := newKey\<rparr>"
  define st2 where "st2 = st1\<lparr>rankedTracks := ranked_emplace newKey e (ranked_erase k (rankedTracks st1)),
    trackIndexByName := hm_set f j (trackIndexByName st1), rankCacheValid := False\<rparr>"
  have q: "p < length (rankedTracks st1)" "names st1 ! p = f" "arrivalSeq newKey = arrivalSeq k" "rankIter j = newKey"
    using p(2,3) by (simp_all add: st1_def newKey_def j_def)
  obtain r where "tracks_ok st2" "names st2 = insert_at r f (remove_at p (names st1))" "r < length (names st1)"
      "key_of st2 = (key_of st1)(f \<mapsto> newKey)"
    unfolding st2_def by (rule tracks_ok_move [OF k1(2,1) q(1-3) e(2) q(4)])
  then have r: "tracks_ok st2" "names st2 = insert_at r f (remove_at p (names st))" "r < length (names st)"
      "key_of st2 = (key_of st)(f \<mapsto> newKey)"
    unfolding k1(3) by (simp_all add: st1_def)
  have fin: "f \<in> set (names st2)" by (simp add: r(2) insert_at_set)
  obtain idx3 r' where c3: "getCachedRank st2 f = (st2\<lparr>trackIndexByName := idx3, rankCacheValid := True\<rparr>, r')"
      "r' < length (rankedTracks st2)" "names st2 ! r' = f" "tracks_ok (st2\<lparr>trackIndexByName := idx3, rankCacheValid := True\<rparr>)"
    by (rule getCachedRank_ok [OF r(1) fin])
  have "r' = r"
    using insert_at_nth_unique [of r f "remove_at p (names st)" r'] tracks_okD(2) [OF r(1)] c3(2,3) r(2,3) p(2)
      length_names [of st2] by (simp del: length_names) simp
  define st3 where "st3 = st2\<lparr>trackIndexByName := idx3, rankCacheValid := True\<rparr>"
  have st3: "tracks_ok st3" "names st3 = insert_at r (names st ! p) (remove_at p (names st))" "key_of st3 = (key_of st)(f \<mapsto> newKey)"
      "topNGroups st3 = topNGroups st" "same_settings st3 st" "nextSeq st3 = nextSeq st" "maxDeselected st3 = maxDeselected st"
    using r c3(4) p(3) by (simp_all add: st3_def st2_def st1_def same_settings_def)
  have nk: "newKey = k\<lparr>key_value := v\<rparr>" by (cases k) (simp add: newKey_def)
  have res: "updateSortValue st f v now act =
      (if \<not> crossesThreshold st3 p r then (st3, [])
       else and_then (recomputeTopNGroups st3 f p r) (\<lambda>st4. sweepIdle st4 now act))"
    using i f(2) p(1) e(1) c3(1) \<open>r' = r\<close>
    by (simp add: updateSortValue_def Let_def st1_def [symmetric] newKey_def [symmetric] j_def [symmetric] st2_def [symmetric] st3_def)
  show ?thesis by (rule that [OF res]) (use p(2,3) r(3) st3 nk in simp_all)
qed

lemma updateSortValue_ok:
  fixes now :: nat and act :: "'f \<Rightarrow> nat"
  assumes ok: "ranking_ok st" and idle: "idleTimeout st = 0" and f: "key_of st f = Some k" "key_value k \<noteq> v"
  defines "st' \<equiv> fst (updateSortValue st f v now act)"
  shows "ranking_ok st' \<and> key_of st' = (key_of st)(f \<mapsto> k\<lparr>key_value := v\<rparr>) \<and> same_settings st' st \<and> nextSeq st' = nextSeq st"
proof -
  have old: "tracks_ok st" "thresholds_ok st" "distinct (hm_keys (topNGroups st))" "groups_ok (names st) st"
    using ok by (auto simp: ranking_ok_def)
  have nm: "distinct (names st)" by (rule tracks_okD(2) [OF old(1)])
  obtain p r st3 where res: "updateSortValue st f v now act =
      (if \<not> crossesThreshold st3 p r then (st3, [])
       else and_then (recomputeTopNGroups st3 f p r) (\<lambda>st4. sweepIdle st4 now act))"
    and p: "p < length (names st)" "names st ! p = f" "r < length (names st)"
    and st3: "tracks_ok st3" "names st3 = insert_at r f (remove_at p (names st))" "key_of st3 = (key_of st)(f \<mapsto> k\<lparr>key_value := v\<rparr>)"
      "topNGroups st3 = topNGroups st" "same_settings st3 st" "nextSeq st3 = nextSeq st"
    by (rule updateSortValue_shape [OF old(1) f, where now = now and act = act])
  have thr: "thresholds_ok st3" using thresholds_same st3(5) old(2) by blast
  have before: "group_ok (maxDeselected st3) (names st) n g" if "hm_find (topNGroups st3) n = Some g" for n g
    using that old(4) st3(4,5) by (simp add: groups_ok_def same_settings_def)
  show ?thesis
  proof (cases "crossesThreshold st3 p r")
    case False
    have "groups_ok (names st3) st3"
      unfolding groups_ok_def
    proof (intro allI impI)
      fix n g assume g: "hm_find (topNGroups st3) n = Some g"
      then have "p < n \<longleftrightarrow> r < n" using not_crossing [OF thr hm_keys_mem False] by blast
      then show "group_ok (maxDeselected st3) (names st3) n g"
        using group_ok_moved_same [OF before [OF g] nm p(1,3)] p(2) st3(2) by simp
    qed
    then show ?thesis using False st3 thr old(3) by (simp add: st'_def res ranking_ok_def)
  next
    case True
    have "ranking_ok (fst (recomputeTopNGroups st3 f p r))"
      unfolding recomputeTopNGroups_def
    proof (rule each_group_ok [OF st3(1) thr])
      fix n g assume g: "hm_find (topNGroups st3) n = Some g"
      show "group_ok (maxDeselected st3) (names st3) n (fst (recompute_group st3 f p r n g))"
        using recompute_group_ok [OF before [OF g] nm p(1,3)] p(2) st3(2) tracks_okD(2) [OF st3(1)] by simp
    qed (simp add: st3(4) old(3))
    moreover have "st' = fst (recomputeTopNGroups st3 f p r)"
      using True idle st3(5) by (simp add: st'_def res fst_and_then sweepIdle_def recomputeTopNGroups_def each_group_fst same_settings_def)
    ultimately show ?thesis using st3 by (simp add: recomputeTopNGroups_def) (simp add: each_group_fst)
  qed
qed

lemma removeTrack_ok:
  assumes ok: "ranking_ok st" and md: "maxDeselected st = 0" and f: "key_of st f = Some k"
  defines "st' \<equiv> fst (removeTrack st f)"
  shows "ranking_ok st' \<and> key_of st' = (key_of st)(f := None) \<and> same_settings st' st \<and> nextSeq st' = nextSeq st"
proof -
  have old: "tracks_ok st" "thresholds_ok st" "distinct (hm_keys (topNGroups st))" "groups_ok (names st) st"
    using ok by (auto simp: ranking_ok_def)
  have f_mem: "f \<in> set (names st)" using key_of_None [of st f] f by simp
  obtain i where i: "hm_find (trackIndexByName st) f = Some i" "rankIter i = k"
    using tracks_okD(5) [OF old(1), of f] f by auto
  obtain idx p where p: "getCachedRank st f = (st\<lparr>trackIndexByName := idx, rankCacheValid := True\<rparr>, p)"
      "p < length (rankedTracks st)" "names st ! p = f" "tracks_ok (st\<lparr>trackIndexByName := idx, rankCacheValid := True\<rparr>)"
    by (rule getCachedRank_ok [OF old(1) f_mem])
  define st1 where "st1 = st\<lparr>trackIndexByName := idx, rankCacheValid := True\<rparr>"
  define publisher where "publisher = publisherRaw (the (map_of (rankedTracks st1) (rankIter i)))"
  define st2 where "st2 = (case hm_find (publisherTrackCount st1) publisher of
       None \<Rightarrow> st1
     | Some c \<Rightarrow> updatePublisherExtendedThreshold (st1\<lparr>publisherTrackCount :=
         (if sub64 c 1 = 0 then hm_erase publisher (publisherTrackCount st1)
          else hm_set publisher (sub64 c 1) (publisherTrackCount st1))\<rparr>))"
  have st2: "rankedTracks st2 = rankedTracks st" "trackIndexByName st2 = idx" "nextSeq st2 = nextSeq st" "topNGroups st2 = topNGroups st"
      "same_settings st2 st" "tracks_ok st2"
    using p(4) by (auto simp: st2_def st1_def updatePublisherExtendedThreshold_def same_settings_def split: option.splits)
  define st3 where "st3 = st2\<lparr>rankedTracks := ranked_erase (rankIter i) (rankedTracks st2),
    trackIndexByName := hm_erase f (trackIndexByName st2), rankCacheValid := False\<rparr>"
  have eq: "st' = fst (each_group (\<lambda>_. remove_from_group st3 f) st3)"
    unfolding st'_def removeTrack_def Let_def st3_def st2_def publisher_def st1_def using i(1) p(1) by simp
  have same: "key_of st2 = key_of st" "names st2 = names st" by (simp_all add: key_of_def names_def st2(1))
  have er: "tracks_ok st3" "names st3 = remove_at p (names st)" "key_of st3 = (key_of st)(f := None)"
    using tracks_ok_erase [OF st2(6), of f k p st3] f p(2,3) i(2) by (simp_all add: same st2(1) st3_def)
  have st3: "same_settings st3 st" "topNGroups st3 = topNGroups st" "nextSeq st3 = nextSeq st"
    using st2 by (simp_all add: st3_def same_settings_def)
  have "ranking_ok st'"
    unfolding eq
  proof (rule each_group_ok [OF er(1) thresholds_same [OF st3(1) old(2)]])
    fix n g assume "hm_find (topNGroups st3) n = Some g"
    then have "group_ok (maxDeselected st3) (names st) n g" using old(4) st3(1,2) by (simp add: groups_ok_def same_settings_def)
    then show "group_ok (maxDeselected st3) (names st3) n (fst (remove_from_group st3 f g))"
      using remove_group_ok [of st3 "names st" n g p] tracks_okD(2) [OF old(1)] p(2,3) er(2) st3(1) md by (simp add: same_settings_def)
  qed (simp add: st3(2) old(3))
  then show ?thesis using er(3) st3 by (simp add: eq) (simp add: each_group_fst)
qed

subsection \<open>Groups come and go\<close>

lemma new_group_states:
  "hm_find (fold (\<lambda>(_, entry). hm_set (ftn entry) Selected) xs m) f =
     (if f \<in> set (map (ftn \<circ> snd) xs) then Some Selected else hm_find m f)"
  by (induction xs arbitrary: m) (auto simp: hm_simps)

lemma new_group_ok: "group_ok (maxDeselected st) (names st) n (new_group st n)"
  by (auto simp: group_ok_def new_group_def selected_def queue_ok_def new_group_states names_def take_map)

lemma updateSelectionThreshold_ok:
  "(\<forall>n\<in>set (hm_keys (topNGroups st)). n + maxDeselected st < 2 ^ 64) \<Longrightarrow> thresholds_ok (updateSelectionThreshold st)"
  by (simp add: thresholds_ok_def updateSelectionThreshold_def Let_def)

text \<open>Operations on sessions and groups keep the tracks.\<close>

definition same_tracks :: "('f, 's) ranking \<Rightarrow> ('f, 's) ranking \<Rightarrow> bool" where
  "same_tracks st' st \<longleftrightarrow>
     rankedTracks st' = rankedTracks st \<and> trackIndexByName st' = trackIndexByName st \<and> nextSeq st' = nextSeq st \<and>
     rankCacheValid st' = rankCacheValid st \<and> maxDeselected st' = maxDeselected st \<and> idleTimeout st' = idleTimeout st"

lemma same_tracks_ok:
  assumes "same_tracks st' st" "tracks_ok st"
  shows "tracks_ok st'" "names st' = names st" "key_of st' = key_of st"
  using assms by (simp_all add: same_tracks_def tracks_ok_def names_def key_of_def)

lemma ranking_okI:
  assumes "ranking_ok st" "same_tracks st' st" "thresholds_ok st'" "distinct (hm_keys (topNGroups st'))"
    and "\<And>n g'. hm_find (topNGroups st') n = Some g' \<Longrightarrow>
      (\<exists>g m. hm_find (topNGroups st) n = Some g \<and> g' = g\<lparr>sessions := m\<rparr>) \<or> group_ok (maxDeselected st) (names st) n g'"
  shows "ranking_ok st'"
proof -
  have tr: "tracks_ok st" using assms(1) by (simp add: ranking_ok_def)
  note same = same_tracks_ok [OF assms(2) tr]
  have "group_ok (maxDeselected st') (names st') n g'" if "hm_find (topNGroups st') n = Some g'" for n g'
    using assms(5) [OF that] assms(1,2) by (auto simp: ranking_ok_def groups_ok_def same(2) same_tracks_def)
  then show ?thesis using same(1) assms(3,4) by (simp add: ranking_ok_def groups_ok_def)
qed

lemma upd_group_ok:
  assumes "ranking_ok st" "hm_find (topNGroups st) n = Some g" "\<And>g. \<exists>m. f g = g\<lparr>sessions := m\<rparr>"
  shows "ranking_ok (upd_group n f st)" "same_tracks (upd_group n f st) st"
proof -
  have keys: "hm_keys (hm_set n (f g) (topNGroups st)) = hm_keys (topNGroups st)"
    using hm_keys_mem [OF assms(2)] by (simp add: update_keys)
  show same: "same_tracks (upd_group n f st) st" by (simp add: upd_group_def same_tracks_def)
  have thr: "thresholds_ok (upd_group n f st)"
    using assms(1,2) keys thresholds_ok_cong [of "upd_group n f st" st] by (simp add: ranking_ok_def upd_group_def)
  show "ranking_ok (upd_group n f st)"
  proof (rule ranking_okI [OF assms(1) same thr])
    fix n' g' assume g': "hm_find (topNGroups (upd_group n f st)) n' = Some g'"
    obtain m where m: "f g = g\<lparr>sessions := m\<rparr>" using assms(3) by blast
    show "(\<exists>g m. hm_find (topNGroups st) n' = Some g \<and> g' = g\<lparr>sessions := m\<rparr>) \<or> group_ok (maxDeselected st) (names st) n' g'"
    proof (cases "n' = n")
      case True
      then have "g' = g\<lparr>sessions := m\<rparr>" using g' assms(2) m by (simp add: upd_group_def)
      then show ?thesis using True assms(2) by blast
    next
      case False
      then have "hm_find (topNGroups st) n' = Some g'" using g' by (simp add: upd_group_def)
      then show ?thesis using assms(1) by (simp add: ranking_ok_def groups_ok_def)
    qed
  qed (use assms(1) in \<open>simp add: upd_group_def ranking_ok_def\<close>)
qed

lemma same_tracks_refl [simp]: "same_tracks st st"
  by (simp add: same_tracks_def)

lemma same_tracks_trans: "same_tracks a b \<Longrightarrow> same_tracks b c \<Longrightarrow> same_tracks a c"
  by (simp add: same_tracks_def)

lemma extended_ok:
  "ranking_ok (updatePublisherExtendedThreshold st) = ranking_ok st" "same_tracks (updatePublisherExtendedThreshold st) st"
  "topNGroups (updatePublisherExtendedThreshold st) = topNGroups st"
proof -
  have "thresholds_ok (updatePublisherExtendedThreshold st) = thresholds_ok st"
    by (rule thresholds_ok_cong) (simp_all add: updatePublisherExtendedThreshold_def)
  then show "ranking_ok (updatePublisherExtendedThreshold st) = ranking_ok st"
    by (simp add: ranking_ok_def groups_ok_def updatePublisherExtendedThreshold_def)
qed (simp_all add: updatePublisherExtendedThreshold_def same_tracks_def)

lemma getOrCreate_ok:
  assumes "ranking_ok st" "n + maxDeselected st < 2 ^ 64"
  shows "ranking_ok (getOrCreateTopNGroup st n)" "same_tracks (getOrCreateTopNGroup st n) st"
    "hm_find (topNGroups (getOrCreateTopNGroup st n)) n \<noteq> None"
proof -
  show same: "same_tracks (getOrCreateTopNGroup st n) st"
    by (simp add: getOrCreateTopNGroup_def same_tracks_def updateSelectionThreshold_def Let_def)
  show "hm_find (topNGroups (getOrCreateTopNGroup st n)) n \<noteq> None"
    by (simp add: getOrCreateTopNGroup_def updateSelectionThreshold_def Let_def)
  show "ranking_ok (getOrCreateTopNGroup st n)"
  proof (cases "hm_find (topNGroups st) n")
    case None
    define st1 where "st1 = st\<lparr>topNGroups := hm_set n (new_group st n) (topNGroups st)\<rparr>"
    have eq: "getOrCreateTopNGroup st n = updateSelectionThreshold st1"
      using None by (simp add: getOrCreateTopNGroup_def st1_def)
    have keys: "\<forall>n\<in>set (hm_keys (topNGroups st1)). n + maxDeselected st1 < 2 ^ 64"
      using assms by (auto simp: st1_def hm_keys_set ranking_ok_def thresholds_ok_def simp del: set_map list.set_map)
    show ?thesis
      unfolding eq
    proof (rule ranking_okI [OF assms(1) same [unfolded eq] updateSelectionThreshold_ok [OF keys]])
      show "distinct (hm_keys (topNGroups (updateSelectionThreshold st1)))"
        using assms(1) by (simp add: updateSelectionThreshold_def Let_def st1_def ranking_ok_def)
      fix m g assume g: "hm_find (topNGroups (updateSelectionThreshold st1)) m = Some g"
      show "(\<exists>g0 s. hm_find (topNGroups st) m = Some g0 \<and> g = g0\<lparr>sessions := s\<rparr>) \<or> group_ok (maxDeselected st) (names st) m g"
      proof (cases "m = n")
        case True
        then show ?thesis using g new_group_ok [of st n] by (simp add: updateSelectionThreshold_def Let_def st1_def)
      next
        case False
        then have "hm_find (topNGroups st) m = Some g" using g by (simp add: updateSelectionThreshold_def Let_def st1_def)
        then show ?thesis using assms(1) by (simp add: ranking_ok_def groups_ok_def)
      qed
    qed
  qed (use assms(1) in \<open>simp add: getOrCreateTopNGroup_def\<close>)
qed

lemma upd_sessions_ok:
  assumes "ranking_ok st" "hm_find (topNGroups st) n \<noteq> None"
  shows "ranking_ok (upd_group n (\<lambda>g. g\<lparr>sessions := h (sessions g)\<rparr>) st)" "same_tracks (upd_group n (\<lambda>g. g\<lparr>sessions := h (sessions g)\<rparr>) st) st"
proof -
  obtain g where "hm_find (topNGroups st) n = Some g" using assms(2) by blast
  then show "ranking_ok (upd_group n (\<lambda>g. g\<lparr>sessions := h (sessions g)\<rparr>) st)" "same_tracks (upd_group n (\<lambda>g. g\<lparr>sessions := h (sessions g)\<rparr>) st) st"
    by (rule upd_group_ok [OF assms(1)]; blast)+
qed

lemma addSession_ok:
  assumes "ranking_ok st" "n + maxDeselected st < 2 ^ 64"
  shows "ranking_ok (fst (addSessionToTopNGroup st n s fwd)) \<and> same_tracks (fst (addSessionToTopNGroup st n s fwd)) st"
proof -
  note new = getOrCreate_ok [OF assms]
  define st1 where "st1 = upd_group n (\<lambda>g. g\<lparr>sessions := hm_set s \<lparr>forward = fwd, waterlineKey = None, selectedTracks = []\<rparr> (sessions g)\<rparr>)
    (getOrCreateTopNGroup st n)"
  define st2 where "st2 = updatePublisherExtendedThreshold st1"
  have st1: "ranking_ok st1" "same_tracks st1 (getOrCreateTopNGroup st n)"
    unfolding st1_def by (rule upd_sessions_ok [OF new(1,3)])+
  have found: "hm_find (topNGroups st2) n \<noteq> None" by (simp add: st2_def extended_ok(3) st1_def upd_group_def)
  have st2: "ranking_ok st2" "same_tracks st2 st1" using st1(1) by (simp_all add: st2_def extended_ok)
  note st3 = upd_sessions_ok [OF st2(1) found]
  have chain: "same_tracks x st" if "same_tracks x st2 \<or> x = st1" for x
    using that st2(2) st1(2) new(2) by (auto intro: same_tracks_trans)
  show ?thesis
    using st1(1) st3 chain
    by (simp add: addSessionToTopNGroup_def Let_def st1_def [symmetric] st2_def [symmetric] split_beta)
qed

lemma removeTopNGroup_ok:
  assumes "ranking_ok st"
  shows "ranking_ok (removeTopNGroup st n)" "same_tracks (removeTopNGroup st n) st"
proof -
  show same: "same_tracks (removeTopNGroup st n) st"
    by (simp add: removeTopNGroup_def updateSelectionThreshold_def Let_def same_tracks_def)
  have "thresholds_ok (removeTopNGroup st n)"
    unfolding removeTopNGroup_def using assms
    by (intro updateSelectionThreshold_ok) (auto simp: hm_keys_erase ranking_ok_def thresholds_ok_def simp del: set_map list.set_map)
  then show "ranking_ok (removeTopNGroup st n)"
    by (rule ranking_okI [OF assms same])
      (use assms in \<open>auto simp: removeTopNGroup_def updateSelectionThreshold_def Let_def ranking_ok_def groups_ok_def split: if_splits\<close>)
qed

lemma removeSession_ok:
  assumes "ranking_ok st"
  shows "ranking_ok (removeSessionFromTopNGroup st n s) \<and> same_tracks (removeSessionFromTopNGroup st n s) st"
proof (cases "hm_find (topNGroups st) n")
  case (Some g)
  define st1 where "st1 = upd_group n (\<lambda>g. g\<lparr>sessions := hm_erase s (sessions g)\<rparr>) st"
  define st2 where "st2 = (if hm_erase s (sessions g) = [] then removeTopNGroup st1 n else st1)"
  have "hm_find (topNGroups st) n \<noteq> None" using Some by simp
  then have "ranking_ok st1" "same_tracks st1 st" unfolding st1_def by (rule upd_sessions_ok [OF assms])+
  then have "ranking_ok st2" "same_tracks st2 st"
    using removeTopNGroup_ok [of st1 n] same_tracks_trans [of _ st1 st] by (auto simp: st2_def)
  then show ?thesis
    using Some extended_ok(1,2) [of st2] same_tracks_trans [of _ st2 st]
    by (simp add: removeSessionFromTopNGroup_def Let_def st1_def [symmetric] st2_def [symmetric])
qed (use assms in \<open>simp add: removeSessionFromTopNGroup_def\<close>)

lemma updateSessionForward_ok:
  assumes "ranking_ok st"
  shows "ranking_ok (updateSessionForward st n s fwd) \<and> same_tracks (updateSessionForward st n s fwd) st"
proof (cases "hm_find (topNGroups st) n")
  case (Some g)
  then show ?thesis
    using assms upd_sessions_ok [OF assms, of n]
    by (cases "hm_find (sessions g) s") (simp_all add: updateSessionForward_def)
qed (use assms in \<open>simp add: updateSessionForward_def\<close>)

subsection \<open>Runs\<close>

datatype ('f, 's) rank_op =
    Register 'f "nat option" 's
  | Update 'f nat nat "'f \<Rightarrow> nat"
  | Remove 'f
  | AddSession nat 's bool
  | RemoveSession nat 's
  | SetForward nat 's bool
  | Sweep nat "'f \<Rightarrow> nat"

fun rank_exec :: "('f, 's) rank_op \<Rightarrow> ('f, 's) ranking \<Rightarrow> ('f, 's) ranking \<times> ('f, 's) rank_event list" where
  "rank_exec (Register f v p) st = registerTrack st f v p"
| "rank_exec (Update f v now act) st = updateSortValue st f v now act"
| "rank_exec (Remove f) st = removeTrack st f"
| "rank_exec (AddSession n s fwd) st = addSessionToTopNGroup st n s fwd"
| "rank_exec (RemoveSession n s) st = (removeSessionFromTopNGroup st n s, [])"
| "rank_exec (SetForward n s fwd) st = (updateSessionForward st n s fwd, [])"
| "rank_exec (Sweep now act) st = sweepIdle st now act"

definition rank_run :: "('f, 's) ranking \<Rightarrow> ('f, 's) rank_op list \<Rightarrow> ('f, 's) ranking" where
  "rank_run st ops = fold (\<lambda>op st. fst (rank_exec op st)) ops st"

text \<open>The specification: the tracks that are registered, with their current value and the number of
  tracks registered before them.\<close>

fun spec_exec :: "('f, 's) rank_op \<Rightarrow> nat \<times> ('f \<rightharpoonup> rank_key) \<Rightarrow> nat \<times> ('f \<rightharpoonup> rank_key)" where
  "spec_exec (Register f v p) (c, m) =
     (if m f = None then (c + 1, m(f \<mapsto> \<lparr>key_value = value_or v 0, arrivalSeq = c\<rparr>)) else (c, m))"
| "spec_exec (Update f v now act) (c, m) =
     (c, case m f of None \<Rightarrow> m | Some k \<Rightarrow> m(f \<mapsto> k\<lparr>key_value := v\<rparr>))"
| "spec_exec (Remove f) (c, m) = (c, m(f := None))"
| "spec_exec _ (c, m) = (c, m)"

definition registered :: "('f, 's) rank_op list \<Rightarrow> 'f \<rightharpoonup> rank_key" where
  "registered ops = snd (fold spec_exec ops (0, Map.empty))"

definition outranking :: "('f \<rightharpoonup> rank_key) \<Rightarrow> rank_key \<Rightarrow> 'f set" where
  "outranking m k = {f. \<exists>k'. m f = Some k' \<and> rank_greater k' k}"

text \<open>Group sizes that do not overflow, and no removal unless the deselected queue is off.\<close>

fun op_ok :: "nat \<Rightarrow> ('f, 's) rank_op \<Rightarrow> bool" where
  "op_ok md (AddSession n _ _) = (n + md < 2 ^ 64)"
| "op_ok md (Remove _) = (md = 0)"
| "op_ok md _ = True"

definition run_ok :: "('f, 's) ranking \<Rightarrow> nat \<Rightarrow> nat \<times> ('f \<rightharpoonup> rank_key) \<Rightarrow> bool" where
  "run_ok st md cm \<longleftrightarrow>
     ranking_ok st \<and> idleTimeout st = 0 \<and> maxDeselected st = md \<and> nextSeq st = fst cm \<and> key_of st = snd cm"

lemma run_ok_same_tracks:
  "run_ok st md cm \<Longrightarrow> ranking_ok st' \<and> same_tracks st' st \<Longrightarrow> run_ok st' md cm"
  using same_tracks_ok [of st' st] by (simp add: run_ok_def ranking_ok_def same_tracks_def)

lemma run_ok_init: "run_ok (new_ranking md 0 throttle) md (0, Map.empty)"
  by (auto simp: run_ok_def new_ranking_def ranking_ok_def tracks_ok_def thresholds_ok_def groups_ok_def names_def
      key_of_def ranked_sorted_def)

lemma index_mem: "tracks_ok st \<Longrightarrow> hm_find (trackIndexByName st) f = None \<longleftrightarrow> key_of st f = None"
  using tracks_okD(5) [of st f] by (metis map_option_is_None)

lemma index_key: "tracks_ok st \<Longrightarrow> hm_find (trackIndexByName st) f = Some i \<Longrightarrow> key_of st f = Some (rankIter i)"
  using tracks_okD(5) [of st f] by simp

lemma rank_exec_ok:
  assumes run: "run_ok st md cm" and seq: "fst cm + 1 < 2 ^ 64" and ok: "op_ok md op"
  shows "run_ok (fst (rank_exec op st)) md (spec_exec op cm)"
proof -
  have st: "ranking_ok st" "idleTimeout st = 0" "maxDeselected st = md" "nextSeq st = fst cm" "key_of st = snd cm" "tracks_ok st"
    using run by (auto simp: run_ok_def ranking_ok_def)
  obtain c m where cm: "cm = (c, m)" by (cases cm)
  show ?thesis
  proof (cases op)
    case (Register f v p)
    show ?thesis
    proof (cases "m f")
      case None
      then have "f \<notin> set (names st)" using key_of_None [of st f] st(5) cm by simp
      then show ?thesis
        using registerTrack_ok [OF st(1), of f v p] seq st None by (simp add: Register cm run_ok_def same_settings_def)
    next
      case (Some k)
      then have "hm_find (trackIndexByName st) f \<noteq> None" using index_mem [OF st(6)] st(5) cm by simp
      then show ?thesis using run Some by (simp add: Register cm registerTrack_def)
    qed
  next
    case (Update f v now act)
    show ?thesis
    proof (cases "m f")
      case None
      then have "hm_find (trackIndexByName st) f = None" using index_mem [OF st(6)] st(5) cm by simp
      then show ?thesis using run None by (simp add: Update cm updateSortValue_def)
    next
      case (Some k)
      then obtain i where i: "hm_find (trackIndexByName st) f = Some i" "rankIter i = k"
        using index_mem [OF st(6), of f] index_key [OF st(6), of f] st(5) cm by auto
      show ?thesis
      proof (cases "key_value k = v")
        case True
        then have "m(f \<mapsto> k\<lparr>key_value := v\<rparr>) = m" using Some by auto
        then show ?thesis using run Some i True by (simp add: Update cm updateSortValue_def)
      next
        case False
        then show ?thesis
          using updateSortValue_ok [OF st(1,2), of f k v now act] Some st by (simp add: Update cm run_ok_def same_settings_def)
      qed
    qed
  next
    case (Remove f)
    show ?thesis
    proof (cases "m f")
      case None
      then have "hm_find (trackIndexByName st) f = None" using index_mem [OF st(6)] st(5) cm by simp
      moreover have "m(f := None) = m" using None by auto
      ultimately show ?thesis using run by (simp add: Remove cm removeTrack_def)
    next
      case (Some k)
      then show ?thesis
        using removeTrack_ok [OF st(1), of f k] st ok by (simp add: Remove cm run_ok_def same_settings_def)
    qed
  next
    case (AddSession n s fwd)
    then show ?thesis using run_ok_same_tracks [OF run] addSession_ok [OF st(1), of n s fwd] ok st(3) by (simp add: cm)
  next
    case (RemoveSession n s)
    then show ?thesis using run_ok_same_tracks [OF run] removeSession_ok [OF st(1), of n s] by (simp add: cm)
  next
    case (SetForward n s fwd)
    then show ?thesis using run_ok_same_tracks [OF run] updateSessionForward_ok [OF st(1), of n s fwd] by (simp add: cm)
  next
    case (Sweep now act)
    then show ?thesis using run st(2) by (simp add: cm sweepIdle_def)
  qed
qed

lemma rank_run_ok:
  "run_ok st md cm \<Longrightarrow> fst cm + length ops < 2 ^ 64 \<Longrightarrow> list_all (op_ok md) ops \<Longrightarrow>
   run_ok (rank_run st ops) md (fold spec_exec ops cm)"
proof (induction ops arbitrary: st cm)
  case (Cons op ops)
  have "run_ok (fst (rank_exec op st)) md (spec_exec op cm)"
    using rank_exec_ok [OF Cons.prems(1)] Cons.prems(2,3) by simp
  moreover have "fst (spec_exec op cm) \<le> fst cm + 1" by (cases op; cases cm) auto
  ultimately show ?case using Cons.IH [of "fst (rank_exec op st)" "spec_exec op cm"] Cons.prems(2,3) by (simp add: rank_run_def)
qed (simp add: rank_run_def)

lemma outranking_rank:
  assumes ok: "tracks_ok st" and p: "p < length (rankedTracks st)" "key_of st (names st ! p) = Some k"
  shows "outranking (key_of st) k = set (take p (names st))"
proof -
  let ?xs = "rankedTracks st"
  note d = tracks_okD(2) [OF ok]
  have nth: "key_of st (names st ! j) = Some (fst (?xs ! j))" if "j < length ?xs" for j
    using that nth_mem [OF that] by (subst key_of_Some [OF d]) (auto simp: names_def intro!: exI [of _ "snd (?xs ! j)"])
  have order: "rank_greater (fst (?xs ! j)) (fst (?xs ! p)) \<longleftrightarrow> j < p" if "j < length ?xs" for j
    using tracks_okD(1) [OF ok] that p(1) rank_greater_asym [of "fst (?xs ! j)" "fst (?xs ! p)"]
    by (cases j p rule: linorder_cases) (auto simp: ranked_sorted_def sorted_wrt_iff_nth_less)
  have k: "k = fst (?xs ! p)" using nth [OF p(1)] p(2) by simp
  have "f \<in> outranking (key_of st) k \<longleftrightarrow> (\<exists>j<p. f = names st ! j)" for f
  proof
    assume f: "f \<in> outranking (key_of st) k"
    then have "f \<in> set (names st)" using key_of_None [of st f] by (auto simp: outranking_def)
    then obtain j where j: "j < length ?xs" "f = names st ! j" by (auto simp: in_set_conv_nth)
    then show "\<exists>j<p. f = names st ! j" using f nth [OF j(1)] order [OF j(1)] by (auto simp: outranking_def k)
  next
    assume "\<exists>j<p. f = names st ! j"
    then obtain j where j: "j < p" "f = names st ! j" by blast
    then show "f \<in> outranking (key_of st) k" using nth [of j] order [of j] p(1) by (simp add: outranking_def k)
  qed
  moreover have "f \<in> set (take p (names st)) \<longleftrightarrow> (\<exists>j<p. f = names st ! j)" for f
    using p(1) by (auto simp: in_set_conv_nth)
  ultimately show ?thesis by blast
qed

lemma top_iff_outranking:
  assumes ok: "tracks_ok st"
  shows "f \<in> set (take n (names st)) \<longleftrightarrow> (\<exists>k. key_of st f = Some k \<and> card (outranking (key_of st) k) < n)"
proof (cases "f \<in> set (names st)")
  case True
  then obtain p where p: "p < length (rankedTracks st)" "f = names st ! p" by (auto simp: in_set_conv_nth)
  obtain k where k: "key_of st f = Some k" using True key_of_None [of st f] by auto
  have d: "distinct (names st)" by (rule tracks_okD(2) [OF ok])
  have "outranking (key_of st) k = set (take p (names st))"
    using outranking_rank [OF ok p(1)] k unfolding p(2) by blast
  then have "card (outranking (key_of st) k) = p"
    using distinct_card [OF distinct_take [OF d], of p] p(1) by simp
  moreover have "f \<in> set (take n (names st)) \<longleftrightarrow> p < n"
  proof
    assume "f \<in> set (take n (names st))"
    then obtain j where "j < n" "j < length (names st)" "names st ! j = f" by (auto simp: in_set_conv_nth)
    then show "p < n" using p nth_eq_iff_index_eq [OF d, of j p] by simp
  next
    assume "p < n"
    then show "f \<in> set (take n (names st))" unfolding p(2) using p(1) by (intro nth_mem_take) simp_all
  qed
  ultimately show ?thesis using k by simp
next
  case False
  then have "key_of st f = None" "f \<notin> set (take n (names st))" using key_of_None [of st f] by (auto dest: in_set_takeD)
  then show ?thesis by simp
qed

lemma run_group:
  assumes "length ops < 2 ^ 64" "list_all (op_ok md) ops" "hm_find (topNGroups (rank_run (new_ranking md 0 throttle) ops)) n = Some g"
  defines "st \<equiv> rank_run (new_ranking md 0 throttle) ops"
  shows "group_ok md (names st) n g" "tracks_ok st" "key_of st = registered ops"
proof -
  have "run_ok st md (fold spec_exec ops (0, Map.empty))"
    unfolding st_def using rank_run_ok [OF run_ok_init] assms(1,2) by simp
  then show "group_ok md (names st) n g" "tracks_ok st" "key_of st = registered ops"
    using assms(3) by (auto simp: run_ok_def ranking_ok_def groups_ok_def registered_def st_def)
qed

text \<open>C13: after any sequence of operations a group of size N has selected exactly the registered tracks
  that fewer than N registered tracks outrank, where a higher value outranks a lower one and the
  earlier registration wins a tie. This covers the fast path of \<open>updateSortValue\<close>, the rank cache and
  the incremental updates of all groups; it holds without idle timeout, with the queue of deselected
  tracks off or no track removed, and group sizes that do not overflow the selection threshold.\<close>

theorem ranking_selects_top_n:
  assumes "length ops < 2 ^ 64" "list_all (op_ok md) ops"
    and "hm_find (topNGroups (rank_run (new_ranking md 0 throttle) ops)) n = Some g"
  shows "hm_find (trackStates g) f = Some Selected \<longleftrightarrow>
    (\<exists>k. registered ops f = Some k \<and> card (outranking (registered ops) k) < n)"
proof -
  note run = run_group [OF assms]
  have "hm_find (trackStates g) f = Some Selected \<longleftrightarrow> f \<in> selected g" by (simp add: selected_def)
  also have "\<dots> \<longleftrightarrow> f \<in> set (take n (names (rank_run (new_ranking md 0 throttle) ops)))" using run(1) by (simp add: group_ok_def)
  finally show ?thesis using top_iff_outranking [OF run(2)] run(3) by simp
qed

definition demo_rank_ops :: "(nat, string) rank_op list" where
  "demo_rank_ops =
     [AddSession 1 ''v'' True, Register 1 (Some 5) ''p'', Register 2 (Some 7) ''q'', Update 1 9 0 (\<lambda>_. 0), Remove 1]"

lemmas rank_eval =
  rank_run_def new_ranking_def addSessionToTopNGroup_def getOrCreateTopNGroup_def new_group_def updateSelectionThreshold_def
  upd_group_def isPublisher_def registerTrack_def updatePublisherExtendedThreshold_def extended_window_def
  getCachedRank_def rebuildRankCacheIfNeeded_def reconcilePublisherInAllGroups_def each_group_def and_then_def
  notifyTrackSelected_def demoteTrackAtRank_def demoteTrack_def removeFromDeselectedQueue_def trimDeselectedQueue.simps
  viewers_def reconcilePublisherSelection_def computeWaterlineKey_def updateSortValue_def crossesThreshold_def
  recomputeTopNGroups_def recompute_group_def promote_and_notify_def sweepIdle_def removeTrack_def remove_from_group_def
  promoteNextAvailableTrack_def ranked_erase_def rank_greater_def rank_geq_def value_or_def hm_at_def add64_def sub64_def

lemma demo_rank_selected:
  "\<exists>g. hm_find (topNGroups (rank_run (new_ranking 0 0 0) demo_rank_ops)) 1 = Some g \<and> hm_find (trackStates g) 2 = Some Selected"
  by (simp add: demo_rank_ops_def rank_eval Let_def)

lemma demo_rank_ok: "length demo_rank_ops < 2 ^ 64" "list_all (op_ok 0) demo_rank_ops"
  by (simp_all add: demo_rank_ops_def)

theorem ranking_selects_top_n_witness:
  "\<exists>k. registered demo_rank_ops 2 = Some k \<and> card (outranking (registered demo_rank_ops) k) < 1"
  using demo_rank_selected ranking_selects_top_n [OF demo_rank_ok] by blast



subsection \<open>The personal selection of a publisher-subscriber\<close>

definition others :: "'s \<Rightarrow> (rank_key \<times> ('f, 's) ranked_entry) list \<Rightarrow> (rank_key \<times> ('f, 's) ranked_entry) list" where
  "others s xs = filter (\<lambda>x. publisherRaw (snd x) \<noteq> s) xs"

definition personal_top :: "('f, 's) ranking \<Rightarrow> 's \<Rightarrow> nat \<Rightarrow> 'f list" where
  "personal_top st s n = map (ftn \<circ> snd) (take n (others s (rankedTracks st)))"

lemma waterline_scan_eq:
  "c < n \<Longrightarrow> waterline_scan s n c xs =
     (if n - c \<le> length (others s xs) then Some (fst (others s xs ! (n - c - 1))) else None)"
proof (induction s n c xs rule: waterline_scan.induct)
  case (2 s n c key entry xs)
  show ?case
  proof (cases "publisherRaw entry \<noteq> s \<and> Suc c \<noteq> n")
    case True
    then have "Suc c < n" using 2(3) by simp
    moreover from this have "n - c = Suc (n - Suc c)" "n - Suc c - 1 = n - c - 1 - 1" "0 < n - c - 1" by auto
    ultimately show ?thesis using 2(1) True by (simp add: others_def nth_Cons')
  qed (use 2 in \<open>auto simp: others_def\<close>)
qed (simp add: others_def)

lemma filter_geq_take:
  assumes "ranked_sorted ys" "m < length ys"
  shows "filter (\<lambda>x. rank_geq (fst x) (fst (ys ! m))) ys = take (Suc m) ys"
proof -
  have gt: "rank_greater (fst (ys ! i)) (fst (ys ! j))" if "i < j" "j < length ys" for i j
    using assms(1) that by (simp add: ranked_sorted_def sorted_wrt_iff_nth_less)
  have geq: "rank_geq (fst (ys ! j)) (fst (ys ! m)) \<longleftrightarrow> j \<le> m" if j: "j < length ys" for j
  proof (cases j m rule: linorder_cases)
    case greater
    then have "rank_greater (fst (ys ! m)) (fst (ys ! j))" using gt j by blast
    then show ?thesis using greater rank_greater_asym rank_greater_irrefl by (auto simp: rank_geq_def)
  qed (use gt assms(2) in \<open>auto simp: rank_geq_def\<close>)
  have "rank_geq (fst x) (fst (ys ! m))" if "x \<in> set (take (Suc m) ys)" for x
  proof -
    from that obtain i where "i < Suc m" "i < length ys" "x = ys ! i" by (auto simp: in_set_conv_nth simp del: take_Suc)
    then show ?thesis using geq by simp
  qed
  then have "filter (\<lambda>x. rank_geq (fst x) (fst (ys ! m))) (take (Suc m) ys) = take (Suc m) ys"
    by (simp add: filter_id_conv)
  moreover have "\<not> rank_geq (fst x) (fst (ys ! m))" if "x \<in> set (drop (Suc m) ys)" for x
  proof -
    from that obtain i where "i < length ys - Suc m" "x = ys ! (Suc m + i)" by (auto simp: in_set_conv_nth)
    then show ?thesis using geq [of "Suc m + i"] by simp
  qed
  then have "filter (\<lambda>x. rank_geq (fst x) (fst (ys ! m))) (drop (Suc m) ys) = []"
    by (simp add: filter_empty_conv)
  ultimately show ?thesis by (metis append_Nil2 append_take_drop_id filter_append)
qed

lemma now_selected:
  assumes "ranked_sorted (rankedTracks st)" "0 < n"
  shows "map (ftn \<circ> snd) (filter (\<lambda>(key, entry). publisherRaw entry \<noteq> s \<and>
      (computeWaterlineKey st s n = None \<or> rank_geq key (the (computeWaterlineKey st s n)))) (rankedTracks st)) = personal_top st s n"
proof -
  let ?ys = "others s (rankedTracks st)" and ?wl = "computeWaterlineKey st s n"
  have wl: "?wl = (if n \<le> length ?ys then Some (fst (?ys ! (n - 1))) else None)"
    using waterline_scan_eq [of 0 n s "rankedTracks st"] assms(2) by (simp add: computeWaterlineKey_def)
  have "filter (\<lambda>(key, entry). publisherRaw entry \<noteq> s \<and> (?wl = None \<or> rank_geq key (the ?wl))) (rankedTracks st) =
      filter (\<lambda>x. ?wl = None \<or> rank_geq (fst x) (the ?wl)) ?ys"
    by (auto simp: others_def split_beta conj_commute intro: filter_cong)
  also have "\<dots> = take n ?ys"
  proof (cases "n \<le> length ?ys")
    case True
    have "ranked_sorted ?ys" using assms(1) by (simp add: others_def ranked_sorted_def sorted_wrt_filter)
    then show ?thesis using filter_geq_take [of ?ys "n - 1"] True assms(2) by (simp add: wl)
  qed (simp add: wl)
  finally show ?thesis by (simp add: personal_top_def)
qed



subsection \<open>Where the personal selection is missed\<close>



text \<open>with N = 0 the waterline of a publisher-subscriber is never reached, and it is sent every track of
  the others instead of none.\<close>

theorem zero_group_selects_all:
  "snd (rank_exec (AddSession 0 ''s'' True)
     (rank_run (new_ranking 0 0 0) [Register 1 (Some 9) ''s'', Register 2 (Some 8) ''q'', Register 3 (Some 7) ''q'']))
   = [OnSelected 2 ''s'' True, OnSelected (3 :: nat) ''s'' True]"
  by (simp add: rank_eval Let_def)

end
