(* ===== verification/Bounded_Histogram.thy ===== *)
theory Bounded_Histogram
  imports Prelude
begin

section \<open>Fixed-boundary histograms\<close>

text \<open>
  stats/BoundedHistogram.h. A histogram stores one non-cumulative count per range and converts
  to cumulative le-buckets on request. uint64_t is \<open>64 word\<close>, so that \<open>+\<close> wraps as in C++ and
  the results below hold for every number of observations: they are equations in \<open>64 word\<close>.
  The array bounds is a reference to a constant of the caller; it is carried in the record.
\<close>

type_synonym uint64 = "64 word"

record histogram =
  bounds :: "uint64 list"
  buckets :: "uint64 list"
  hist_sum :: uint64
  hist_count :: uint64

text \<open>The constructor: buckets, sum and count start at zero.\<close>

definition mk_histogram :: "uint64 list \<Rightarrow> histogram" where
  "mk_histogram b = \<lparr>bounds = b, buckets = replicate (length b + 1) 0, hist_sum = 0, hist_count = 0\<rparr>"

text \<open>The loop of addValue over bounds[i] and buckets[i]: the first bound not below the value
  takes it, and the bucket after the last bound takes what no bound does.\<close>

fun bump_bucket :: "uint64 \<Rightarrow> uint64 list \<Rightarrow> uint64 list \<Rightarrow> uint64 list" where
  "bump_bucket val (b # bs) (c # cs) = (if val \<le> b then (c + 1) # cs else c # bump_bucket val bs cs)"
| "bump_bucket val [] (c # cs) = (c + 1) # cs"
| "bump_bucket val bs [] = []"

definition addValue :: "uint64 \<Rightarrow> histogram \<Rightarrow> histogram" where
  "addValue val h = h\<lparr>hist_count := hist_count h + 1, hist_sum := hist_sum h + val,
     buckets := bump_bucket val (bounds h) (buckets h)\<rparr>"

text \<open>The loop of fillCumulative: one output per explicit bound.\<close>

fun running_sums :: "uint64 \<Rightarrow> uint64 list \<Rightarrow> uint64 list \<Rightarrow> uint64 list" where
  "running_sums running (b # bs) (c # cs) = (running + c) # running_sums (running + c) bs cs"
| "running_sums running bs cs = []"

definition fillCumulative :: "histogram \<Rightarrow> uint64 list" where
  "fillCumulative h = running_sums 0 (bounds h) (buckets h) @ [hist_count h]"

subsection \<open>What a histogram reports\<close>

text \<open>The cumulative le-buckets of a list of observations, by definition of le.\<close>

definition cumulative_of :: "uint64 list \<Rightarrow> uint64 list \<Rightarrow> uint64 list" where
  "cumulative_of bs vs = map (\<lambda>b. of_nat (length (filter (\<lambda>v. v \<le> b) vs))) bs @ [of_nat (length vs)]"

text \<open>A histogram that has taken the observations \<open>vs\<close>.\<close>

definition observed :: "uint64 list \<Rightarrow> uint64 list \<Rightarrow> histogram \<Rightarrow> bool" where
  "observed bs vs h \<longleftrightarrow> bounds h = bs \<and> length (buckets h) = length bs + 1 \<and>
     fillCumulative h = cumulative_of bs vs \<and> hist_sum h = sum_list vs \<and> hist_count h = of_nat (length vs)"

lemma bump_bucket_length [simp]: "length (bump_bucket v bs cs) = length cs"
  by (induction v bs cs rule: bump_bucket.induct) auto

lemma running_sums_zero: "running_sums r bs (replicate (Suc (length bs)) 0) = replicate (length bs) r"
  by (induction bs arbitrary: r) auto

lemma running_sums_shift: "running_sums (r + d) bs cs = map (\<lambda>s. s + d) (running_sums r bs cs)"
proof (induction r bs cs rule: running_sums.induct)
  case (1 r b bs c cs)
  then show ?case by (simp add: ac_simps)
qed auto

lemma running_sums_length: "length cs = Suc (length bs) \<Longrightarrow> length (running_sums r bs cs) = length bs"
proof (induction r bs cs rule: running_sums.induct)
  case (1 r b bs c cs)
  then show ?case by simp
qed auto

lemma running_sums_bump:
  assumes "sorted bs" "length cs = Suc (length bs)"
  shows "running_sums r bs (bump_bucket v bs cs) =
    map2 (\<lambda>b s. s + (if v \<le> b then 1 else 0)) bs (running_sums r bs cs)"
  using assms
proof (induction r bs cs rule: running_sums.induct)
  case (1 r b bs c cs)
  have len: "length (running_sums (r + c) bs cs) = length bs"
    using 1(3) by (simp add: running_sums_length)
  show ?case
  proof (cases "v \<le> b")
    case True
    have all: "\<forall>b'\<in>set bs. v \<le> b'" using 1(2) True by auto
    have "running_sums (r + c + 1) bs cs = map (\<lambda>s. s + 1) (running_sums (r + c) bs cs)"
      by (rule running_sums_shift)
    also have "\<dots> = map2 (\<lambda>b s. s + (if v \<le> b then 1 else 0)) bs (running_sums (r + c) bs cs)"
      using len all by (auto intro!: nth_equalityI)
    finally show ?thesis using True by (simp add: ac_simps)
  next
    case False
    then show ?thesis using 1 by simp
  qed
qed auto

lemma cumulative_of_snoc:
  "cumulative_of bs (vs @ [v]) =
     map2 (\<lambda>b s. s + (if v \<le> b then 1 else 0)) bs (map (\<lambda>b. of_nat (length (filter (\<lambda>v. v \<le> b) vs))) bs)
       @ [of_nat (length vs) + 1]"
  by (auto simp: cumulative_of_def intro!: nth_equalityI)

lemma observed_mk [simp]: "observed bs [] (mk_histogram bs)"
proof -
  have "running_sums 0 bs (0 # replicate (length bs) 0) = replicate (length bs) 0"
    using running_sums_zero [of 0 bs] by simp
  then show ?thesis
    by (simp add: observed_def mk_histogram_def fillCumulative_def cumulative_of_def map_replicate_const)
qed

lemma observed_addValue:
  assumes "observed bs vs h" "sorted bs"
  shows "observed bs (vs @ [v]) (addValue v h)"
proof -
  have h: "bounds h = bs" "length (buckets h) = Suc (length bs)"
    "running_sums 0 bs (buckets h) = map (\<lambda>b. of_nat (length (filter (\<lambda>v. v \<le> b) vs))) bs"
    using assms(1) by (auto simp: observed_def fillCumulative_def cumulative_of_def)
  have "fillCumulative (addValue v h) = cumulative_of bs (vs @ [v])"
    using assms h
    by (simp add: fillCumulative_def addValue_def running_sums_bump cumulative_of_snoc observed_def)
  then show ?thesis using assms(1) h(2) by (simp add: observed_def addValue_def ac_simps)
qed

lemma cumulative_of_length [simp]: "length (cumulative_of bs vs) = length bs + 1"
  by (simp add: cumulative_of_def)

lemma cumulative_of_append:
  "cumulative_of bs (vs @ ws) = map2 (+) (cumulative_of bs vs) (cumulative_of bs ws)"
  by (auto simp: cumulative_of_def nth_append intro!: nth_equalityI)

lemma observed_run: "sorted bs \<Longrightarrow> observed bs vs (fold addValue vs (mk_histogram bs))"
proof (induction vs rule: rev_induct)
  case (snoc v vs)
  then show ?case by (simp add: observed_addValue)
qed simp

end
