(* ===== verification/Stats_Registry.thy ===== *)
theory Stats_Registry
  imports Bounded_Histogram
begin

section \<open>Statistics snapshots and their Prometheus text\<close>

text \<open>
  stats/StatsRegistry.h and stats/StatsRegistry.cpp. The STATS_*_FIELDS macros are the
  enumerations below, with one list per macro in the macro's order; a struct whose fields a macro
  declares is a function from the enumeration (field access and assignment are application and
  update). uint64_t and int64_t are \<open>64 word\<close>; a gauge is read with \<open>sint\<close>.
  \<open>formatPrometheus\<close> is the exposition text; \<open>scrape\<close> is a reader of that text format, and the
  lemmas on it show that it reads every field back.
\<close>

subsection \<open>Bucket bounds\<close>

definition kLatencyBucketsUs :: "uint64 list" where
  "kLatencyBucketsUs = [10, 50, 100, 250, 500, 1000, 2000, 5000, 10000, 50000, 100000]"

definition kRttBucketsMs :: "uint64 list" where
  "kRttBucketsMs = [1, 5, 10, 25, 50, 100, 250, 500, 1000, 5000]"

definition kBandwidthBucketsBitsPerSec :: "uint64 list" where
  "kBandwidthBucketsBitsPerSec = [1000000, 5000000, 10000000, 25000000, 50000000, 100000000,
     250000000, 500000000, 1000000000, 10000000000]"

definition kInflightBytesBuckets :: "uint64 list" where
  "kInflightBytesBuckets = [4096, 65536, 262144, 1048576, 4194304, 16777216, 67108864]"

definition kEvbLoopBucketsUs :: "uint64 list" where
  "kEvbLoopBucketsUs = [50, 100, 250, 500, 1000, 2500, 5000, 10000, 25000, 50000, 100000]"

definition kEvbPktsPerLoopBuckets :: "uint64 list" where
  "kEvbPktsPerLoopBuckets = [0, 1, 2, 4, 8, 16, 32, 64, 128, 256, 512, 1024]"

subsection \<open>The fields\<close>

datatype moq_counter =
  PubSubscribeSuccess | PubSubscribeError | PubFetchSuccess | PubFetchError |
  PubPublishNamespaceSuccess | PubPublishNamespaceError | PubPublishNamespaceDone |
  PubPublishNamespaceCancel | PubSubscribeNamespaceSuccess | PubSubscribeNamespaceError |
  PubUnsubscribeNamespace | PubPublishDone | PubSubscriptionStreamOpened |
  PubSubscriptionStreamClosed | PubTrackStatus | PubRequestUpdate | MoqPublishSuccess |
  MoqPublishError | SubSubscribeSuccess | SubSubscribeError | SubFetchSuccess | SubFetchError |
  SubPublishNamespaceSuccess | SubPublishNamespaceError | SubPublishNamespaceDone |
  SubPublishNamespaceCancel | SubSubscribeNamespaceSuccess | SubSubscribeNamespaceError |
  SubUnsubscribeNamespace | SubPublishDone | SubSubscriptionStreamOpened |
  SubSubscriptionStreamClosed | SubTrackStatus | SubRequestUpdate | MoqPublishReceived |
  MoqPublishOkSent | SubPublishError

datatype quic_counter =
  QuicPacketsReceived | QuicPacketsSent | QuicPacketsDropped | QuicPacketLoss |
  QuicPacketRetransmissions | QuicConnectionsCreated | QuicConnectionsClosed |
  QuicStreamsCreated | QuicStreamsClosed | QuicStreamsReset | QuicConnFlowControlBlocked |
  QuicStreamFlowControlBlocked | QuicCwndBlocked | QuicBytesRead | QuicBytesWritten |
  QuicDatagramsDroppedOnWrite | QuicDatagramsDroppedOnRead |
  QuicPeerMaxUniStreamsLimitSaturated | QuicPeerMaxBidiStreamsLimitSaturated |
  QuicSocketWriteAgain | QuicSocketWriteNobufs | QuicSocketWriteOther | QuicPacketsProcessed |
  QuicPTO | QuicPacketSpuriousLoss | QuicPersistentCongestion |
  QuicConnectionWritableBytesLimited | QuicConnectionRateLimited | QuicPacerTimerLagged

datatype counter = MoqCounter moq_counter | QuicCounter quic_counter

datatype quic_gauge =
  QuicActiveConnections | QuicActiveStreams

datatype moq_gauge =
  PubActiveSubscriptions | PubActivePublishers | PubActivePublishNamespaces |
  PubActiveSubscribeNamespaces | PubActiveSubscriptionStreams | SubActiveSubscriptions |
  SubActivePublishers | SubActivePublishNamespaces | SubActiveSubscribeNamespaces |
  SubActiveSubscriptionStreams | MoqActiveSessions

datatype gauge = QuicGauge quic_gauge | MoqGauge moq_gauge

datatype moq_histogram =
  MoqSubscribeLatency | MoqFetchLatency | MoqPublishNamespaceLatency | MoqPublishLatency

datatype quic_histogram =
  QuicRttSample | QuicBandwidthSample | QuicInflightBytesSample | QuicCwndHintBytesSample |
  EvbPktsSentPerLoop | EvbPktsRecvPerLoop

datatype evb_histogram =
  EvbLoopBusy | EvbLoopIdle

datatype histogram_field = MoqHistogram moq_histogram | QuicHistogram quic_histogram | EvbHistogram evb_histogram

datatype error_counter =
  PubSubscribeErrorByCodes | PubFetchErrorByCodes | PubPublishNamespaceErrorByCodes |
  PubSubscribeNamespaceErrorByCodes | MoqPublishErrorByCodes | SubSubscribeErrorByCodes |
  SubFetchErrorByCodes | SubPublishNamespaceErrorByCodes | SubSubscribeNamespaceErrorByCodes |
  SubPublishErrorByCodes

text \<open>The macros' lists, the names their arguments are stringified to, and the bounds and units of
  the histograms.\<close>

definition moq_counter_fields :: "moq_counter list" where
  "moq_counter_fields =
    [PubSubscribeSuccess, PubSubscribeError, PubFetchSuccess, PubFetchError,
    PubPublishNamespaceSuccess, PubPublishNamespaceError, PubPublishNamespaceDone,
    PubPublishNamespaceCancel, PubSubscribeNamespaceSuccess, PubSubscribeNamespaceError,
    PubUnsubscribeNamespace, PubPublishDone, PubSubscriptionStreamOpened,
    PubSubscriptionStreamClosed, PubTrackStatus, PubRequestUpdate, MoqPublishSuccess,
    MoqPublishError, SubSubscribeSuccess, SubSubscribeError, SubFetchSuccess, SubFetchError,
    SubPublishNamespaceSuccess, SubPublishNamespaceError, SubPublishNamespaceDone,
    SubPublishNamespaceCancel, SubSubscribeNamespaceSuccess, SubSubscribeNamespaceError,
    SubUnsubscribeNamespace, SubPublishDone, SubSubscriptionStreamOpened,
    SubSubscriptionStreamClosed, SubTrackStatus, SubRequestUpdate, MoqPublishReceived,
    MoqPublishOkSent, SubPublishError]"

definition quic_counter_fields :: "quic_counter list" where
  "quic_counter_fields =
    [QuicPacketsReceived, QuicPacketsSent, QuicPacketsDropped, QuicPacketLoss,
    QuicPacketRetransmissions, QuicConnectionsCreated, QuicConnectionsClosed,
    QuicStreamsCreated, QuicStreamsClosed, QuicStreamsReset, QuicConnFlowControlBlocked,
    QuicStreamFlowControlBlocked, QuicCwndBlocked, QuicBytesRead, QuicBytesWritten,
    QuicDatagramsDroppedOnWrite, QuicDatagramsDroppedOnRead,
    QuicPeerMaxUniStreamsLimitSaturated, QuicPeerMaxBidiStreamsLimitSaturated,
    QuicSocketWriteAgain, QuicSocketWriteNobufs, QuicSocketWriteOther, QuicPacketsProcessed,
    QuicPTO, QuicPacketSpuriousLoss, QuicPersistentCongestion,
    QuicConnectionWritableBytesLimited, QuicConnectionRateLimited, QuicPacerTimerLagged]"

definition quic_gauge_fields :: "quic_gauge list" where
  "quic_gauge_fields =
    [QuicActiveConnections, QuicActiveStreams]"

definition moq_gauge_fields :: "moq_gauge list" where
  "moq_gauge_fields =
    [PubActiveSubscriptions, PubActivePublishers, PubActivePublishNamespaces,
    PubActiveSubscribeNamespaces, PubActiveSubscriptionStreams, SubActiveSubscriptions,
    SubActivePublishers, SubActivePublishNamespaces, SubActiveSubscribeNamespaces,
    SubActiveSubscriptionStreams, MoqActiveSessions]"

definition moq_histogram_fields :: "moq_histogram list" where
  "moq_histogram_fields =
    [MoqSubscribeLatency, MoqFetchLatency, MoqPublishNamespaceLatency, MoqPublishLatency]"

definition quic_histogram_fields :: "quic_histogram list" where
  "quic_histogram_fields =
    [QuicRttSample, QuicBandwidthSample, QuicInflightBytesSample, QuicCwndHintBytesSample,
    EvbPktsSentPerLoop, EvbPktsRecvPerLoop]"

definition evb_histogram_fields :: "evb_histogram list" where
  "evb_histogram_fields =
    [EvbLoopBusy, EvbLoopIdle]"

definition error_counter_fields :: "error_counter list" where
  "error_counter_fields =
    [PubSubscribeErrorByCodes, PubFetchErrorByCodes, PubPublishNamespaceErrorByCodes,
    PubSubscribeNamespaceErrorByCodes, MoqPublishErrorByCodes, SubSubscribeErrorByCodes,
    SubFetchErrorByCodes, SubPublishNamespaceErrorByCodes, SubSubscribeNamespaceErrorByCodes,
    SubPublishErrorByCodes]"

fun moq_counter_name :: "moq_counter \<Rightarrow> string" where
  "moq_counter_name PubSubscribeSuccess = ''pubSubscribeSuccess''"
| "moq_counter_name PubSubscribeError = ''pubSubscribeError''"
| "moq_counter_name PubFetchSuccess = ''pubFetchSuccess''"
| "moq_counter_name PubFetchError = ''pubFetchError''"
| "moq_counter_name PubPublishNamespaceSuccess = ''pubPublishNamespaceSuccess''"
| "moq_counter_name PubPublishNamespaceError = ''pubPublishNamespaceError''"
| "moq_counter_name PubPublishNamespaceDone = ''pubPublishNamespaceDone''"
| "moq_counter_name PubPublishNamespaceCancel = ''pubPublishNamespaceCancel''"
| "moq_counter_name PubSubscribeNamespaceSuccess = ''pubSubscribeNamespaceSuccess''"
| "moq_counter_name PubSubscribeNamespaceError = ''pubSubscribeNamespaceError''"
| "moq_counter_name PubUnsubscribeNamespace = ''pubUnsubscribeNamespace''"
| "moq_counter_name PubPublishDone = ''pubPublishDone''"
| "moq_counter_name PubSubscriptionStreamOpened = ''pubSubscriptionStreamOpened''"
| "moq_counter_name PubSubscriptionStreamClosed = ''pubSubscriptionStreamClosed''"
| "moq_counter_name PubTrackStatus = ''pubTrackStatus''"
| "moq_counter_name PubRequestUpdate = ''pubRequestUpdate''"
| "moq_counter_name MoqPublishSuccess = ''moqPublishSuccess''"
| "moq_counter_name MoqPublishError = ''moqPublishError''"
| "moq_counter_name SubSubscribeSuccess = ''subSubscribeSuccess''"
| "moq_counter_name SubSubscribeError = ''subSubscribeError''"
| "moq_counter_name SubFetchSuccess = ''subFetchSuccess''"
| "moq_counter_name SubFetchError = ''subFetchError''"
| "moq_counter_name SubPublishNamespaceSuccess = ''subPublishNamespaceSuccess''"
| "moq_counter_name SubPublishNamespaceError = ''subPublishNamespaceError''"
| "moq_counter_name SubPublishNamespaceDone = ''subPublishNamespaceDone''"
| "moq_counter_name SubPublishNamespaceCancel = ''subPublishNamespaceCancel''"
| "moq_counter_name SubSubscribeNamespaceSuccess = ''subSubscribeNamespaceSuccess''"
| "moq_counter_name SubSubscribeNamespaceError = ''subSubscribeNamespaceError''"
| "moq_counter_name SubUnsubscribeNamespace = ''subUnsubscribeNamespace''"
| "moq_counter_name SubPublishDone = ''subPublishDone''"
| "moq_counter_name SubSubscriptionStreamOpened = ''subSubscriptionStreamOpened''"
| "moq_counter_name SubSubscriptionStreamClosed = ''subSubscriptionStreamClosed''"
| "moq_counter_name SubTrackStatus = ''subTrackStatus''"
| "moq_counter_name SubRequestUpdate = ''subRequestUpdate''"
| "moq_counter_name MoqPublishReceived = ''moqPublishReceived''"
| "moq_counter_name MoqPublishOkSent = ''moqPublishOkSent''"
| "moq_counter_name SubPublishError = ''subPublishError''"

fun quic_counter_name :: "quic_counter \<Rightarrow> string" where
  "quic_counter_name QuicPacketsReceived = ''quicPacketsReceived''"
| "quic_counter_name QuicPacketsSent = ''quicPacketsSent''"
| "quic_counter_name QuicPacketsDropped = ''quicPacketsDropped''"
| "quic_counter_name QuicPacketLoss = ''quicPacketLoss''"
| "quic_counter_name QuicPacketRetransmissions = ''quicPacketRetransmissions''"
| "quic_counter_name QuicConnectionsCreated = ''quicConnectionsCreated''"
| "quic_counter_name QuicConnectionsClosed = ''quicConnectionsClosed''"
| "quic_counter_name QuicStreamsCreated = ''quicStreamsCreated''"
| "quic_counter_name QuicStreamsClosed = ''quicStreamsClosed''"
| "quic_counter_name QuicStreamsReset = ''quicStreamsReset''"
| "quic_counter_name QuicConnFlowControlBlocked = ''quicConnFlowControlBlocked''"
| "quic_counter_name QuicStreamFlowControlBlocked = ''quicStreamFlowControlBlocked''"
| "quic_counter_name QuicCwndBlocked = ''quicCwndBlocked''"
| "quic_counter_name QuicBytesRead = ''quicBytesRead''"
| "quic_counter_name QuicBytesWritten = ''quicBytesWritten''"
| "quic_counter_name QuicDatagramsDroppedOnWrite = ''quicDatagramsDroppedOnWrite''"
| "quic_counter_name QuicDatagramsDroppedOnRead = ''quicDatagramsDroppedOnRead''"
| "quic_counter_name QuicPeerMaxUniStreamsLimitSaturated = ''quicPeerMaxUniStreamsLimitSaturated''"
| "quic_counter_name QuicPeerMaxBidiStreamsLimitSaturated = ''quicPeerMaxBidiStreamsLimitSaturated''"
| "quic_counter_name QuicSocketWriteAgain = ''quicSocketWriteAgain''"
| "quic_counter_name QuicSocketWriteNobufs = ''quicSocketWriteNobufs''"
| "quic_counter_name QuicSocketWriteOther = ''quicSocketWriteOther''"
| "quic_counter_name QuicPacketsProcessed = ''quicPacketsProcessed''"
| "quic_counter_name QuicPTO = ''quicPTO''"
| "quic_counter_name QuicPacketSpuriousLoss = ''quicPacketSpuriousLoss''"
| "quic_counter_name QuicPersistentCongestion = ''quicPersistentCongestion''"
| "quic_counter_name QuicConnectionWritableBytesLimited = ''quicConnectionWritableBytesLimited''"
| "quic_counter_name QuicConnectionRateLimited = ''quicConnectionRateLimited''"
| "quic_counter_name QuicPacerTimerLagged = ''quicPacerTimerLagged''"

fun quic_gauge_name :: "quic_gauge \<Rightarrow> string" where
  "quic_gauge_name QuicActiveConnections = ''quicActiveConnections''"
| "quic_gauge_name QuicActiveStreams = ''quicActiveStreams''"

fun moq_gauge_name :: "moq_gauge \<Rightarrow> string" where
  "moq_gauge_name PubActiveSubscriptions = ''pubActiveSubscriptions''"
| "moq_gauge_name PubActivePublishers = ''pubActivePublishers''"
| "moq_gauge_name PubActivePublishNamespaces = ''pubActivePublishNamespaces''"
| "moq_gauge_name PubActiveSubscribeNamespaces = ''pubActiveSubscribeNamespaces''"
| "moq_gauge_name PubActiveSubscriptionStreams = ''pubActiveSubscriptionStreams''"
| "moq_gauge_name SubActiveSubscriptions = ''subActiveSubscriptions''"
| "moq_gauge_name SubActivePublishers = ''subActivePublishers''"
| "moq_gauge_name SubActivePublishNamespaces = ''subActivePublishNamespaces''"
| "moq_gauge_name SubActiveSubscribeNamespaces = ''subActiveSubscribeNamespaces''"
| "moq_gauge_name SubActiveSubscriptionStreams = ''subActiveSubscriptionStreams''"
| "moq_gauge_name MoqActiveSessions = ''moqActiveSessions''"

fun moq_histogram_name :: "moq_histogram \<Rightarrow> string" where
  "moq_histogram_name MoqSubscribeLatency = ''moqSubscribeLatency''"
| "moq_histogram_name MoqFetchLatency = ''moqFetchLatency''"
| "moq_histogram_name MoqPublishNamespaceLatency = ''moqPublishNamespaceLatency''"
| "moq_histogram_name MoqPublishLatency = ''moqPublishLatency''"

fun quic_histogram_name :: "quic_histogram \<Rightarrow> string" where
  "quic_histogram_name QuicRttSample = ''quicRttSample''"
| "quic_histogram_name QuicBandwidthSample = ''quicBandwidthSample''"
| "quic_histogram_name QuicInflightBytesSample = ''quicInflightBytesSample''"
| "quic_histogram_name QuicCwndHintBytesSample = ''quicCwndHintBytesSample''"
| "quic_histogram_name EvbPktsSentPerLoop = ''evbPktsSentPerLoop''"
| "quic_histogram_name EvbPktsRecvPerLoop = ''evbPktsRecvPerLoop''"

fun evb_histogram_name :: "evb_histogram \<Rightarrow> string" where
  "evb_histogram_name EvbLoopBusy = ''evbLoopBusy''"
| "evb_histogram_name EvbLoopIdle = ''evbLoopIdle''"

fun error_counter_name :: "error_counter \<Rightarrow> string" where
  "error_counter_name PubSubscribeErrorByCodes = ''pubSubscribeError''"
| "error_counter_name PubFetchErrorByCodes = ''pubFetchError''"
| "error_counter_name PubPublishNamespaceErrorByCodes = ''pubPublishNamespaceError''"
| "error_counter_name PubSubscribeNamespaceErrorByCodes = ''pubSubscribeNamespaceError''"
| "error_counter_name MoqPublishErrorByCodes = ''moqPublishError''"
| "error_counter_name SubSubscribeErrorByCodes = ''subSubscribeError''"
| "error_counter_name SubFetchErrorByCodes = ''subFetchError''"
| "error_counter_name SubPublishNamespaceErrorByCodes = ''subPublishNamespaceError''"
| "error_counter_name SubSubscribeNamespaceErrorByCodes = ''subSubscribeNamespaceError''"
| "error_counter_name SubPublishErrorByCodes = ''subPublishError''"

fun moq_histogram_bounds :: "moq_histogram \<Rightarrow> uint64 list" where
  "moq_histogram_bounds MoqSubscribeLatency = kLatencyBucketsUs"
| "moq_histogram_bounds MoqFetchLatency = kLatencyBucketsUs"
| "moq_histogram_bounds MoqPublishNamespaceLatency = kLatencyBucketsUs"
| "moq_histogram_bounds MoqPublishLatency = kLatencyBucketsUs"

fun moq_histogram_unit :: "moq_histogram \<Rightarrow> string" where
  "moq_histogram_unit MoqSubscribeLatency = ''microseconds''"
| "moq_histogram_unit MoqFetchLatency = ''microseconds''"
| "moq_histogram_unit MoqPublishNamespaceLatency = ''microseconds''"
| "moq_histogram_unit MoqPublishLatency = ''microseconds''"

fun quic_histogram_bounds :: "quic_histogram \<Rightarrow> uint64 list" where
  "quic_histogram_bounds QuicRttSample = kRttBucketsMs"
| "quic_histogram_bounds QuicBandwidthSample = kBandwidthBucketsBitsPerSec"
| "quic_histogram_bounds QuicInflightBytesSample = kInflightBytesBuckets"
| "quic_histogram_bounds QuicCwndHintBytesSample = kInflightBytesBuckets"
| "quic_histogram_bounds EvbPktsSentPerLoop = kEvbPktsPerLoopBuckets"
| "quic_histogram_bounds EvbPktsRecvPerLoop = kEvbPktsPerLoopBuckets"

fun quic_histogram_unit :: "quic_histogram \<Rightarrow> string" where
  "quic_histogram_unit QuicRttSample = ''milliseconds''"
| "quic_histogram_unit QuicBandwidthSample = ''bits_per_second''"
| "quic_histogram_unit QuicInflightBytesSample = ''bytes''"
| "quic_histogram_unit QuicCwndHintBytesSample = ''bytes''"
| "quic_histogram_unit EvbPktsSentPerLoop = ''packets''"
| "quic_histogram_unit EvbPktsRecvPerLoop = ''packets''"

fun evb_histogram_bounds :: "evb_histogram \<Rightarrow> uint64 list" where
  "evb_histogram_bounds EvbLoopBusy = kEvbLoopBucketsUs"
| "evb_histogram_bounds EvbLoopIdle = kEvbLoopBucketsUs"

fun evb_histogram_unit :: "evb_histogram \<Rightarrow> string" where
  "evb_histogram_unit EvbLoopBusy = ''microseconds''"
| "evb_histogram_unit EvbLoopIdle = ''microseconds''"

fun counter_name :: "counter \<Rightarrow> string" where
  "counter_name (MoqCounter c) = moq_counter_name c"
| "counter_name (QuicCounter c) = quic_counter_name c"

fun gauge_name :: "gauge \<Rightarrow> string" where
  "gauge_name (QuicGauge g) = quic_gauge_name g"
| "gauge_name (MoqGauge g) = moq_gauge_name g"

fun histogram_name :: "histogram_field \<Rightarrow> string" where
  "histogram_name (MoqHistogram h) = moq_histogram_name h"
| "histogram_name (QuicHistogram h) = quic_histogram_name h"
| "histogram_name (EvbHistogram h) = evb_histogram_name h"

fun histogram_bounds :: "histogram_field \<Rightarrow> uint64 list" where
  "histogram_bounds (MoqHistogram h) = moq_histogram_bounds h"
| "histogram_bounds (QuicHistogram h) = quic_histogram_bounds h"
| "histogram_bounds (EvbHistogram h) = evb_histogram_bounds h"

fun histogram_unit :: "histogram_field \<Rightarrow> string" where
  "histogram_unit (MoqHistogram h) = moq_histogram_unit h"
| "histogram_unit (QuicHistogram h) = quic_histogram_unit h"
| "histogram_unit (EvbHistogram h) = evb_histogram_unit h"

text \<open>STATS_COUNTER_FIELDS, STATS_GAUGE_FIELDS and STATS_HISTOGRAM_FIELDS.\<close>

definition counter_fields :: "counter list" where
  "counter_fields = map MoqCounter moq_counter_fields @ map QuicCounter quic_counter_fields"

definition gauge_fields :: "gauge list" where
  "gauge_fields = map QuicGauge quic_gauge_fields @ map MoqGauge moq_gauge_fields"

definition histogram_fields :: "histogram_field list" where
  "histogram_fields = map MoqHistogram moq_histogram_fields @ map QuicHistogram quic_histogram_fields @
     map EvbHistogram evb_histogram_fields"

subsection \<open>Request error codes\<close>

text \<open>kRequestErrorCodeValues lists eight members of moxygen::RequestErrorCode, whose numeric values
  are that library's: the table is an argument. The loop stops before the last slot, which also
  takes every unknown code.\<close>

definition kRequestErrorCodeCount :: nat where
  "kRequestErrorCodeCount = 8"

definition kRequestErrorCodeLabels :: "string list" where
  "kRequestErrorCodeLabels = [''internal_error'', ''unauthorized'', ''timeout'', ''not_supported'',
     ''track_not_exist'', ''invalid_range'', ''going_away'', ''cancelled'']"

definition requestErrorCodeIndex :: "'c list \<Rightarrow> 'c \<Rightarrow> nat" where
  "requestErrorCodeIndex values code =
     (case List.find (\<lambda>i. values ! i = code) [0..<kRequestErrorCodeCount - 1] of
        Some i \<Rightarrow> i | None \<Rightarrow> kRequestErrorCodeCount - 1)"

subsection \<open>StatsSnapshot\<close>

record snapshot =
  counters :: "counter \<Rightarrow> uint64"
  gauges :: "gauge \<Rightarrow> uint64"
  histBuckets :: "histogram_field \<Rightarrow> uint64 list"
  histSum :: "histogram_field \<Rightarrow> uint64"
  histCount :: "histogram_field \<Rightarrow> uint64"
  byCodes :: "error_counter \<Rightarrow> uint64 list"

text \<open>Every field of a default-constructed snapshot is zero.\<close>

definition zero_snapshot :: snapshot where
  "zero_snapshot = \<lparr>counters = (\<lambda>_. 0), gauges = (\<lambda>_. 0),
     histBuckets = (\<lambda>h. replicate (length (histogram_bounds h) + 1) 0),
     histSum = (\<lambda>_. 0), histCount = (\<lambda>_. 0),
     byCodes = (\<lambda>_. replicate kRequestErrorCodeCount 0)\<rparr>"

definition snapshot_add :: "snapshot \<Rightarrow> snapshot \<Rightarrow> snapshot" where
  "snapshot_add s o' = \<lparr>counters = (\<lambda>c. counters s c + counters o' c),
     gauges = (\<lambda>g. gauges s g + gauges o' g),
     histBuckets = (\<lambda>h. map2 (+) (histBuckets s h) (histBuckets o' h)),
     histSum = (\<lambda>h. histSum s h + histSum o' h),
     histCount = (\<lambda>h. histCount s h + histCount o' h),
     byCodes = (\<lambda>e. map2 (+) (byCodes s e) (byCodes o' e))\<rparr>"

subsection \<open>formatPrometheus\<close>

abbreviation nl :: char where "nl \<equiv> CHR 0x0A"
abbreviation quote :: char where "quote \<equiv> CHR 0x22"
abbreviation space :: char where "space \<equiv> CHR 0x20"

text \<open>folly::to<std::string> of an unsigned and of a signed number.\<close>

definition num_text :: "uint64 \<Rightarrow> string" where
  "num_text v = to_string (unat v)"

definition signed_text :: "uint64 \<Rightarrow> string" where
  "signed_text v = (if sint v < 0 then CHR ''-'' # to_string (nat (- sint v)) else to_string (nat (sint v)))"

definition emit_counter :: "snapshot \<Rightarrow> counter \<Rightarrow> string" where
  "emit_counter snap c = (let name = counter_name c in
     ''# HELP moqx_'' @ name @ ''_total'' @ nl # ''# TYPE moqx_'' @ name @ ''_total counter'' @ nl #
     ''moqx_'' @ name @ ''_total '' @ num_text (counters snap c) @ [nl, nl])"

definition emit_gauge :: "snapshot \<Rightarrow> gauge \<Rightarrow> string" where
  "emit_gauge snap g = (let name = gauge_name g in
     ''# HELP moqx_'' @ name @ nl # ''# TYPE moqx_'' @ name @ '' gauge'' @ nl #
     ''moqx_'' @ name @ space # signed_text (gauges snap g) @ [nl, nl])"

definition emit_bucket :: "string \<Rightarrow> string \<Rightarrow> uint64 \<Rightarrow> string" where
  "emit_bucket metric le n =
     ''moqx_'' @ metric @ ''_bucket{le='' @ quote # le @ quote # ''} '' @ num_text n @ [nl]"

definition emit_histogram :: "snapshot \<Rightarrow> histogram_field \<Rightarrow> string" where
  "emit_histogram snap h = (let metric = histogram_name h @ CHR ''_'' # histogram_unit h;
       bvals = histogram_bounds h; bcounts = histBuckets snap h in
     ''# HELP moqx_'' @ metric @ nl # ''# TYPE moqx_'' @ metric @ '' histogram'' @ nl #
     concat (map (\<lambda>i. emit_bucket metric (num_text (bvals ! i)) (bcounts ! i)) [0..<length bvals]) @
     emit_bucket metric ''+Inf'' (last bcounts) @
     ''moqx_'' @ metric @ ''_sum '' @ num_text (histSum snap h) @ nl #
     ''moqx_'' @ metric @ ''_count '' @ num_text (histCount snap h) @ [nl, nl])"

definition emit_error_counter :: "snapshot \<Rightarrow> error_counter \<Rightarrow> string" where
  "emit_error_counter snap e = (let name = error_counter_name e in
     ''# HELP moqx_'' @ name @ ''_by_code_total'' @ '' Error count broken down by RequestErrorCode'' @ nl #
     ''# TYPE moqx_'' @ name @ ''_by_code_total counter'' @ nl #
     concat (map (\<lambda>i. ''moqx_'' @ name @ ''_by_code_total{code='' @ quote # kRequestErrorCodeLabels ! i @
       quote # ''} '' @ num_text (byCodes snap e ! i) @ [nl]) [0..<kRequestErrorCodeCount]) @ [nl])"

definition formatPrometheus :: "snapshot \<Rightarrow> string" where
  "formatPrometheus snap =
     concat (map (emit_counter snap) counter_fields) @ concat (map (emit_gauge snap) gauge_fields) @
     concat (map (emit_histogram snap) histogram_fields) @
     concat (map (emit_error_counter snap) error_counter_fields)"


subsection \<open>Reading the exposition text\<close>

text \<open>A reader of the text format: comment lines and empty lines carry no sample, any other line is
  a series, a space and an integer.\<close>

definition read_int :: "string \<Rightarrow> int" where
  "read_int s = (case s of c # cs \<Rightarrow>
     if c = CHR ''-'' then - int (number_of_digits 10 cs) else int (number_of_digits 10 s) | [] \<Rightarrow> 0)"

definition sample_of :: "string \<Rightarrow> (string \<times> int) option" where
  "sample_of line = (case line of [] \<Rightarrow> None
     | c # _ \<Rightarrow> if c = CHR ''#'' then None
         else Some (takeWhile (\<lambda>c. c \<noteq> space) line, read_int (tl (dropWhile (\<lambda>c. c \<noteq> space) line))))"

fun scrape_from :: "string \<Rightarrow> string \<Rightarrow> (string \<times> int) list" where
  "scrape_from line [] = []"
| "scrape_from line (c # cs) = (if c = nl
     then (case sample_of line of None \<Rightarrow> scrape_from [] cs | Some s \<Rightarrow> s # scrape_from [] cs)
     else scrape_from (line @ [c]) cs)"

definition scrape :: "string \<Rightarrow> (string \<times> int) list" where
  "scrape text = scrape_from [] text"

text \<open>The samples a snapshot has.\<close>

definition bucket_series :: "string \<Rightarrow> string \<Rightarrow> string" where
  "bucket_series metric le = ''moqx_'' @ metric @ ''_bucket{le='' @ quote # le @ quote # ''}''"

definition histogram_samples :: "snapshot \<Rightarrow> histogram_field \<Rightarrow> (string \<times> int) list" where
  "histogram_samples snap h = (let metric = histogram_name h @ CHR ''_'' # histogram_unit h in
     map (\<lambda>(le, n). (bucket_series metric le, uint n))
       (zip (map num_text (histogram_bounds h) @ [''+Inf'']) (histBuckets snap h)) @
     [(''moqx_'' @ metric @ ''_sum'', uint (histSum snap h)),
      (''moqx_'' @ metric @ ''_count'', uint (histCount snap h))])"

definition error_samples :: "snapshot \<Rightarrow> error_counter \<Rightarrow> (string \<times> int) list" where
  "error_samples snap e = map (\<lambda>(code, n).
     (''moqx_'' @ error_counter_name e @ ''_by_code_total{code='' @ quote # code @ quote # ''}'', uint n))
     (zip kRequestErrorCodeLabels (byCodes snap e))"

definition samples :: "snapshot \<Rightarrow> (string \<times> int) list" where
  "samples snap =
     map (\<lambda>c. (''moqx_'' @ counter_name c @ ''_total'', uint (counters snap c))) counter_fields @
     map (\<lambda>g. (''moqx_'' @ gauge_name g, sint (gauges snap g))) gauge_fields @
     concat (map (histogram_samples snap) histogram_fields) @
     concat (map (error_samples snap) error_counter_fields)"

text \<open>The arrays of a snapshot have the lengths their types give them.\<close>

definition snapshot_wf :: "snapshot \<Rightarrow> bool" where
  "snapshot_wf snap \<longleftrightarrow> (\<forall>h. length (histBuckets snap h) = length (histogram_bounds h) + 1) \<and>
     (\<forall>e. length (byCodes snap e) = kRequestErrorCodeCount)"

definition plain :: "string \<Rightarrow> bool" where
  "plain s \<longleftrightarrow> list_all (\<lambda>c. c \<noteq> nl \<and> c \<noteq> space) s"

lemma plain_append [simp]: "plain (s @ t) \<longleftrightarrow> plain s \<and> plain t"
  by (simp add: plain_def)

lemma plain_Cons [simp]: "plain (c # t) \<longleftrightarrow> c \<noteq> nl \<and> c \<noteq> space \<and> plain t"
  by (simp add: plain_def)

lemma plain_Nil [simp]: "plain []"
  by (simp add: plain_def)

lemma plain_to_string [simp]: "plain (to_string n)"
proof -
  have "c \<noteq> nl \<and> c \<noteq> space" if c: "c \<in> set (to_string n)" for c
  proof -
    obtain d where "d < 10" "c = digit_char d" using to_string_chars [OF c] by blast
    then have "char_digit c = d" "c = digit_char d" "of_char c = 48 + d" 
      by (simp_all add: digit_char_def char_digit_def)
    then show ?thesis using \<open>d < 10\<close> by auto
  qed
  then show ?thesis by (simp add: plain_def list_all_iff)
qed

lemma to_string_not_Nil [simp]: "to_string n \<noteq> []"
  by (subst to_string.simps) simp

lemma to_string_hd: "to_string n = c # cs \<Longrightarrow> c \<noteq> CHR ''-''"
proof
  assume "to_string n = c # cs" "c = CHR ''-''"
  then obtain d where "d < 10" "CHR ''-'' = digit_char d"
    using to_string_chars [of c n] by auto
  then have "of_char (CHR ''-'') = 48 + d" by (simp add: digit_char_def)
  then show False by simp
qed

lemma read_to_string [simp]: "read_int (to_string n) = int n"
proof (cases "to_string n")
  case (Cons c cs)
  then have "c \<noteq> CHR ''-''" by (rule to_string_hd)
  moreover have "number_of_digits 10 (c # cs) = n"
    using number_of_to_string [of n] by (simp only: Cons)
  ultimately show ?thesis by (simp add: Cons read_int_def)
qed simp

lemma read_num_text [simp]: "read_int (num_text v) = uint v"
  by (simp add: num_text_def)

lemma read_signed_text [simp]: "read_int (signed_text v) = sint v"
proof (cases "sint v < 0")
  case True
  then show ?thesis by (simp add: signed_text_def read_int_def)
next
  case False
  then show ?thesis by (simp add: signed_text_def)
qed

lemma plain_num_text [simp]: "plain (num_text v)" "plain (signed_text v)"
  by (simp_all add: num_text_def signed_text_def)

lemma moq_names_plain [simp]: "plain (moq_counter_name c)" "plain (moq_gauge_name g)" "plain (moq_histogram_name h)"
  subgoal by (cases c) simp_all
  subgoal by (cases g) simp_all
  subgoal by (cases h) simp_all
  done

lemma quic_names_plain [simp]: "plain (quic_counter_name c)" "plain (quic_gauge_name g)" "plain (quic_histogram_name h)"
  subgoal by (cases c) simp_all
  subgoal by (cases g) simp_all
  subgoal by (cases h) simp_all
  done

lemma names_plain [simp]: "plain (counter_name c)" "plain (gauge_name g)" "plain (error_counter_name e)"
  "plain (histogram_name h)" "plain (histogram_unit h)"
  subgoal by (cases c) simp_all
  subgoal by (cases g) simp_all
  subgoal by (cases e) simp_all
  subgoal
  proof (cases h)
    case (EvbHistogram x) then show ?thesis by (cases x) simp_all
  qed simp_all
  subgoal
  proof (cases h)
    case (EvbHistogram x) then show ?thesis by (cases x) simp_all
  next
    case (QuicHistogram x) then show ?thesis by (cases x) simp_all
  next
    case (MoqHistogram x) then show ?thesis by (cases x) simp_all
  qed
  done

lemma scrape_from_line: "nl \<notin> set l \<Longrightarrow> scrape_from line (l @ nl # rest) =
    (case sample_of (line @ l) of None \<Rightarrow> scrape rest | Some s \<Rightarrow> s # scrape rest)"
  by (induction l arbitrary: line) (auto simp: scrape_def split: option.splits)

lemma plain_nl: "plain s \<Longrightarrow> nl \<notin> set s"
  by (auto simp: plain_def list_all_iff)

lemma plain_space: "plain s \<Longrightarrow> space \<notin> set s"
  by (auto simp: plain_def list_all_iff)

lemma scrape_comment:
  assumes "nl \<notin> set l"
  shows "scrape (CHR ''#'' # l @ nl # rest) = scrape rest"
  using scrape_from_line [of "CHR ''#'' # l" "[]" rest] assms by (simp add: scrape_def sample_of_def)

lemma scrape_empty: "scrape (nl # rest) = scrape rest"
  by (simp add: scrape_def sample_of_def)

lemma scrape_sample:
  assumes "plain (''moqx_'' @ series)" "plain v"
  shows "scrape (''moqx_'' @ series @ space # v @ nl # rest) = (''moqx_'' @ series, read_int v) # scrape rest"
proof -
  let ?s = "''moqx_'' @ series"
  have sp: "\<forall>c\<in>set ?s. c \<noteq> space" using plain_space [OF assms(1)] by auto
  have "sample_of (?s @ space # v) = Some (?s, read_int v)"
    unfolding sample_of_def using sp
    by (simp add: takeWhile_append2 dropWhile_append2 del: append.simps(2)) simp
  moreover have "nl \<notin> set (?s @ space # v)"
    using plain_nl [OF assms(1)] plain_nl [OF assms(2)] by simp
  ultimately show ?thesis
    using scrape_from_line [of "?s @ space # v" "[]" rest] by (simp add: scrape_def)
qed

lemma scrape_counter: "scrape (emit_counter snap c @ rest) =
    (''moqx_'' @ counter_name c @ ''_total'', uint (counters snap c)) # scrape rest"
proof -
  let ?n = "counter_name c"
  have "scrape (''moqx_'' @ (?n @ ''_total'') @ space # num_text (counters snap c) @ nl # nl # rest) =
    (''moqx_'' @ (?n @ ''_total''), uint (counters snap c)) # scrape rest"
    by (subst scrape_sample) (simp_all add: scrape_empty)
  then show ?thesis
    using scrape_comment [of "'' HELP moqx_'' @ ?n @ ''_total''"] scrape_comment [of "'' TYPE moqx_'' @ ?n @ ''_total counter''"]
    by (simp add: emit_counter_def Let_def plain_nl)
qed

lemma scrape_gauge: "scrape (emit_gauge snap g @ rest) =
    (''moqx_'' @ gauge_name g, sint (gauges snap g)) # scrape rest"
proof -
  let ?n = "gauge_name g"
  have "scrape (''moqx_'' @ ?n @ space # signed_text (gauges snap g) @ nl # nl # rest) =
    (''moqx_'' @ ?n, sint (gauges snap g)) # scrape rest"
    by (subst scrape_sample) (simp_all add: scrape_empty)
  then show ?thesis
    using scrape_comment [of "'' HELP moqx_'' @ ?n"] scrape_comment [of "'' TYPE moqx_'' @ ?n @ '' gauge''"]
    by (simp add: emit_gauge_def Let_def plain_nl)
qed

lemma scrape_bucket:
  assumes "plain metric" "plain le"
  shows "scrape (emit_bucket metric le n @ rest) = (bucket_series metric le, uint n) # scrape rest"
proof -
  have "scrape (''moqx_'' @ (metric @ ''_bucket{le='' @ quote # le @ quote # ''}'') @ space # num_text n @ nl # rest) =
    (''moqx_'' @ (metric @ ''_bucket{le='' @ quote # le @ quote # ''}''), uint n) # scrape rest"
    using assms by (subst scrape_sample) simp_all
  then show ?thesis by (simp add: emit_bucket_def bucket_series_def)
qed

lemma scrape_concat:
  assumes "\<And>x rest. x \<in> set xs \<Longrightarrow> scrape (emit x @ rest) = smp x @ scrape rest"
  shows "scrape (concat (map emit xs) @ rest) = concat (map smp xs) @ scrape rest"
  using assms
proof (induction xs)
  case (Cons x xs)
  have "scrape (emit x @ (concat (map emit xs) @ rest)) = smp x @ (concat (map smp xs) @ scrape rest)"
    using Cons by simp
  then show ?case by simp
qed simp

lemma zip_nth: "length xs = n \<Longrightarrow> length ys = n \<Longrightarrow> map (\<lambda>i. f (xs ! i) (ys ! i)) [0..<n] = map (\<lambda>(x, y). f x y) (zip xs ys)"
  by (auto intro: nth_equalityI)

lemma scrape_histogram:
  assumes "length (histBuckets snap h) = length (histogram_bounds h) + 1"
  shows "scrape (emit_histogram snap h @ rest) = histogram_samples snap h @ scrape rest"
proof -
  let ?m = "histogram_name h @ CHR ''_'' # histogram_unit h"
  let ?bs = "histogram_bounds h" and ?cs = "histBuckets snap h"
  obtain cs c where cs: "?cs = cs @ [c]" "length cs = length ?bs"
    using assms by (cases ?cs rule: rev_exhaust) auto
  have m: "plain ?m" by simp
  have tail: "scrape (''moqx_'' @ (?m @ ''_sum'') @ space # num_text s @ nl # ''moqx_'' @ (?m @ ''_count'') @ space # num_text n @ nl # nl # rest)
    = [(''moqx_'' @ (?m @ ''_sum''), uint s), (''moqx_'' @ (?m @ ''_count''), uint n)] @ scrape rest" for s n
    by (subst scrape_sample, simp, simp, subst scrape_sample) (simp_all add: scrape_empty)
  have bks: "scrape (concat (map (\<lambda>i. emit_bucket ?m (num_text (?bs ! i)) (?cs ! i)) [0..<length ?bs]) @ rest') =
    concat (map (\<lambda>i. [(bucket_series ?m (num_text (?bs ! i)), uint (?cs ! i))]) [0..<length ?bs]) @ scrape rest'" for rest'
    by (rule scrape_concat) (simp add: scrape_bucket)
  have "map (\<lambda>i. (bucket_series ?m (num_text (?bs ! i)), uint (?cs ! i))) [0..<length ?bs]
    = map (\<lambda>i. (bucket_series ?m (map num_text ?bs ! i), uint (cs ! i))) [0..<length ?bs]"
    using cs by (simp add: nth_append)
  also have "\<dots> = map (\<lambda>(le, n). (bucket_series ?m le, uint n)) (zip (map num_text ?bs) cs)"
    using cs by (intro zip_nth) simp_all
  finally have z: "map (\<lambda>i. (bucket_series ?m (num_text (?bs ! i)), uint (?cs ! i))) [0..<length ?bs] = \<dots>" .
  have "scrape (emit_histogram snap h @ rest) =
    concat (map (\<lambda>i. [(bucket_series ?m (num_text (?bs ! i)), uint (?cs ! i))]) [0..<length ?bs]) @
    (bucket_series ?m ''+Inf'', uint c) #
    [(''moqx_'' @ (?m @ ''_sum''), uint (histSum snap h)), (''moqx_'' @ (?m @ ''_count''), uint (histCount snap h))] @ scrape rest"
    using scrape_comment [of "'' HELP moqx_'' @ ?m"] scrape_comment [of "'' TYPE moqx_'' @ ?m @ '' histogram''"]
      bks scrape_bucket [OF m, of "''+Inf''"] tail [of "histSum snap h" "histCount snap h"]
    by (simp add: emit_histogram_def Let_def plain_nl cs(1) del: append_assoc)
      (simp add: bks scrape_bucket)
  then show ?thesis
    using z cs by (simp add: histogram_samples_def Let_def concat_map_singleton)
qed

lemma labels_plain: "i < kRequestErrorCodeCount \<Longrightarrow> plain (kRequestErrorCodeLabels ! i)"
proof -
  have "list_all plain kRequestErrorCodeLabels"
    by (simp add: kRequestErrorCodeLabels_def)
  then show "i < kRequestErrorCodeCount \<Longrightarrow> plain (kRequestErrorCodeLabels ! i)"
    by (simp add: list_all_length kRequestErrorCodeCount_def kRequestErrorCodeLabels_def)
qed

lemma scrape_error_counter:
  assumes "length (byCodes snap e) = kRequestErrorCodeCount"
  shows "scrape (emit_error_counter snap e @ rest) = error_samples snap e @ scrape rest"
proof -
  let ?n = "error_counter_name e"
  define series where "series = (\<lambda>l. ?n @ ''_by_code_total{code='' @ quote # l @ quote # ''}'')"
  define line where "line = (\<lambda>i. ''moqx_'' @ series (kRequestErrorCodeLabels ! i) @ space # num_text (byCodes snap e ! i) @ [nl])"
  have "scrape (line i @ rest') = [(''moqx_'' @ series (kRequestErrorCodeLabels ! i), uint (byCodes snap e ! i))] @ scrape rest'"
    if "i \<in> set [0..<kRequestErrorCodeCount]" for i rest'
  proof -
    have "plain (''moqx_'' @ series (kRequestErrorCodeLabels ! i))"
      using that labels_plain by (simp add: series_def)
    then show ?thesis
      using scrape_sample [of "series (kRequestErrorCodeLabels ! i)" "num_text (byCodes snap e ! i)" rest']
      by (simp add: line_def)
  qed
  then have codes: "scrape (concat (map line [0..<kRequestErrorCodeCount]) @ rest') =
    concat (map (\<lambda>i. [(''moqx_'' @ series (kRequestErrorCodeLabels ! i), uint (byCodes snap e ! i))]) [0..<kRequestErrorCodeCount])
      @ scrape rest'" for rest'
    by (rule scrape_concat)
  have z: "map (\<lambda>i. (''moqx_'' @ series (kRequestErrorCodeLabels ! i), uint (byCodes snap e ! i))) [0..<kRequestErrorCodeCount]
    = error_samples snap e"
    unfolding error_samples_def series_def using assms
    by (intro zip_nth) (simp_all add: kRequestErrorCodeLabels_def kRequestErrorCodeCount_def)
  have "emit_error_counter snap e = CHR ''#'' # ('' HELP moqx_'' @ ?n @ ''_by_code_total Error count broken down by RequestErrorCode'') @ nl #
     CHR ''#'' # ('' TYPE moqx_'' @ ?n @ ''_by_code_total counter'') @ nl # concat (map line [0..<kRequestErrorCodeCount]) @ [nl]"
    by (simp add: emit_error_counter_def Let_def line_def series_def)
  then have "scrape (emit_error_counter snap e @ rest) = scrape (concat (map line [0..<kRequestErrorCodeCount]) @ nl # rest)"
    using scrape_comment [of "'' HELP moqx_'' @ ?n @ ''_by_code_total Error count broken down by RequestErrorCode''"]
      scrape_comment [of "'' TYPE moqx_'' @ ?n @ ''_by_code_total counter''"]
    by (simp add: plain_nl)
  then show ?thesis using z by (simp add: codes scrape_empty concat_map_singleton)
qed

lemma scrape_Nil [simp]: "scrape [] = []"
  by (simp add: scrape_def)

lemma scrape_samples:
  assumes "snapshot_wf snap"
  shows "scrape (formatPrometheus snap) = samples snap"
proof -
  have c: "scrape (concat (map (emit_counter snap) counter_fields) @ rest) =
    map (\<lambda>c. (''moqx_'' @ counter_name c @ ''_total'', uint (counters snap c))) counter_fields @ scrape rest" for rest
    by (subst scrape_concat [where smp = "\<lambda>c. [(''moqx_'' @ counter_name c @ ''_total'', uint (counters snap c))]"])
      (simp_all add: scrape_counter concat_map_singleton)
  have g: "scrape (concat (map (emit_gauge snap) gauge_fields) @ rest) =
    map (\<lambda>g. (''moqx_'' @ gauge_name g, sint (gauges snap g))) gauge_fields @ scrape rest" for rest
    by (subst scrape_concat [where smp = "\<lambda>g. [(''moqx_'' @ gauge_name g, sint (gauges snap g))]"])
      (simp_all add: scrape_gauge concat_map_singleton)
  have h: "scrape (concat (map (emit_histogram snap) histogram_fields) @ rest) =
    concat (map (histogram_samples snap) histogram_fields) @ scrape rest" for rest
    using assms by (intro scrape_concat scrape_histogram) (simp add: snapshot_wf_def)
  have e: "scrape (concat (map (emit_error_counter snap) error_counter_fields) @ []) =
    concat (map (error_samples snap) error_counter_fields) @ scrape []"
    using assms by (intro scrape_concat scrape_error_counter) (simp add: snapshot_wf_def)
  show ?thesis using e by (simp add: formatPrometheus_def samples_def c g h)
qed

text \<open>The series names do not depend on the values.\<close>

definition histogram_series :: "histogram_field \<Rightarrow> string list" where
  "histogram_series h = (let metric = histogram_name h @ CHR ''_'' # histogram_unit h in
     map (bucket_series metric) (map num_text (histogram_bounds h) @ [''+Inf'']) @
     [''moqx_'' @ metric @ ''_sum'', ''moqx_'' @ metric @ ''_count''])"

definition error_series :: "error_counter \<Rightarrow> string list" where
  "error_series e = map (\<lambda>code. ''moqx_'' @ error_counter_name e @ ''_by_code_total{code='' @ quote # code @ quote # ''}'')
     kRequestErrorCodeLabels"

definition all_series :: "string list" where
  "all_series = map (\<lambda>c. ''moqx_'' @ counter_name c @ ''_total'') counter_fields @
     map (\<lambda>g. ''moqx_'' @ gauge_name g) gauge_fields @
     concat (map histogram_series histogram_fields) @ concat (map error_series error_counter_fields)"

lemma zip_series: "length xs = length ys \<Longrightarrow> map fst (map (\<lambda>(x, y). (f x, g y)) (zip xs ys)) = map f xs"
  by (induction xs ys rule: list_induct2) simp_all

lemma samples_series:
  assumes "snapshot_wf snap"
  shows "map fst (samples snap) = all_series"
proof -
  have h: "map fst (histogram_samples snap h) = histogram_series h" for h
  proof -
    let ?ls = "map num_text (histogram_bounds h) @ [''+Inf'']"
    have "length ?ls = length (histBuckets snap h)" using assms by (simp add: snapshot_wf_def)
    note zip_series [OF this, of "bucket_series (histogram_name h @ CHR ''_'' # histogram_unit h)" uint]
    then show ?thesis unfolding histogram_samples_def histogram_series_def Let_def by simp
  qed
  have e: "map fst (error_samples snap e) = error_series e" for e
  proof -
    have "length kRequestErrorCodeLabels = length (byCodes snap e)"
      using assms by (simp add: snapshot_wf_def kRequestErrorCodeLabels_def kRequestErrorCodeCount_def)
    note zip_series [OF this]
    then show ?thesis unfolding error_samples_def error_series_def by (simp del: map_map)
  qed
  show ?thesis by (simp add: samples_def all_series_def map_concat comp_def h e)
qed


subsubsection \<open>No series twice\<close>

lemma distinct_concat_owner:
  assumes "distinct (map own xs)" "\<And>x. x \<in> set xs \<Longrightarrow> distinct (f x)"
    "\<And>x s. x \<in> set xs \<Longrightarrow> s \<in> set (f x) \<Longrightarrow> g s = own x"
  shows "distinct (concat (map f xs))"
  using assms
proof (induction xs)
  case (Cons x xs)
  have "s \<notin> set (f y)" if "s \<in> set (f x)" "y \<in> set xs" for s y
  proof
    assume "s \<in> set (f y)"
    then have "own y = own x" using Cons.prems(3) [of y s] Cons.prems(3) [of x s] that by simp
    then show False using Cons.prems(1) that(2) by (auto simp: image_iff)
  qed
  then have "set (f x) \<inter> set (concat (map f xs)) = {}" by auto
  moreover have "distinct (concat (map f xs))"
    by (rule Cons.IH) (use Cons.prems in auto)
  ultimately show ?case using Cons.prems(2) by auto
qed simp

lemma num_text_inj: "num_text v = num_text w \<Longrightarrow> v = w"
  unfolding num_text_def by (drule to_string_inj) (simp add: word_unat_eq_iff)

lemma num_text_chars: "c \<in> set (num_text v) \<Longrightarrow> 48 \<le> (of_char c :: nat) \<and> (of_char c :: nat) < 58"
  using to_string_chars [of c "unat v"] by (auto simp: num_text_def digit_char_def)

lemma bounds_distinct: "distinct (histogram_bounds h)"
proof (cases h)
  case (MoqHistogram x)
  then show ?thesis by (cases x) (simp_all add: kLatencyBucketsUs_def)
next
  case (QuicHistogram x)
  then show ?thesis
    by (cases x) (simp_all add: kRttBucketsMs_def kBandwidthBucketsBitsPerSec_def kInflightBytesBuckets_def
      kEvbPktsPerLoopBuckets_def)
next
  case (EvbHistogram x)
  then show ?thesis by (cases x) (simp_all add: kEvbLoopBucketsUs_def)
qed

lemma inf_not_num: "num_text v \<noteq> ''+Inf''"
proof
  assume "num_text v = ''+Inf''"
  then have "CHR ''+'' \<in> set (num_text v)" by simp
  then show False using num_text_chars by force
qed

definition before_last_underscore :: "string \<Rightarrow> string" where
  "before_last_underscore s = rev (tl (dropWhile (\<lambda>c. c \<noteq> CHR ''_'') (rev s)))"

lemma before_last_underscore_eq: "CHR ''_'' \<notin> set t \<Longrightarrow> before_last_underscore (s @ CHR ''_'' # t) = s"
proof -
  assume "CHR ''_'' \<notin> set t"
  then have "dropWhile (\<lambda>c. c \<noteq> CHR ''_'') (rev t @ CHR ''_'' # rev s) = CHR ''_'' # rev s"
    by (subst dropWhile_append2) auto
  then show ?thesis by (simp add: before_last_underscore_def)
qed

lemma histogram_series_owner:
  assumes "s \<in> set (histogram_series h)"
  shows "before_last_underscore s = ''moqx_'' @ histogram_name h @ CHR ''_'' # histogram_unit h"
proof -
  let ?m = "''moqx_'' @ histogram_name h @ CHR ''_'' # histogram_unit h"
  have num: "CHR ''_'' \<notin> set (num_text v)" for v using num_text_chars [of "CHR ''_''" v] by auto
  from assms consider v where "s = ?m @ CHR ''_'' # (''bucket{le='' @ quote # num_text v @ quote # ''}'')"
    | "s = ?m @ CHR ''_'' # (''bucket{le='' @ quote # ''+Inf'' @ quote # ''}'')"
    | "s = ?m @ CHR ''_'' # ''sum''" | "s = ?m @ CHR ''_'' # ''count''"
    by (auto simp: histogram_series_def Let_def bucket_series_def)
  then show ?thesis
  proof cases
    case 1
    show ?thesis unfolding 1 by (rule before_last_underscore_eq) (simp add: num)
  next
    case 2
    show ?thesis unfolding 2 by (rule before_last_underscore_eq) simp
  next
    case 3
    show ?thesis unfolding 3 by (rule before_last_underscore_eq) simp
  next
    case 4
    show ?thesis unfolding 4 by (rule before_last_underscore_eq) simp
  qed
qed

lemma histogram_series_distinct: "distinct (histogram_series h)"
proof -
  let ?m = "histogram_name h @ CHR ''_'' # histogram_unit h"
  have "inj (bucket_series ?m)" by (rule injI) (simp add: bucket_series_def)
  moreover have "distinct (map num_text (histogram_bounds h) @ [''+Inf''])"
    using bounds_distinct [of h] inf_not_num
    by (auto simp: distinct_map intro!: inj_onI dest: num_text_inj) metis
  ultimately have "distinct (map (bucket_series ?m) (map num_text (histogram_bounds h) @ [''+Inf'']))"
    by (metis distinct_map inj_on_subset subset_UNIV)
  moreover have "last (bucket_series ?m le) = CHR ''}''" for le
    by (simp add: bucket_series_def)
  ultimately show ?thesis unfolding histogram_series_def Let_def distinct_append
    by (auto dest!: arg_cong [where f = last])
qed

lemma error_series_owner:
  assumes "s \<in> set (error_series e)"
  shows "takeWhile (\<lambda>c. c \<noteq> CHR ''{'') s = ''moqx_'' @ error_counter_name e @ ''_by_code_total''"
proof -
  have e: "CHR ''{'' \<notin> set (error_counter_name e)" by (cases e) simp_all
  obtain code where s: "s = (''moqx_'' @ error_counter_name e @ ''_by_code_total'') @ CHR ''{'' # ''code='' @ quote # code @ quote # ''}''"
    using assms by (auto simp: error_series_def)
  show ?thesis unfolding s using e by (subst takeWhile_append2) auto
qed

lemma error_series_distinct: "distinct (error_series e)"
  by (simp add: error_series_def kRequestErrorCodeLabels_def)

lemma counter_series_distinct: "distinct (map (\<lambda>c. ''moqx_'' @ counter_name c @ ''_total'') counter_fields)"
proof -
  have "distinct (map counter_name counter_fields)"
    by (simp add: counter_fields_def moq_counter_fields_def quic_counter_fields_def)
  then have "inj_on counter_name (set counter_fields)" "distinct counter_fields"
    by (simp_all add: distinct_map)
  then show ?thesis by (simp add: distinct_map inj_on_def)
qed

lemma gauge_series_distinct: "distinct (map (\<lambda>g. ''moqx_'' @ gauge_name g) gauge_fields)"
  by (simp add: gauge_fields_def moq_gauge_fields_def quic_gauge_fields_def)

lemma histograms_series_distinct: "distinct (concat (map histogram_series histogram_fields))"
proof (rule distinct_concat_owner [where g = before_last_underscore and
      own = "\<lambda>h. ''moqx_'' @ histogram_name h @ CHR ''_'' # histogram_unit h"])
  show "distinct (map (\<lambda>h. ''moqx_'' @ histogram_name h @ CHR ''_'' # histogram_unit h) histogram_fields)"
    by (simp add: histogram_fields_def moq_histogram_fields_def quic_histogram_fields_def evb_histogram_fields_def)
qed (rule histogram_series_distinct, rule histogram_series_owner)

lemma errors_series_distinct: "distinct (concat (map error_series error_counter_fields))"
proof (rule distinct_concat_owner [where g = "takeWhile (\<lambda>c. c \<noteq> CHR ''{'')" and
      own = "\<lambda>e. ''moqx_'' @ error_counter_name e @ ''_by_code_total''"])
  show "distinct (map (\<lambda>e. ''moqx_'' @ error_counter_name e @ ''_by_code_total'') error_counter_fields)"
    by (simp add: error_counter_fields_def)
qed (rule error_series_distinct, rule error_series_owner)

text \<open>The four groups differ in the last character, and buckets from error codes in the label.\<close>

lemma gauge_series_last: "last (''moqx_'' @ gauge_name g) = CHR ''s''"
proof (cases g)
  case (QuicGauge x)
  then show ?thesis by (cases x) simp_all
next
  case (MoqGauge x)
  then show ?thesis by (cases x) simp_all
qed

lemma histogram_series_last:
  assumes "s \<in> set (histogram_series h)"
  shows "last s = CHR ''m'' \<or> last s = CHR ''t'' \<or> last s = CHR ''}'' \<and> CHR ''{'' \<in> set s \<and>
    hd (tl (dropWhile (\<lambda>c. c \<noteq> CHR ''{'') s)) = CHR ''l''"
proof -
  let ?m = "''moqx_'' @ (histogram_name h @ CHR ''_'' # histogram_unit h)"
  have "CHR ''{'' \<notin> set (histogram_name h)" "CHR ''{'' \<notin> set (histogram_unit h)"
    by (cases h; rename_tac x; case_tac x; simp)+
  then have m: "\<forall>c\<in>set (?m @ ''_bucket''). c \<noteq> CHR ''{''" by auto
  from assms consider le where "s = (?m @ ''_bucket'') @ CHR ''{'' # ''le='' @ quote # le @ quote # ''}''"
    | "s = ?m @ ''_sum''" | "s = ?m @ ''_count''"
    by (auto simp: histogram_series_def Let_def bucket_series_def)
  then show ?thesis
  proof cases
    case 1
    have "dropWhile (\<lambda>c. c \<noteq> CHR ''{'') s = CHR ''{'' # ''le='' @ quote # le @ quote # ''}''"
      unfolding 1 using m by (subst dropWhile_append2) auto
    then show ?thesis using 1 by simp
  qed simp_all
qed

lemma error_series_last:
  assumes "s \<in> set (error_series e)"
  shows "last s = CHR ''}'' \<and> hd (tl (dropWhile (\<lambda>c. c \<noteq> CHR ''{'') s)) = CHR ''c''"
proof -
  have e: "CHR ''{'' \<notin> set (error_counter_name e)" by (cases e) simp_all
  obtain code where s: "s = (''moqx_'' @ error_counter_name e @ ''_by_code_total'') @ CHR ''{'' # ''code='' @ quote # code @ quote # ''}''"
    using assms by (auto simp: error_series_def)
  have "dropWhile (\<lambda>c. c \<noteq> CHR ''{'') s = CHR ''{'' # ''code='' @ quote # code @ quote # ''}''"
    unfolding s using e by (subst dropWhile_append2) auto
  then show ?thesis using s by simp
qed

lemma all_series_distinct: "distinct all_series"
proof -
  have c: "last s = CHR ''l''" if "s \<in> set (map (\<lambda>c. ''moqx_'' @ counter_name c @ ''_total'') counter_fields)" for s
    using that by auto
  have g: "last s = CHR ''s''" if "s \<in> set (map (\<lambda>g. ''moqx_'' @ gauge_name g) gauge_fields)" for s
    using that gauge_series_last by (auto simp del: last_append last_ConsR append.simps)
  have h: "last s = CHR ''m'' \<or> last s = CHR ''t'' \<or> last s = CHR ''}'' \<and>
    hd (tl (dropWhile (\<lambda>c. c \<noteq> CHR ''{'') s)) = CHR ''l''"
    if "s \<in> set (concat (map histogram_series histogram_fields))" for s
    using that histogram_series_last by auto
  have e: "last s = CHR ''}'' \<and> hd (tl (dropWhile (\<lambda>c. c \<noteq> CHR ''{'') s)) = CHR ''c''"
    if "s \<in> set (concat (map error_series error_counter_fields))" for s
    using that error_series_last by auto
  have disjoint: "A \<inter> B = {}" if "\<And>s. s \<in> A \<Longrightarrow> s \<in> B \<Longrightarrow> False" for A B :: "string set"
    using that by blast
  have he: "distinct (concat (map histogram_series histogram_fields) @ concat (map error_series error_counter_fields))"
    unfolding distinct_append
    by (intro conjI histograms_series_distinct errors_series_distinct disjoint) (drule h, drule e, force)
  have gh: "distinct (map (\<lambda>g. ''moqx_'' @ gauge_name g) gauge_fields @
      concat (map histogram_series histogram_fields) @ concat (map error_series error_counter_fields))"
    unfolding distinct_append [of "map _ gauge_fields"] set_append
    by (intro conjI gauge_series_distinct he disjoint) (drule g, elim UnE, ((drule h | drule e), force)+)
  show ?thesis
    unfolding all_series_def distinct_append [of "map _ counter_fields"] set_append
    by (intro conjI counter_series_distinct gh disjoint) (drule c, elim UnE, ((drule g | drule h | drule e), force)+)
qed

text \<open>C21: Whatever the values, the Prometheus text of a snapshot reads back as exactly its fields: every
  counter, gauge (negative ones included), bucket, sum, count and per-code error count under its own
  series name, in the order of the field lists, and no series name occurs twice.\<close>

theorem scrape_formatPrometheus:
  assumes "snapshot_wf snap"
  shows "scrape (formatPrometheus snap) = samples snap \<and> distinct (map fst (scrape (formatPrometheus snap)))"
  using scrape_samples [OF assms] samples_series [OF assms] all_series_distinct by simp

text \<open>The snapshot with no collectors, except one gauge that is below zero.\<close>

theorem scrape_formatPrometheus_witness:
  "let snap = zero_snapshot\<lparr>gauges := (\<lambda>_. 0)(MoqGauge MoqActiveSessions := -1)\<rparr> in
     snapshot_wf snap \<and> scrape (formatPrometheus snap) = samples snap \<and>
     (''moqx_moqActiveSessions'', -1) \<in> set (scrape (formatPrometheus snap))"
proof -
  let ?snap = "zero_snapshot\<lparr>gauges := (\<lambda>_. 0)(MoqGauge MoqActiveSessions := -1)\<rparr>"
  have wf: "snapshot_wf ?snap" by (simp add: snapshot_wf_def zero_snapshot_def)
  have "MoqGauge MoqActiveSessions \<in> set gauge_fields"
    by (simp add: gauge_fields_def moq_gauge_fields_def)
  moreover have "(\<lambda>g. (''moqx_'' @ gauge_name g, sint (gauges ?snap g))) (MoqGauge MoqActiveSessions) =
    (''moqx_moqActiveSessions'', -1)" by simp
  ultimately have "(''moqx_moqActiveSessions'', -1) \<in> set (samples ?snap)"
    unfolding samples_def set_append set_map by (metis (no_types, lifting) UnI1 UnI2 imageI)
  then show ?thesis using scrape_formatPrometheus [OF wf] wf by (simp add: Let_def)
qed

end
