(* ===== verification/Stats_Collectors.thy ===== *)
theory Stats_Collectors
  imports Stats_Registry
begin

section \<open>Statistics collectors and their aggregation\<close>

text \<open>
  stats/MoQStatsCollector.*, stats/QuicStatsCollector.*, stats/PicoQuicStatsCollector.*,
  stats/EventBaseStatsCollector.* and the registry half of stats/StatsRegistry.cpp. A collector is
  a record of its counters; a callback method is an equation of one step function. All methods of a
  collector run on its own thread, so a collector's history is a sequence of events.
  \<^item> locale \<open>stats_collector\<close> is what StatsCollectorBase promises: the snapshot of a collector
    reports, per histogram, exactly the values its events recorded. Each of the four collectors
    is interpreted;
  \<^item> the worker model adds the loop observers that tie QUIC collectors to the thread's event base;
  \<^item> \<open>aggregateAsync\<close> sums the snapshots of the collectors that are alive and bound to a thread.
  PathQualityDelta and the callback interfaces are the transport libraries': only their fields and
  methods used here appear. FOLLY_SDT trace points are left out.
\<close>

subsection \<open>MoQStatsCollector\<close>

record moq_collector =
  mc_counters :: "moq_counter \<Rightarrow> uint64"
  mc_gauges :: "gauge \<Rightarrow> uint64"
  mc_histograms :: "moq_histogram \<Rightarrow> histogram"
  mc_byCodes :: "error_counter \<Rightarrow> uint64 list"
  mc_owningExecutor :: "nat option"

definition mk_moq_collector :: moq_collector where
  "mk_moq_collector = \<lparr>mc_counters = (\<lambda>_. 0), mc_gauges = (\<lambda>_. 0),
     mc_histograms = (\<lambda>h. mk_histogram (moq_histogram_bounds h)),
     mc_byCodes = (\<lambda>_. replicate kRequestErrorCodeCount 0), mc_owningExecutor = None\<rparr>"

text \<open>\<open>++parent_.c_\<close>, \<open>++parent_.g_\<close>, \<open>--parent_.g_\<close>,
  \<open>++parent_.eByCodes_[requestErrorCodeIndex(code)]\<close> and \<open>parent_.h_.addValue(v)\<close>.\<close>

definition bumpCounter :: "moq_counter \<Rightarrow> moq_collector \<Rightarrow> moq_collector" where
  "bumpCounter c m = m\<lparr>mc_counters := (mc_counters m)(c := mc_counters m c + 1)\<rparr>"

definition gaugeUp :: "moq_gauge \<Rightarrow> moq_collector \<Rightarrow> moq_collector" where
  "gaugeUp g m = m\<lparr>mc_gauges := (mc_gauges m)(MoqGauge g := mc_gauges m (MoqGauge g) + 1)\<rparr>"

definition gaugeDown :: "moq_gauge \<Rightarrow> moq_collector \<Rightarrow> moq_collector" where
  "gaugeDown g m = m\<lparr>mc_gauges := (mc_gauges m)(MoqGauge g := mc_gauges m (MoqGauge g) - 1)\<rparr>"

definition countCode :: "'c list \<Rightarrow> error_counter \<Rightarrow> 'c \<Rightarrow> moq_collector \<Rightarrow> moq_collector" where
  "countCode tbl e code m = (let xs = mc_byCodes m e; i = requestErrorCodeIndex tbl code in
     m\<lparr>mc_byCodes := (mc_byCodes m)(e := xs[i := xs ! i + 1])\<rparr>)"

definition recordLatency :: "moq_histogram \<Rightarrow> uint64 \<Rightarrow> moq_collector \<Rightarrow> moq_collector" where
  "recordLatency h v m = m\<lparr>mc_histograms := (mc_histograms m)(h := addValue v (mc_histograms m h))\<rparr>"

text \<open>The methods both callback interfaces have, and those of one of them.\<close>

datatype 'c shared_event =
  OnSubscribeSuccess | OnSubscribeError 'c | OnFetchSuccess | OnFetchError 'c |
  OnPublishNamespaceSuccess | OnPublishNamespaceError 'c | OnPublishNamespaceDone |
  OnPublishNamespaceCancel | OnSubscribeNamespaceSuccess | OnSubscribeNamespaceError 'c |
  OnUnsubscribeNamespace | OnTrackStatus | OnUnsubscribe | OnPublishDone | OnRequestUpdate |
  OnSubscriptionStreamOpened | OnSubscriptionStreamClosed | OnSubscriptionBegin |
  OnSubscriptionEnd

datatype 'c publisher_event = PubShared "'c shared_event" | RecordPublishNamespaceLatency uint64 |
  RecordPublishLatency uint64 | PubOnPublishError 'c | PubOnPublishSuccess

datatype 'c subscriber_event = SubShared "'c shared_event" | RecordSubscribeLatency uint64 |
  RecordFetchLatency uint64 | SubOnPublish | SubOnPublishOk | SubOnPublishError 'c

fun publisherCallback :: "'c list \<Rightarrow> 'c publisher_event \<Rightarrow> moq_collector \<Rightarrow> moq_collector" where
  "publisherCallback tbl (PubShared OnSubscribeSuccess) m = bumpCounter PubSubscribeSuccess m"
| "publisherCallback tbl (PubShared (OnSubscribeError code)) m = countCode tbl PubSubscribeErrorByCodes code (bumpCounter PubSubscribeError m)"
| "publisherCallback tbl (PubShared OnFetchSuccess) m = bumpCounter PubFetchSuccess m"
| "publisherCallback tbl (PubShared (OnFetchError code)) m = countCode tbl PubFetchErrorByCodes code (bumpCounter PubFetchError m)"
| "publisherCallback tbl (PubShared OnPublishNamespaceSuccess) m = gaugeUp PubActivePublishNamespaces (bumpCounter PubPublishNamespaceSuccess m)"
| "publisherCallback tbl (PubShared (OnPublishNamespaceError code)) m = countCode tbl PubPublishNamespaceErrorByCodes code (bumpCounter PubPublishNamespaceError m)"
| "publisherCallback tbl (PubShared OnPublishNamespaceDone) m = gaugeDown PubActivePublishNamespaces (bumpCounter PubPublishNamespaceDone m)"
| "publisherCallback tbl (PubShared OnPublishNamespaceCancel) m = gaugeDown PubActivePublishNamespaces (bumpCounter PubPublishNamespaceCancel m)"
| "publisherCallback tbl (PubShared OnSubscribeNamespaceSuccess) m = gaugeUp PubActiveSubscribeNamespaces (bumpCounter PubSubscribeNamespaceSuccess m)"
| "publisherCallback tbl (PubShared (OnSubscribeNamespaceError code)) m = countCode tbl PubSubscribeNamespaceErrorByCodes code (bumpCounter PubSubscribeNamespaceError m)"
| "publisherCallback tbl (PubShared OnUnsubscribeNamespace) m = gaugeDown PubActiveSubscribeNamespaces (bumpCounter PubUnsubscribeNamespace m)"
| "publisherCallback tbl (PubShared OnTrackStatus) m = bumpCounter PubTrackStatus m"
| "publisherCallback tbl (PubShared OnUnsubscribe) m = m"
| "publisherCallback tbl (PubShared OnPublishDone) m = bumpCounter PubPublishDone m"
| "publisherCallback tbl (PubShared OnRequestUpdate) m = bumpCounter PubRequestUpdate m"
| "publisherCallback tbl (PubShared OnSubscriptionStreamOpened) m = gaugeUp PubActiveSubscriptionStreams (bumpCounter PubSubscriptionStreamOpened m)"
| "publisherCallback tbl (PubShared OnSubscriptionStreamClosed) m = gaugeDown PubActiveSubscriptionStreams (bumpCounter PubSubscriptionStreamClosed m)"
| "publisherCallback tbl (PubShared OnSubscriptionBegin) m = gaugeUp PubActiveSubscriptions m"
| "publisherCallback tbl (PubShared OnSubscriptionEnd) m = gaugeDown PubActiveSubscriptions m"
| "publisherCallback tbl (RecordPublishNamespaceLatency latencyMsec) m = recordLatency MoqPublishNamespaceLatency latencyMsec m"
| "publisherCallback tbl (RecordPublishLatency latencyMsec) m = recordLatency MoqPublishLatency latencyMsec m"
| "publisherCallback tbl (PubOnPublishError code) m = countCode tbl MoqPublishErrorByCodes code (bumpCounter MoqPublishError m)"
| "publisherCallback tbl PubOnPublishSuccess m = gaugeUp PubActivePublishers (bumpCounter MoqPublishSuccess m)"

fun subscriberCallback :: "'c list \<Rightarrow> 'c subscriber_event \<Rightarrow> moq_collector \<Rightarrow> moq_collector" where
  "subscriberCallback tbl (SubShared OnSubscribeSuccess) m = bumpCounter SubSubscribeSuccess m"
| "subscriberCallback tbl (SubShared (OnSubscribeError code)) m = countCode tbl SubSubscribeErrorByCodes code (bumpCounter SubSubscribeError m)"
| "subscriberCallback tbl (SubShared OnFetchSuccess) m = bumpCounter SubFetchSuccess m"
| "subscriberCallback tbl (SubShared (OnFetchError code)) m = countCode tbl SubFetchErrorByCodes code (bumpCounter SubFetchError m)"
| "subscriberCallback tbl (SubShared OnPublishNamespaceSuccess) m = gaugeUp SubActivePublishNamespaces (bumpCounter SubPublishNamespaceSuccess m)"
| "subscriberCallback tbl (SubShared (OnPublishNamespaceError code)) m = countCode tbl SubPublishNamespaceErrorByCodes code (bumpCounter SubPublishNamespaceError m)"
| "subscriberCallback tbl (SubShared OnPublishNamespaceDone) m = gaugeDown SubActivePublishNamespaces (bumpCounter SubPublishNamespaceDone m)"
| "subscriberCallback tbl (SubShared OnPublishNamespaceCancel) m = gaugeDown SubActivePublishNamespaces (bumpCounter SubPublishNamespaceCancel m)"
| "subscriberCallback tbl (SubShared OnSubscribeNamespaceSuccess) m = gaugeUp SubActiveSubscribeNamespaces (bumpCounter SubSubscribeNamespaceSuccess m)"
| "subscriberCallback tbl (SubShared (OnSubscribeNamespaceError code)) m = countCode tbl SubSubscribeNamespaceErrorByCodes code (bumpCounter SubSubscribeNamespaceError m)"
| "subscriberCallback tbl (SubShared OnUnsubscribeNamespace) m = gaugeDown SubActiveSubscribeNamespaces (bumpCounter SubUnsubscribeNamespace m)"
| "subscriberCallback tbl (SubShared OnTrackStatus) m = bumpCounter SubTrackStatus m"
| "subscriberCallback tbl (SubShared OnUnsubscribe) m = m"
| "subscriberCallback tbl (SubShared OnPublishDone) m = bumpCounter SubPublishDone m"
| "subscriberCallback tbl (SubShared OnRequestUpdate) m = bumpCounter SubRequestUpdate m"
| "subscriberCallback tbl (SubShared OnSubscriptionStreamOpened) m = gaugeUp SubActiveSubscriptionStreams (bumpCounter SubSubscriptionStreamOpened m)"
| "subscriberCallback tbl (SubShared OnSubscriptionStreamClosed) m = gaugeDown SubActiveSubscriptionStreams (bumpCounter SubSubscriptionStreamClosed m)"
| "subscriberCallback tbl (SubShared OnSubscriptionBegin) m = gaugeUp SubActiveSubscriptions m"
| "subscriberCallback tbl (SubShared OnSubscriptionEnd) m = gaugeDown SubActiveSubscriptions m"
| "subscriberCallback tbl (RecordSubscribeLatency latencyMsec) m = recordLatency MoqSubscribeLatency latencyMsec m"
| "subscriberCallback tbl (RecordFetchLatency latencyMsec) m = recordLatency MoqFetchLatency latencyMsec m"
| "subscriberCallback tbl SubOnPublish m = bumpCounter MoqPublishReceived m"
| "subscriberCallback tbl SubOnPublishOk m = gaugeUp SubActivePublishers (bumpCounter MoqPublishOkSent m)"
| "subscriberCallback tbl (SubOnPublishError code) m = countCode tbl SubPublishErrorByCodes code (bumpCounter SubPublishError m)"

definition onSessionStart :: "moq_collector \<Rightarrow> moq_collector" where
  "onSessionStart m = gaugeUp MoqActiveSessions m"

definition onSessionEnd :: "moq_collector \<Rightarrow> moq_collector" where
  "onSessionEnd m = gaugeDown MoqActiveSessions m"

definition setExecutor :: "nat option \<Rightarrow> moq_collector \<Rightarrow> moq_collector" where
  "setExecutor executor m = m\<lparr>mc_owningExecutor := executor\<rparr>"

datatype 'c moq_event = AsPublisher "'c publisher_event" | AsSubscriber "'c subscriber_event" |
  SessionStart | SessionEnd | SetExecutor "nat option"

fun moq_step :: "'c list \<Rightarrow> 'c moq_event \<Rightarrow> moq_collector \<Rightarrow> moq_collector" where
  "moq_step tbl (AsPublisher e) m = publisherCallback tbl e m"
| "moq_step tbl (AsSubscriber e) m = subscriberCallback tbl e m"
| "moq_step tbl SessionStart m = onSessionStart m"
| "moq_step tbl SessionEnd m = onSessionEnd m"
| "moq_step tbl (SetExecutor x) m = setExecutor x m"

text \<open>The fields the macros of MoQStatsCollector::snapshot copy; the others keep their zeros.\<close>

definition moq_snapshot :: "moq_collector \<Rightarrow> snapshot" where
  "moq_snapshot m = zero_snapshot\<lparr>
     counters := (\<lambda>c. case c of MoqCounter c' \<Rightarrow> mc_counters m c' | _ \<Rightarrow> counters zero_snapshot c),
     gauges := mc_gauges m,
     histBuckets := (\<lambda>h. case h of MoqHistogram h' \<Rightarrow> fillCumulative (mc_histograms m h') | _ \<Rightarrow> histBuckets zero_snapshot h),
     histSum := (\<lambda>h. case h of MoqHistogram h' \<Rightarrow> hist_sum (mc_histograms m h') | _ \<Rightarrow> histSum zero_snapshot h),
     histCount := (\<lambda>h. case h of MoqHistogram h' \<Rightarrow> hist_count (mc_histograms m h') | _ \<Rightarrow> histCount zero_snapshot h),
     byCodes := mc_byCodes m\<rparr>"

subsection \<open>QUIC collectors\<close>

text \<open>QuicStatsCollector and PicoQuicStatsCollector have the same metric fields; the first learns its
  event base from the first packet, the second is constructed with it.\<close>

record quic_collector =
  qc_counters :: "quic_counter \<Rightarrow> uint64"
  qc_gauges :: "quic_gauge \<Rightarrow> uint64"
  qc_histograms :: "quic_histogram \<Rightarrow> histogram"
  prevLoopPktsSent :: uint64
  prevLoopPktsRecv :: uint64
  owningEvb :: "nat option"

definition mk_quic_collector :: "nat option \<Rightarrow> quic_collector" where
  "mk_quic_collector evb = \<lparr>qc_counters = (\<lambda>_. 0), qc_gauges = (\<lambda>_. 0),
     qc_histograms = (\<lambda>h. mk_histogram (quic_histogram_bounds h)),
     prevLoopPktsSent = 0, prevLoopPktsRecv = 0, owningEvb = evb\<rparr>"

definition qcount :: "quic_counter \<Rightarrow> uint64 \<Rightarrow> quic_collector \<Rightarrow> quic_collector" where
  "qcount c n q = q\<lparr>qc_counters := (qc_counters q)(c := qc_counters q c + n)\<rparr>"

definition qgaugeUp :: "quic_gauge \<Rightarrow> quic_collector \<Rightarrow> quic_collector" where
  "qgaugeUp g q = q\<lparr>qc_gauges := (qc_gauges q)(g := qc_gauges q g + 1)\<rparr>"

definition qgaugeDown :: "quic_gauge \<Rightarrow> quic_collector \<Rightarrow> quic_collector" where
  "qgaugeDown g q = q\<lparr>qc_gauges := (qc_gauges q)(g := qc_gauges q g - 1)\<rparr>"

definition qrecord :: "quic_histogram \<Rightarrow> uint64 \<Rightarrow> quic_collector \<Rightarrow> quic_collector" where
  "qrecord h v q = q\<lparr>qc_histograms := (qc_histograms q)(h := addValue v (qc_histograms q h))\<rparr>"

datatype socket_error = AGAIN | NOBUFS | OTHER_SOCKET_ERROR

text \<open>\<open>OnUntracked\<close> stands for the callbacks with an empty body.\<close>

datatype quic_event =
  OnPacketReceived | OnPacketSent | OnPacketDropped | OnPacketLoss | OnPacketRetransmission |
  OnNewConnection | OnConnectionClose | OnNewQuicStream | OnQuicStreamClosed |
  OnQuicStreamReset | OnConnFlowControlBlocked | OnStreamFlowControlBlocked | OnCwndBlocked |
  OnRead uint64 | OnWrite uint64 | OnDatagramDroppedOnWrite | OnDatagramDroppedOnRead |
  OnPeerMaxUniStreamsLimitSaturated | OnPeerMaxBidiStreamsLimitSaturated | OnPacketProcessed |
  OnPTO | OnPacketSpuriousLoss | OnPersistentCongestion | OnConnectionWritableBytesLimited |
  OnConnectionRateLimited | OnPacerTimerLagged | OnRttSample uint64 | OnBandwidthSample uint64
  | OnInflightBytesSample uint64 | OnCwndHintBytesSample uint64 |
  OnUDPSocketWriteError socket_error | OnUntracked

fun quicCallback :: "quic_event \<Rightarrow> quic_collector \<Rightarrow> quic_collector" where
  "quicCallback OnPacketReceived q = qcount QuicPacketsReceived 1 q"
| "quicCallback OnPacketSent q = qcount QuicPacketsSent 1 q"
| "quicCallback OnPacketDropped q = qcount QuicPacketsDropped 1 q"
| "quicCallback OnPacketLoss q = qcount QuicPacketLoss 1 q"
| "quicCallback OnPacketRetransmission q = qcount QuicPacketRetransmissions 1 q"
| "quicCallback OnNewConnection q = qgaugeUp QuicActiveConnections (qcount QuicConnectionsCreated 1 q)"
| "quicCallback OnConnectionClose q = qgaugeDown QuicActiveConnections (qcount QuicConnectionsClosed 1 q)"
| "quicCallback OnNewQuicStream q = qgaugeUp QuicActiveStreams (qcount QuicStreamsCreated 1 q)"
| "quicCallback OnQuicStreamClosed q = qgaugeDown QuicActiveStreams (qcount QuicStreamsClosed 1 q)"
| "quicCallback OnQuicStreamReset q = qcount QuicStreamsReset 1 q"
| "quicCallback OnConnFlowControlBlocked q = qcount QuicConnFlowControlBlocked 1 q"
| "quicCallback OnStreamFlowControlBlocked q = qcount QuicStreamFlowControlBlocked 1 q"
| "quicCallback OnCwndBlocked q = qcount QuicCwndBlocked 1 q"
| "quicCallback (OnRead bytes) q = qcount QuicBytesRead bytes q"
| "quicCallback (OnWrite bytes) q = qcount QuicBytesWritten bytes q"
| "quicCallback OnDatagramDroppedOnWrite q = qcount QuicDatagramsDroppedOnWrite 1 q"
| "quicCallback OnDatagramDroppedOnRead q = qcount QuicDatagramsDroppedOnRead 1 q"
| "quicCallback OnPeerMaxUniStreamsLimitSaturated q = qcount QuicPeerMaxUniStreamsLimitSaturated 1 q"
| "quicCallback OnPeerMaxBidiStreamsLimitSaturated q = qcount QuicPeerMaxBidiStreamsLimitSaturated 1 q"
| "quicCallback OnPacketProcessed q = qcount QuicPacketsProcessed 1 q"
| "quicCallback OnPTO q = qcount QuicPTO 1 q"
| "quicCallback OnPacketSpuriousLoss q = qcount QuicPacketSpuriousLoss 1 q"
| "quicCallback OnPersistentCongestion q = qcount QuicPersistentCongestion 1 q"
| "quicCallback OnConnectionWritableBytesLimited q = qcount QuicConnectionWritableBytesLimited 1 q"
| "quicCallback OnConnectionRateLimited q = qcount QuicConnectionRateLimited 1 q"
| "quicCallback OnPacerTimerLagged q = qcount QuicPacerTimerLagged 1 q"
| "quicCallback (OnRttSample v) q = qrecord QuicRttSample v q"
| "quicCallback (OnBandwidthSample v) q = qrecord QuicBandwidthSample v q"
| "quicCallback (OnInflightBytesSample v) q = qrecord QuicInflightBytesSample v q"
| "quicCallback (OnCwndHintBytesSample v) q = qrecord QuicCwndHintBytesSample v q"
| "quicCallback (OnUDPSocketWriteError errorType) q = (if errorType = AGAIN then qcount QuicSocketWriteAgain 1 q
     else if errorType = NOBUFS then qcount QuicSocketWriteNobufs 1 q else qcount QuicSocketWriteOther 1 q)"
| "quicCallback OnUntracked q = q"

text \<open>The observer both collectors register with the event base: packets since the last loop.\<close>

definition loopObserver :: "quic_collector \<Rightarrow> quic_collector" where
  "loopObserver d = (let sent = qc_counters d QuicPacketsSent; recv = qc_counters d QuicPacketsReceived;
       dSent = sent - prevLoopPktsSent d; dRecv = recv - prevLoopPktsRecv d in
     (qrecord EvbPktsRecvPerLoop dRecv (qrecord EvbPktsSentPerLoop dSent d))
       \<lparr>prevLoopPktsSent := sent, prevLoopPktsRecv := recv\<rparr>)"

definition quic_snapshot :: "quic_collector \<Rightarrow> snapshot" where
  "quic_snapshot q = zero_snapshot\<lparr>
     counters := (\<lambda>c. case c of QuicCounter c' \<Rightarrow> qc_counters q c' | _ \<Rightarrow> counters zero_snapshot c),
     gauges := (\<lambda>g. case g of QuicGauge g' \<Rightarrow> qc_gauges q g' | _ \<Rightarrow> gauges zero_snapshot g),
     histBuckets := (\<lambda>h. case h of QuicHistogram h' \<Rightarrow> fillCumulative (qc_histograms q h') | _ \<Rightarrow> histBuckets zero_snapshot h),
     histSum := (\<lambda>h. case h of QuicHistogram h' \<Rightarrow> hist_sum (qc_histograms q h') | _ \<Rightarrow> histSum zero_snapshot h),
     histCount := (\<lambda>h. case h of QuicHistogram h' \<Rightarrow> hist_count (qc_histograms q h') | _ \<Rightarrow> histCount zero_snapshot h)\<rparr>"

subsubsection \<open>PicoQuicStatsCollector\<close>

record path_quality_delta =
  packetsLost :: uint64
  bytesSent :: uint64
  bytesReceived :: uint64
  timerLosses :: uint64
  spuriousLosses :: uint64
  cwndBlocked :: bool
  smoothedRttUs :: uint64
  receiveBytesPerSec :: uint64
  bytesInTransit :: uint64

definition onPathQualityDelta :: "path_quality_delta \<Rightarrow> quic_collector \<Rightarrow> quic_collector" where
  "onPathQualityDelta d q0 = (let
     q1 = qcount QuicPacketSpuriousLoss (spuriousLosses d) (qcount QuicPTO (timerLosses d)
       (qcount QuicPacketRetransmissions (timerLosses d) (qcount QuicBytesRead (bytesReceived d)
       (qcount QuicBytesWritten (bytesSent d) (qcount QuicPacketLoss (packetsLost d) q0)))));
     q2 = (if cwndBlocked d then qcount QuicCwndBlocked 1 q1 else q1);
     q3 = (if smoothedRttUs d > 0 then qrecord QuicRttSample (smoothedRttUs d div 1000) q2 else q2);
     q4 = (if receiveBytesPerSec d > 0 then qrecord QuicBandwidthSample (receiveBytesPerSec d * 8) q3 else q3)
     in if bytesInTransit d > 0 then qrecord QuicInflightBytesSample (bytesInTransit d) q4 else q4)"

datatype pico_event = OnConnectionCreated | OnConnectionClosed | OnStreamCreated | OnStreamClosed |
  OnStreamReset | OnPacketsSent uint64 | OnPacketsReceived uint64 | OnPathQualityDelta path_quality_delta

fun picoCallback :: "pico_event \<Rightarrow> quic_collector \<Rightarrow> quic_collector" where
  "picoCallback OnConnectionCreated q = qgaugeUp QuicActiveConnections (qcount QuicConnectionsCreated 1 q)"
| "picoCallback OnConnectionClosed q = qgaugeDown QuicActiveConnections (qcount QuicConnectionsClosed 1 q)"
| "picoCallback OnStreamCreated q = qcount QuicStreamsCreated 1 q"
| "picoCallback OnStreamClosed q = qcount QuicStreamsClosed 1 q"
| "picoCallback OnStreamReset q = qcount QuicStreamsReset 1 q"
| "picoCallback (OnPacketsSent n) q = qcount QuicPacketsSent n q"
| "picoCallback (OnPacketsReceived n) q = qcount QuicPacketsReceived n q"
| "picoCallback (OnPathQualityDelta d) q = onPathQualityDelta d q"

subsection \<open>EventBaseStatsCollector\<close>

text \<open>An observer is its key: the callback registered under it is \<open>loopObserver\<close> on the collector the
  key points to.\<close>

record evb_collector =
  ec_histograms :: "evb_histogram \<Rightarrow> histogram"
  observers :: "nat list"
  ec_evb :: nat

definition mk_evb_collector :: "nat \<Rightarrow> evb_collector" where
  "mk_evb_collector evb = \<lparr>ec_histograms = (\<lambda>h. mk_histogram (evb_histogram_bounds h)), observers = [], ec_evb = evb\<rparr>"

definition addLoopObserver :: "nat \<Rightarrow> evb_collector \<Rightarrow> evb_collector" where
  "addLoopObserver key c = c\<lparr>observers := observers c @ [key]\<rparr>"

text \<open>std::find_if and erase: the first entry with the key.\<close>

definition removeLoopObserver :: "nat \<Rightarrow> evb_collector \<Rightarrow> evb_collector" where
  "removeLoopObserver key c = c\<lparr>observers := remove1 key (observers c)\<rparr>"

definition record_loop :: "uint64 \<Rightarrow> uint64 \<Rightarrow> evb_collector \<Rightarrow> evb_collector" where
  "record_loop busyUs idleUs c = c\<lparr>ec_histograms := (ec_histograms c)
     (EvbLoopBusy := addValue busyUs (ec_histograms c EvbLoopBusy),
      EvbLoopIdle := addValue idleUs (ec_histograms c EvbLoopIdle))\<rparr>"

definition evb_snapshot :: "evb_collector \<Rightarrow> snapshot" where
  "evb_snapshot c = zero_snapshot\<lparr>
     histBuckets := (\<lambda>h. case h of EvbHistogram h' \<Rightarrow> fillCumulative (ec_histograms c h') | _ \<Rightarrow> histBuckets zero_snapshot h),
     histSum := (\<lambda>h. case h of EvbHistogram h' \<Rightarrow> hist_sum (ec_histograms c h') | _ \<Rightarrow> histSum zero_snapshot h),
     histCount := (\<lambda>h. case h of EvbHistogram h' \<Rightarrow> hist_count (ec_histograms c h') | _ \<Rightarrow> histCount zero_snapshot h)\<rparr>"

subsection \<open>A worker thread\<close>

text \<open>The collectors of one event base: its own (absent when none was registered for this event base or the registry
  is gone) and the QUIC collectors of the callbacks on it, by address.\<close>

record worker =
  evbColl :: "evb_collector option"
  quics :: "(nat, quic_collector) hmap"

text \<open>\<open>current\<close> is getExistingEventBase() of the calling thread. None is the failing CHECK.\<close>

definition captureWorkerEvbIfNeeded :: "nat option \<Rightarrow> nat \<Rightarrow> quic_collector \<Rightarrow> worker \<Rightarrow> worker option" where
  "captureWorkerEvbIfNeeded current key d w =
     (if owningEvb d \<noteq> None then Some w
      else case current of None \<Rightarrow> None
        | Some evb \<Rightarrow>
            let w1 = w\<lparr>quics := hm_set key (d\<lparr>owningEvb := Some evb\<rparr>) (quics w)\<rparr> in
            Some (case evbColl w1 of None \<Rightarrow> w1
              | Some c \<Rightarrow> w1\<lparr>evbColl := Some (addLoopObserver key c)\<rparr>))"

fun captures :: "quic_event \<Rightarrow> bool" where
  "captures OnPacketReceived = True"
| "captures OnPacketDropped = True"
| "captures _ = False"

definition quic_callback_at :: "nat option \<Rightarrow> nat \<Rightarrow> quic_event \<Rightarrow> worker \<Rightarrow> worker option" where
  "quic_callback_at current key e w = (case hm_find (quics w) key of None \<Rightarrow> Some w
     | Some d \<Rightarrow>
         (case (if captures e then captureWorkerEvbIfNeeded current key d w else Some w) of
            None \<Rightarrow> None
          | Some w1 \<Rightarrow> (case hm_find (quics w1) key of None \<Rightarrow> Some w1
              | Some d1 \<Rightarrow> Some (w1\<lparr>quics := hm_set key (quicCallback e d1) (quics w1)\<rparr>))))"

text \<open>Factory::make and the Callback constructor, and \<open>~Callback\<close>.\<close>

definition make_callback :: "nat \<Rightarrow> worker \<Rightarrow> worker" where
  "make_callback key w = w\<lparr>quics := hm_emplace key (mk_quic_collector None) (quics w)\<rparr>"

definition destroy_callback :: "nat \<Rightarrow> worker \<Rightarrow> worker" where
  "destroy_callback key w = w\<lparr>evbColl := map_option (removeLoopObserver key) (evbColl w),
     quics := hm_erase key (quics w)\<rparr>"

text \<open>PicoQuicStatsCollector::create; the loop observer is optional.\<close>

definition pico_create :: "nat \<Rightarrow> bool \<Rightarrow> nat \<Rightarrow> worker \<Rightarrow> worker" where
  "pico_create evb observe key w = (case hm_find (quics w) key of Some _ \<Rightarrow> w
     | None \<Rightarrow>
         let w1 = w\<lparr>quics := hm_set key (mk_quic_collector (Some evb)) (quics w)\<rparr> in
         if observe then w1\<lparr>evbColl := map_option (addLoopObserver key) (evbColl w1)\<rparr> else w1)"

definition pico_callback_at :: "nat \<Rightarrow> pico_event \<Rightarrow> worker \<Rightarrow> worker" where
  "pico_callback_at key e w = (case hm_find (quics w) key of None \<Rightarrow> w
     | Some d \<Rightarrow> w\<lparr>quics := hm_set key (picoCallback e d) (quics w)\<rparr>)"

definition run_observer :: "nat \<Rightarrow> (nat, quic_collector) hmap \<Rightarrow> (nat, quic_collector) hmap" where
  "run_observer key qs = (case hm_find qs key of None \<Rightarrow> qs | Some d \<Rightarrow> hm_set key (loopObserver d) qs)"

definition loopSample :: "uint64 \<Rightarrow> uint64 \<Rightarrow> worker \<Rightarrow> worker" where
  "loopSample busyUs idleUs w = (case evbColl w of None \<Rightarrow> w
     | Some c \<Rightarrow> w\<lparr>evbColl := Some (record_loop busyUs idleUs c), quics := fold run_observer (observers c) (quics w)\<rparr>)"

datatype worker_op = MakeCallback nat | QuicEvent nat "nat option" quic_event | DestroyCallback nat |
  PicoCreate nat bool nat | PicoEvent nat pico_event | LoopSample uint64 uint64

fun worker_exec :: "worker_op \<Rightarrow> worker \<Rightarrow> worker option" where
  "worker_exec (MakeCallback key) w = Some (make_callback key w)"
| "worker_exec (QuicEvent key current e) w = quic_callback_at current key e w"
| "worker_exec (DestroyCallback key) w = Some (destroy_callback key w)"
| "worker_exec (PicoCreate evb observe key) w = Some (pico_create evb observe key w)"
| "worker_exec (PicoEvent key e) w = Some (pico_callback_at key e w)"
| "worker_exec (LoopSample busyUs idleUs) w = Some (loopSample busyUs idleUs w)"

subsection \<open>StatsRegistry\<close>

datatype collector = MoqC moq_collector | QuicC quic_collector | PicoC quic_collector | EvbC evb_collector

fun snapshot_of :: "collector \<Rightarrow> snapshot" where
  "snapshot_of (MoqC m) = moq_snapshot m"
| "snapshot_of (QuicC q) = quic_snapshot q"
| "snapshot_of (PicoC q) = quic_snapshot q"
| "snapshot_of (EvbC c) = evb_snapshot c"

fun owningExecutor :: "collector \<Rightarrow> nat option" where
  "owningExecutor (MoqC m) = mc_owningExecutor m"
| "owningExecutor (QuicC q) = owningEvb q"
| "owningExecutor (PicoC q) = owningEvb q"
| "owningExecutor (EvbC c) = Some (ec_evb c)"

text \<open>\<open>collectors_\<close> holds weak pointers: identities that \<open>lock\<close> resolves while the collector lives.
  The registry's vector is compacted in place by the first loop.\<close>

definition registerCollector :: "nat \<Rightarrow> nat list \<Rightarrow> nat list" where
  "registerCollector collector collectors = collectors @ [collector]"

fun compact_loop :: "(nat \<Rightarrow> collector option) \<Rightarrow> nat list \<Rightarrow> nat list \<Rightarrow> nat \<Rightarrow> collector list \<Rightarrow> nat list \<times> nat \<times> collector list" where
  "compact_loop lock [] cs w live = (cs, w, live)"
| "compact_loop lock (i # is) cs w live = (case lock (cs ! i) of
     Some s \<Rightarrow> compact_loop lock is (cs[w := cs ! i]) (w + 1) (live @ [s])
   | None \<Rightarrow> compact_loop lock is cs w live)"

definition aggregateAsync :: "(nat \<Rightarrow> collector option) \<Rightarrow> nat list \<Rightarrow> nat list \<times> snapshot" where
  "aggregateAsync lock collectors = (let
     (cs, w, live) = compact_loop lock [0..<length collectors] collectors 0 [];
     results = map snapshot_of (filter (\<lambda>c. owningExecutor c \<noteq> None) live)
     in (take w cs, fold (\<lambda>snap combined. snapshot_add combined snap) results zero_snapshot))"


subsection \<open>What a snapshot reports\<close>

type_synonym observations = "histogram_field \<Rightarrow> uint64 list"

text \<open>The histograms of a snapshot report exactly the given observations, bucket by bucket.\<close>

definition reports :: "snapshot \<Rightarrow> observations \<Rightarrow> bool" where
  "reports S obs \<longleftrightarrow> (\<forall>h. histBuckets S h = cumulative_of (histogram_bounds h) (obs h) \<and>
     histSum S h = sum_list (obs h) \<and> histCount S h = of_nat (length (obs h)))"

text \<open>What the events of a run recorded, given what one event records in a state.\<close>

fun recorded :: "('e \<Rightarrow> 's \<Rightarrow> 's) \<Rightarrow> ('e \<Rightarrow> 's \<Rightarrow> observations) \<Rightarrow> 'e list \<Rightarrow> 's \<Rightarrow> observations" where
  "recorded step rec [] s h = []"
| "recorded step rec (e # es) s h = rec e s h @ recorded step rec es (step e s) h"

lemma reports_zero: "reports zero_snapshot (\<lambda>_. [])"
  by (simp add: reports_def zero_snapshot_def cumulative_of_def map_replicate_const replicate_append_same)

lemma reports_add:
  assumes "reports S a" "reports T b"
  shows "reports (snapshot_add S T) (\<lambda>h. a h @ b h)"
  using assms by (simp add: reports_def snapshot_add_def cumulative_of_append)

lemma reports_fold:
  assumes "reports S a" "\<And>c. c \<in> set cs \<Longrightarrow> reports (snap c) (obs c)"
  shows "reports (fold (\<lambda>T S. snapshot_add S T) (map snap cs) S) (\<lambda>h. a h @ concat (map (\<lambda>c. obs c h) cs))"
  using assms
proof (induction cs arbitrary: S a)
  case (Cons c cs)
  have "reports (snapshot_add S (snap c)) (\<lambda>h. a h @ obs c h)"
    using Cons.prems by (intro reports_add) auto
  from Cons.IH [OF this] Cons.prems(2) show ?case by simp
qed simp

text \<open>StatsCollectorBase: \<open>tracks\<close> relates a collector to the values recorded so far.\<close>

locale stats_collector =
  fixes step :: "'e \<Rightarrow> 's \<Rightarrow> 's" and init :: 's and snap :: "'s \<Rightarrow> snapshot"
    and rec :: "'e \<Rightarrow> 's \<Rightarrow> observations" and tracks :: "'s \<Rightarrow> observations \<Rightarrow> bool"
  assumes tracks_init: "tracks init (\<lambda>_. [])"
    and tracks_step: "tracks s obs \<Longrightarrow> tracks (step e s) (\<lambda>h. obs h @ rec e s h)"
    and tracks_reports: "tracks s obs \<Longrightarrow> reports (snap s) obs"
begin

lemma tracks_run: "tracks s obs \<Longrightarrow> tracks (fold step es s) (\<lambda>h. obs h @ recorded step rec es s h)"
proof (induction es arbitrary: s obs)
  case (Cons e es)
  from Cons.IH [OF tracks_step [OF Cons.prems, of e]] show ?case by simp
qed simp

lemma run_reports: "reports (snap (fold step es init)) (recorded step rec es init)"
  using tracks_reports [OF tracks_run [OF tracks_init, of es]] by simp

end

lemma histogram_bounds_sorted: "sorted (moq_histogram_bounds m)" "sorted (quic_histogram_bounds q)"
  "sorted (evb_histogram_bounds e)"
  subgoal by (cases m) (simp_all add: kLatencyBucketsUs_def)
  subgoal by (cases q) (simp_all add: kRttBucketsMs_def kBandwidthBucketsBitsPerSec_def
    kInflightBytesBuckets_def kEvbPktsPerLoopBuckets_def)
  subgoal by (cases e) (simp_all add: kEvbLoopBucketsUs_def)
  done

subsubsection \<open>MoQ\<close>

fun moq_records :: "'c moq_event \<Rightarrow> moq_histogram \<Rightarrow> uint64 list" where
  "moq_records (AsPublisher (RecordPublishNamespaceLatency v)) h = (if h = MoqPublishNamespaceLatency then [v] else [])"
| "moq_records (AsPublisher (RecordPublishLatency v)) h = (if h = MoqPublishLatency then [v] else [])"
| "moq_records (AsSubscriber (RecordSubscribeLatency v)) h = (if h = MoqSubscribeLatency then [v] else [])"
| "moq_records (AsSubscriber (RecordFetchLatency v)) h = (if h = MoqFetchLatency then [v] else [])"
| "moq_records _ h = []"

definition moq_rec :: "'c moq_event \<Rightarrow> moq_collector \<Rightarrow> observations" where
  "moq_rec e m h = (case h of MoqHistogram h' \<Rightarrow> moq_records e h' | _ \<Rightarrow> [])"

definition moq_tracks :: "moq_collector \<Rightarrow> observations \<Rightarrow> bool" where
  "moq_tracks m obs \<longleftrightarrow> (\<forall>h. case h of
     MoqHistogram h' \<Rightarrow> observed (moq_histogram_bounds h') (obs h) (mc_histograms m h') | _ \<Rightarrow> obs h = [])"

lemma moq_primitives [simp]:
  "mc_histograms (bumpCounter c m) = mc_histograms m" "mc_histograms (gaugeUp g m) = mc_histograms m"
  "mc_histograms (gaugeDown g m) = mc_histograms m" "mc_histograms (countCode tbl e code m) = mc_histograms m"
  "mc_histograms (recordLatency h v m) = (mc_histograms m)(h := addValue v (mc_histograms m h))"
  by (simp_all add: bumpCounter_def gaugeUp_def gaugeDown_def countCode_def recordLatency_def Let_def)

lemma shared_histograms: "mc_histograms (publisherCallback tbl (PubShared e) m) = mc_histograms m"
  "mc_histograms (subscriberCallback tbl (SubShared e) m) = mc_histograms m"
  by (cases e; simp)+

lemma moq_step_histograms: "mc_histograms (moq_step tbl e m) h = fold addValue (moq_records e h) (mc_histograms m h)"
proof (cases e)
  case (AsPublisher p)
  then show ?thesis by (cases p) (simp_all add: shared_histograms)
next
  case (AsSubscriber p)
  then show ?thesis by (cases p) (simp_all add: shared_histograms)
qed (simp_all add: onSessionStart_def onSessionEnd_def setExecutor_def)

lemma observed_fold: "observed bs vs h \<Longrightarrow> sorted bs \<Longrightarrow> observed bs (vs @ ws) (fold addValue ws h)"
proof (induction ws arbitrary: vs h)
  case (Cons w ws)
  from Cons.IH [OF observed_addValue [OF Cons.prems]] Cons.prems show ?case by simp
qed simp

lemma observed_reports: "observed bs vs h \<Longrightarrow> fillCumulative h = cumulative_of bs vs \<and> hist_sum h = sum_list vs \<and>
    hist_count h = of_nat (length vs)"
  by (simp add: observed_def)

lemma zero_histograms [simp]: "histBuckets zero_snapshot h = cumulative_of (histogram_bounds h) []"
  "histSum zero_snapshot h = 0" "histCount zero_snapshot h = 0"
  by (simp_all add: zero_snapshot_def cumulative_of_def map_replicate_const replicate_append_same)

interpretation moq: stats_collector "moq_step tbl" mk_moq_collector moq_snapshot moq_rec moq_tracks for tbl :: "'c list"
proof
  show "moq_tracks mk_moq_collector (\<lambda>_. [])"
    by (simp add: moq_tracks_def mk_moq_collector_def split: histogram_field.splits)
  fix m obs and e :: "'c moq_event"
  show "moq_tracks (moq_step tbl e m) (\<lambda>h. obs h @ moq_rec e m h)" if "moq_tracks m obs"
    using that by (auto simp: moq_tracks_def moq_rec_def moq_step_histograms histogram_bounds_sorted
        intro!: observed_fold split: histogram_field.splits)
  show "reports (moq_snapshot m) obs" if "moq_tracks m obs"
    unfolding reports_def
  proof
    fix h
    show "histBuckets (moq_snapshot m) h = cumulative_of (histogram_bounds h) (obs h) \<and>
      histSum (moq_snapshot m) h = sum_list (obs h) \<and> histCount (moq_snapshot m) h = of_nat (length (obs h))"
      using that [unfolded moq_tracks_def, THEN spec [of _ h]]
      by (cases h) (auto simp: moq_snapshot_def dest: observed_reports)
  qed
qed


subsubsection \<open>QUIC, mvfst and picoquic\<close>

text \<open>The history of one QUIC collector: its callbacks, the loop observer and the binding to a thread.\<close>

datatype 'e loop_event = Event 'e | LoopTick | BindEvb nat

fun loop_step :: "('e \<Rightarrow> quic_collector \<Rightarrow> quic_collector) \<Rightarrow> 'e loop_event \<Rightarrow> quic_collector \<Rightarrow> quic_collector" where
  "loop_step callback (Event e) q = callback e q"
| "loop_step callback LoopTick q = loopObserver q"
| "loop_step callback (BindEvb evb) q = q\<lparr>owningEvb := Some evb\<rparr>"

fun quic_records :: "quic_event \<Rightarrow> quic_histogram \<Rightarrow> uint64 list" where
  "quic_records (OnRttSample v) h = (if h = QuicRttSample then [v] else [])"
| "quic_records (OnBandwidthSample v) h = (if h = QuicBandwidthSample then [v] else [])"
| "quic_records (OnInflightBytesSample v) h = (if h = QuicInflightBytesSample then [v] else [])"
| "quic_records (OnCwndHintBytesSample v) h = (if h = QuicCwndHintBytesSample then [v] else [])"
| "quic_records _ h = []"

fun pico_records :: "pico_event \<Rightarrow> quic_histogram \<Rightarrow> uint64 list" where
  "pico_records (OnPathQualityDelta d) QuicRttSample = (if smoothedRttUs d > 0 then [smoothedRttUs d div 1000] else [])"
| "pico_records (OnPathQualityDelta d) QuicBandwidthSample = (if receiveBytesPerSec d > 0 then [receiveBytesPerSec d * 8] else [])"
| "pico_records (OnPathQualityDelta d) QuicInflightBytesSample = (if bytesInTransit d > 0 then [bytesInTransit d] else [])"
| "pico_records _ h = []"

fun loop_records :: "('e \<Rightarrow> quic_histogram \<Rightarrow> uint64 list) \<Rightarrow> 'e loop_event \<Rightarrow> quic_collector \<Rightarrow> quic_histogram \<Rightarrow> uint64 list" where
  "loop_records recs (Event e) q h = recs e h"
| "loop_records recs LoopTick q h =
     (if h = EvbPktsSentPerLoop then [qc_counters q QuicPacketsSent - prevLoopPktsSent q]
      else if h = EvbPktsRecvPerLoop then [qc_counters q QuicPacketsReceived - prevLoopPktsRecv q] else [])"
| "loop_records recs (BindEvb evb) q h = []"

definition loop_rec :: "('e \<Rightarrow> quic_histogram \<Rightarrow> uint64 list) \<Rightarrow> 'e loop_event \<Rightarrow> quic_collector \<Rightarrow> observations" where
  "loop_rec recs e q h = (case h of QuicHistogram h' \<Rightarrow> loop_records recs e q h' | _ \<Rightarrow> [])"

definition quic_tracks :: "quic_collector \<Rightarrow> observations \<Rightarrow> bool" where
  "quic_tracks q obs \<longleftrightarrow> (\<forall>h. case h of
     QuicHistogram h' \<Rightarrow> observed (quic_histogram_bounds h') (obs h) (qc_histograms q h') | _ \<Rightarrow> obs h = [])"

lemma quic_primitives [simp]:
  "qc_histograms (qcount c n q) = qc_histograms q" "qc_histograms (qgaugeUp g q) = qc_histograms q"
  "qc_histograms (qgaugeDown g q) = qc_histograms q"
  "qc_histograms (qrecord h v q) = (qc_histograms q)(h := addValue v (qc_histograms q h))"
  "qc_counters (qrecord h v q) = qc_counters q"
  "prevLoopPktsSent (qcount c n q) = prevLoopPktsSent q" "prevLoopPktsSent (qgaugeUp g q) = prevLoopPktsSent q"
  "prevLoopPktsSent (qgaugeDown g q) = prevLoopPktsSent q" "prevLoopPktsSent (qrecord h v q) = prevLoopPktsSent q"
  "prevLoopPktsRecv (qcount c n q) = prevLoopPktsRecv q" "prevLoopPktsRecv (qgaugeUp g q) = prevLoopPktsRecv q"
  "prevLoopPktsRecv (qgaugeDown g q) = prevLoopPktsRecv q" "prevLoopPktsRecv (qrecord h v q) = prevLoopPktsRecv q"
  "owningEvb (qcount c n q) = owningEvb q" "owningEvb (qgaugeUp g q) = owningEvb q"
  "owningEvb (qgaugeDown g q) = owningEvb q" "owningEvb (qrecord h v q) = owningEvb q"
  by (simp_all add: qcount_def qgaugeUp_def qgaugeDown_def qrecord_def)

lemma quicCallback_histograms: "qc_histograms (quicCallback e q) h = fold addValue (quic_records e h) (qc_histograms q h)"
  by (cases e) simp_all

lemma picoCallback_histograms: "qc_histograms (picoCallback e q) h = fold addValue (pico_records e h) (qc_histograms q h)"
proof (cases e)
  case (OnPathQualityDelta d)
  then show ?thesis by (cases h) (simp_all add: onPathQualityDelta_def Let_def)
qed simp_all

lemma quic_tracks_step:
  assumes cb: "\<And>e q h. qc_histograms (callback e q) h = fold addValue (recs e h) (qc_histograms q h)"
    and "quic_tracks q obs"
  shows "quic_tracks (loop_step callback e q) (\<lambda>h. obs h @ loop_rec recs e q h)"
proof -
  have "qc_histograms (loop_step callback e q) h = fold addValue (loop_records recs e q h) (qc_histograms q h)" for h
    by (cases e) (simp_all add: cb loopObserver_def Let_def)
  then show ?thesis using assms(2)
    by (auto simp: quic_tracks_def loop_rec_def histogram_bounds_sorted intro!: observed_fold
        split: histogram_field.splits)
qed

lemma quic_tracks_init: "quic_tracks (mk_quic_collector evb) (\<lambda>_. [])"
  by (simp add: quic_tracks_def mk_quic_collector_def split: histogram_field.splits)

lemma quic_tracks_reports:
  assumes "quic_tracks q obs"
  shows "reports (quic_snapshot q) obs"
  unfolding reports_def
proof
  fix h
  show "histBuckets (quic_snapshot q) h = cumulative_of (histogram_bounds h) (obs h) \<and>
    histSum (quic_snapshot q) h = sum_list (obs h) \<and> histCount (quic_snapshot q) h = of_nat (length (obs h))"
    using assms [unfolded quic_tracks_def, THEN spec [of _ h]]
    by (cases h) (auto simp: quic_snapshot_def dest: observed_reports)
qed

interpretation quic: stats_collector "loop_step quicCallback" "mk_quic_collector evb" quic_snapshot
  "loop_rec quic_records" quic_tracks for evb :: "nat option"
  by unfold_locales (rule quic_tracks_init, rule quic_tracks_step, rule quicCallback_histograms, assumption,
    rule quic_tracks_reports)

interpretation pico: stats_collector "loop_step picoCallback" "mk_quic_collector evb" quic_snapshot
  "loop_rec pico_records" quic_tracks for evb :: "nat option"
  by unfold_locales (rule quic_tracks_init, rule quic_tracks_step, rule picoCallback_histograms, assumption,
    rule quic_tracks_reports)

subsubsection \<open>Event base\<close>

datatype evb_event = Sample uint64 uint64 | AddObserver nat | RemoveObserver nat

fun evb_step :: "evb_event \<Rightarrow> evb_collector \<Rightarrow> evb_collector" where
  "evb_step (Sample busyUs idleUs) c = record_loop busyUs idleUs c"
| "evb_step (AddObserver key) c = addLoopObserver key c"
| "evb_step (RemoveObserver key) c = removeLoopObserver key c"

fun evb_records :: "evb_event \<Rightarrow> evb_histogram \<Rightarrow> uint64 list" where
  "evb_records (Sample busyUs idleUs) EvbLoopBusy = [busyUs]"
| "evb_records (Sample busyUs idleUs) EvbLoopIdle = [idleUs]"
| "evb_records _ h = []"

definition evb_rec :: "evb_event \<Rightarrow> evb_collector \<Rightarrow> observations" where
  "evb_rec e c h = (case h of EvbHistogram h' \<Rightarrow> evb_records e h' | _ \<Rightarrow> [])"

definition evb_tracks :: "evb_collector \<Rightarrow> observations \<Rightarrow> bool" where
  "evb_tracks c obs \<longleftrightarrow> (\<forall>h. case h of
     EvbHistogram h' \<Rightarrow> observed (evb_histogram_bounds h') (obs h) (ec_histograms c h') | _ \<Rightarrow> obs h = [])"

lemma evb_step_histograms: "ec_histograms (evb_step e c) h = fold addValue (evb_records e h) (ec_histograms c h)"
  by (cases e; cases h) (simp_all add: record_loop_def addLoopObserver_def removeLoopObserver_def)

interpretation evb: stats_collector evb_step "mk_evb_collector evb" evb_snapshot evb_rec evb_tracks for evb :: nat
proof
  show "evb_tracks (mk_evb_collector evb) (\<lambda>_. [])"
    by (simp add: evb_tracks_def mk_evb_collector_def split: histogram_field.splits)
  fix c obs and e :: evb_event
  show "evb_tracks (evb_step e c) (\<lambda>h. obs h @ evb_rec e c h)" if "evb_tracks c obs"
    using that by (auto simp: evb_tracks_def evb_rec_def evb_step_histograms histogram_bounds_sorted
        intro!: observed_fold split: histogram_field.splits)
  show "reports (evb_snapshot c) obs" if "evb_tracks c obs"
    unfolding reports_def
  proof
    fix h
    show "histBuckets (evb_snapshot c) h = cumulative_of (histogram_bounds h) (obs h) \<and>
      histSum (evb_snapshot c) h = sum_list (obs h) \<and> histCount (evb_snapshot c) h = of_nat (length (obs h))"
      using that [unfolded evb_tracks_def, THEN spec [of _ h]]
      by (cases h) (auto simp: evb_snapshot_def dest: observed_reports)
  qed
qed

subsection \<open>Aggregation\<close>

text \<open>A collector that has gone through some history, with the values that history recorded.\<close>

inductive collected :: "collector \<Rightarrow> observations \<Rightarrow> bool" where
  moqI: "collected (MoqC (fold (moq_step (tbl :: int list)) es mk_moq_collector))
    (recorded (moq_step tbl) moq_rec es mk_moq_collector)"
| quicI: "collected (QuicC (fold (loop_step quicCallback) es (mk_quic_collector None)))
    (recorded (loop_step quicCallback) (loop_rec quic_records) es (mk_quic_collector None))"
| picoI: "collected (PicoC (fold (loop_step picoCallback) es (mk_quic_collector (Some evb))))
    (recorded (loop_step picoCallback) (loop_rec pico_records) es (mk_quic_collector (Some evb)))"
| evbI: "collected (EvbC (fold evb_step es (mk_evb_collector evb))) (recorded evb_step evb_rec es (mk_evb_collector evb))"

lemma collected_reports: "collected c obs \<Longrightarrow> reports (snapshot_of c) obs"
  by (induction rule: collected.induct)
    (simp_all only: snapshot_of.simps moq.run_reports quic.run_reports pico.run_reports evb.run_reports)

text \<open>The in-place compaction keeps exactly the references that still resolve.\<close>

lemma compact_loop_inv:
  assumes "k \<le> length cs0" "length cs = length cs0" "w \<le> k" "drop k cs = drop k cs0"
    "take w cs = filter (\<lambda>i. lock i \<noteq> None) (take k cs0)" "w = length (filter (\<lambda>i. lock i \<noteq> None) (take k cs0))"
    "live = List.map_filter lock (take k cs0)" "compact_loop lock [k..<length cs0] cs w live = (cs', w', live')"
  shows "take w' cs' = filter (\<lambda>i. lock i \<noteq> None) cs0 \<and> live' = List.map_filter lock cs0"
  using assms
proof (induction "length cs0 - k" arbitrary: k cs w live)
  case 0
  then show ?case by auto
next
  case (Suc n)
  then have k: "k < length cs0" by simp
  then have up: "[k..<length cs0] = k # [Suc k..<length cs0]" by (simp add: upt_conv_Cons)
  have csk: "cs ! k = cs0 ! k" using Suc.prems(2,4) k by (metis hd_drop_conv_nth)
  have tk: "take (Suc k) cs0 = take k cs0 @ [cs0 ! k]" using k by (rule take_Suc_conv_app_nth)
  have dk: "drop (Suc k) cs = drop (Suc k) cs0" using Suc.prems(4) by (metis drop_Suc tl_drop)
  let ?alive = "\<lambda>i. lock i \<noteq> None"
  have f: "filter ?alive (take (Suc k) cs0) = filter ?alive (take k cs0) @ (if ?alive (cs0 ! k) then [cs0 ! k] else [])"
    by (simp add: tk)
  have m: "List.map_filter lock (take (Suc k) cs0) = List.map_filter lock (take k cs0) @
      (case lock (cs0 ! k) of None \<Rightarrow> [] | Some s \<Rightarrow> [s])"
    by (simp add: tk map_filter_def split: option.splits)
  have n: "n = length cs0 - Suc k" "Suc k \<le> length cs0" "w \<le> Suc k" using Suc.hyps(2) k Suc.prems(3) by simp_all
  show ?case
  proof (cases "lock (cs0 ! k)")
    case None
    have r: "compact_loop lock [Suc k..<length cs0] cs w live = (cs', w', live')"
      using Suc.prems(8) by (simp add: up csk None)
    have f': "filter ?alive (take (Suc k) cs0) = filter ?alive (take k cs0)"
      and m': "List.map_filter lock (take (Suc k) cs0) = List.map_filter lock (take k cs0)"
      using f m None by simp_all
    show ?thesis
      by (rule Suc.hyps(1) [OF n(1) n(2) Suc.prems(2) n(3) dk _ _ _ r]; (simp only: f' m')?)
        (rule Suc.prems)+
  next
    case (Some s)
    have w: "w < length cs" using Suc.prems(2,3) k by simp
    have r: "compact_loop lock [Suc k..<length cs0] (cs[w := cs0 ! k]) (w + 1) (live @ [s]) = (cs', w', live')"
      using Suc.prems(8) by (simp add: up csk Some)
    have t: "take (w + 1) (cs[w := cs0 ! k]) = take w cs @ [cs0 ! k]"
      using w by (simp add: take_Suc_conv_app_nth)
    have d: "drop (Suc k) (cs[w := cs0 ! k]) = drop (Suc k) cs0" using dk Suc.prems(3) by simp
    have f': "filter ?alive (take (Suc k) cs0) = filter ?alive (take k cs0) @ [cs0 ! k]"
      and m': "List.map_filter lock (take (Suc k) cs0) = List.map_filter lock (take k cs0) @ [s]"
      using f m Some by simp_all
    have len: "length (cs[w := cs0 ! k]) = length cs0" and w1: "w + 1 \<le> Suc k"
      using Suc.prems(2,3) by simp_all
    have w2: "w + 1 = length (filter ?alive (take k cs0) @ [cs0 ! k])" using Suc.prems(6) by simp
    show ?thesis
      by (rule Suc.hyps(1) [OF n(1) n(2) len w1 d _ _ _ r]; simp only: f' m' t)
        (simp only: Suc.prems(5), rule w2, simp only: Suc.prems(7))
  qed
qed


definition alive :: "(nat \<Rightarrow> collector option) \<Rightarrow> nat \<Rightarrow> bool" where
  "alive lock i \<longleftrightarrow> lock i \<noteq> None"

definition polled :: "(nat \<Rightarrow> collector option) \<Rightarrow> nat list \<Rightarrow> nat list" where
  "polled lock refs = filter (\<lambda>i. case lock i of None \<Rightarrow> False | Some c \<Rightarrow> owningExecutor c \<noteq> None) refs"

lemma polled_snapshots:
  "map snapshot_of (filter (\<lambda>c. owningExecutor c \<noteq> None) (List.map_filter lock refs)) =
     map (\<lambda>i. snapshot_of (the (lock i))) (polled lock refs)"
  by (induction refs) (auto simp: polled_def map_filter_simps split: option.splits)

lemma aggregateAsync_eq:
  "aggregateAsync lock refs = (filter (alive lock) refs,
     fold (\<lambda>T S. snapshot_add S T) (map (\<lambda>i. snapshot_of (the (lock i))) (polled lock refs)) zero_snapshot)"
proof -
  obtain cs w live where r: "compact_loop lock [0..<length refs] refs 0 [] = (cs, w, live)"
    by (cases "compact_loop lock [0..<length refs] refs 0 []") auto
  have "take w cs = filter (\<lambda>i. lock i \<noteq> None) refs \<and> live = List.map_filter lock refs"
    by (rule compact_loop_inv [OF _ _ _ _ _ _ _ r]) (simp_all add: map_filter_simps)
  then have t: "take w cs = filter (alive lock) refs" and l: "live = List.map_filter lock refs"
    by (simp_all add: alive_def [abs_def])
  show ?thesis
    unfolding aggregateAsync_def r Let_def prod.case t l polled_snapshots ..
qed

lemma fold_counters: "counters (fold (\<lambda>T S. snapshot_add S T) Ts S) c = counters S c + sum_list (map (\<lambda>T. counters T c) Ts)"
  by (induction Ts arbitrary: S) (simp_all add: snapshot_add_def add.assoc)

lemma fold_gauges: "gauges (fold (\<lambda>T S. snapshot_add S T) Ts S) g = gauges S g + sum_list (map (\<lambda>T. gauges T g) Ts)"
  by (induction Ts arbitrary: S) (simp_all add: snapshot_add_def add.assoc)

text \<open>C18: What /metrics reports of all threads together. If every registered collector that is still
  alive has some history of events, aggregateAsync keeps exactly the live references, and in the
  combined snapshot each histogram bucket counts exactly the recorded values of all polled collectors
  (alive and bound to a thread) that are at most the bucket's bound, the last bucket and the count
  count all of them, the sum is their sum, and each counter and gauge is the sum over those collectors.\<close>

theorem aggregateAsync_exact:
  assumes "\<And>i c. i \<in> set refs \<Longrightarrow> lock i = Some c \<Longrightarrow> collected c (obs i)"
  shows "case aggregateAsync lock refs of (refs', S) \<Rightarrow>
    refs' = filter (alive lock) refs \<and>
    (\<forall>h. let vs = concat (map (\<lambda>i. obs i h) (polled lock refs)) in
       histBuckets S h = map (\<lambda>b. of_nat (length (filter (\<lambda>v. v \<le> b) vs))) (histogram_bounds h) @ [of_nat (length vs)] \<and>
       histSum S h = sum_list vs \<and> histCount S h = of_nat (length vs)) \<and>
    (\<forall>c. counters S c = sum_list (map (\<lambda>i. counters (snapshot_of (the (lock i))) c) (polled lock refs))) \<and>
    (\<forall>g. gauges S g = sum_list (map (\<lambda>i. gauges (snapshot_of (the (lock i))) g) (polled lock refs)))"
proof -
  have "reports (snapshot_of (the (lock i))) (obs i)" if "i \<in> set (polled lock refs)" for i
    using that assms [of i] by (auto simp: polled_def intro!: collected_reports split: option.splits)
  from reports_fold [OF reports_zero this]
  show ?thesis
    by (simp add: aggregateAsync_eq reports_def cumulative_of_def Let_def fold_counters fold_gauges
        zero_snapshot_def comp_def)
qed

text \<open>Two threads' collectors, one that is gone and one not yet bound to a thread.\<close>

definition demo_samples :: "evb_event list" where
  "demo_samples = [Sample 60 70, Sample 99 1000000]"

definition demo_lock :: "nat \<Rightarrow> collector option" where
  "demo_lock = [1 \<mapsto> EvbC (fold evb_step demo_samples (mk_evb_collector 5)),
     3 \<mapsto> QuicC (mk_quic_collector None), 4 \<mapsto> EvbC (fold evb_step (tl demo_samples) (mk_evb_collector 6))]"

definition demo_obs :: "nat \<Rightarrow> observations" where
  "demo_obs i = (if i = 1 then recorded evb_step evb_rec demo_samples (mk_evb_collector 5)
     else if i = 4 then recorded evb_step evb_rec (tl demo_samples) (mk_evb_collector 6)
     else recorded (loop_step quicCallback) (loop_rec quic_records) [] (mk_quic_collector None))"

lemma demo_collected:
  assumes "demo_lock i = Some c"
  shows "collected c (demo_obs i)"
proof -
  consider "i = 4" | "i = 3" | "i = 1" using assms by (fastforce simp: demo_lock_def split: if_splits)
  then show ?thesis
  proof cases
    case 1
    then have "c = EvbC (fold evb_step (tl demo_samples) (mk_evb_collector 6))" using assms by (simp add: demo_lock_def)
    then show ?thesis unfolding 1 demo_obs_def using evbI [of "tl demo_samples" 6] by simp
  next
    case 2
    then have c: "c = QuicC (fold (loop_step quicCallback) [] (mk_quic_collector None))"
      using assms by (simp add: demo_lock_def)
    have d: "demo_obs i = recorded (loop_step quicCallback) (loop_rec quic_records) [] (mk_quic_collector None)"
      unfolding 2 demo_obs_def by simp
    show ?thesis unfolding c d by (rule quicI)
  next
    case 3
    then have "c = EvbC (fold evb_step demo_samples (mk_evb_collector 5))" using assms by (simp add: demo_lock_def)
    then show ?thesis unfolding 3 demo_obs_def using evbI [of demo_samples 5] by simp
  qed
qed

lemma demo_polled: "polled demo_lock [1, 2, 3, 4] = [1, 4]" "filter (alive demo_lock) [1, 2, 3, 4] = [1, 3, 4]"
  by (simp_all add: polled_def alive_def demo_lock_def mk_quic_collector_def)

lemma demo_busy: "concat (map (\<lambda>i. demo_obs i (EvbHistogram EvbLoopBusy)) [1, 4]) = [60, 99, 99]"
  by (simp add: demo_obs_def demo_samples_def evb_rec_def)

theorem aggregateAsync_exact_witness:
  "fst (aggregateAsync demo_lock [1, 2, 3, 4]) = [1, 3, 4] \<and>
   histBuckets (snd (aggregateAsync demo_lock [1, 2, 3, 4])) (EvbHistogram EvbLoopBusy) = [0, 3, 3, 3, 3, 3, 3, 3, 3, 3, 3, 3]"
proof -
  note agg = aggregateAsync_exact [of "[1, 2, 3, 4]" demo_lock demo_obs, OF demo_collected,
      unfolded demo_polled case_prod_beta]
  have "histBuckets (snd (aggregateAsync demo_lock [1, 2, 3, 4])) (EvbHistogram EvbLoopBusy) =
    map (\<lambda>b. of_nat (length (filter (\<lambda>v. v \<le> b) [60, 99, 99]))) (histogram_bounds (EvbHistogram EvbLoopBusy)) @ [3]"
    using agg [THEN conjunct2, THEN conjunct1, THEN spec [of _ "EvbHistogram EvbLoopBusy"]]
    unfolding demo_busy Let_def by simp
  also have "\<dots> = [0, 3, 3, 3, 3, 3, 3, 3, 3, 3, 3, 3]"
    by (simp add: kEvbLoopBucketsUs_def)
  finally show ?thesis using agg [THEN conjunct1] by simp
qed

subsection \<open>The books of a MoQ collector\<close>

fun error_total :: "error_counter \<Rightarrow> moq_counter" where
  "error_total PubSubscribeErrorByCodes = PubSubscribeError"
| "error_total PubFetchErrorByCodes = PubFetchError"
| "error_total PubPublishNamespaceErrorByCodes = PubPublishNamespaceError"
| "error_total PubSubscribeNamespaceErrorByCodes = PubSubscribeNamespaceError"
| "error_total MoqPublishErrorByCodes = MoqPublishError"
| "error_total SubSubscribeErrorByCodes = SubSubscribeError"
| "error_total SubFetchErrorByCodes = SubFetchError"
| "error_total SubPublishNamespaceErrorByCodes = SubPublishNamespaceError"
| "error_total SubSubscribeNamespaceErrorByCodes = SubSubscribeNamespaceError"
| "error_total SubPublishErrorByCodes = SubPublishError"

definition codes_add_up :: "moq_collector \<Rightarrow> bool" where
  "codes_add_up m \<longleftrightarrow> (\<forall>e. length (mc_byCodes m e) = kRequestErrorCodeCount \<and>
     sum_list (mc_byCodes m e) = mc_counters m (error_total e))"

text \<open>Each gauge of things that are opened and closed is the difference of its counters.\<close>

definition gauges_add_up :: "moq_collector \<Rightarrow> bool" where
  "gauges_add_up m \<longleftrightarrow> (let g = (\<lambda>x. mc_gauges m (MoqGauge x)); c = mc_counters m in
     g PubActivePublishNamespaces = c PubPublishNamespaceSuccess - c PubPublishNamespaceDone - c PubPublishNamespaceCancel \<and>
     g PubActiveSubscribeNamespaces = c PubSubscribeNamespaceSuccess - c PubUnsubscribeNamespace \<and>
     g PubActiveSubscriptionStreams = c PubSubscriptionStreamOpened - c PubSubscriptionStreamClosed \<and>
     g SubActivePublishNamespaces = c SubPublishNamespaceSuccess - c SubPublishNamespaceDone - c SubPublishNamespaceCancel \<and>
     g SubActiveSubscribeNamespaces = c SubSubscribeNamespaceSuccess - c SubUnsubscribeNamespace \<and>
     g SubActiveSubscriptionStreams = c SubSubscriptionStreamOpened - c SubSubscriptionStreamClosed)"

text \<open>The two gauges of active publishers have no decrement.\<close>

definition publishers_only_grow :: "moq_collector \<Rightarrow> bool" where
  "publishers_only_grow m \<longleftrightarrow> mc_gauges m (MoqGauge PubActivePublishers) = mc_counters m MoqPublishSuccess \<and>
     mc_gauges m (MoqGauge SubActivePublishers) = mc_counters m MoqPublishOkSent"

lemma sum_list_bump: "i < length xs \<Longrightarrow> sum_list (xs[i := xs ! i + 1]) = sum_list xs + (1 :: uint64)"
  by (induction xs arbitrary: i) (auto simp: nth_Cons ac_simps split: nat.splits)

lemma requestErrorCodeIndex_bound: "requestErrorCodeIndex tbl code < kRequestErrorCodeCount"
  by (auto simp: requestErrorCodeIndex_def kRequestErrorCodeCount_def find_Some_iff split: option.splits)

lemmas moq_books = bumpCounter_def gaugeUp_def gaugeDown_def recordLatency_def onSessionStart_def onSessionEnd_def
  setExecutor_def

lemma codes_bump:
  assumes "codes_add_up m"
  shows "codes_add_up (countCode tbl e code (bumpCounter (error_total e) m))"
proof -
  have inj: "error_total e' = error_total e \<longleftrightarrow> e' = e" for e'
    by (cases e; cases e') simp_all
  show ?thesis
    using assms requestErrorCodeIndex_bound [of tbl code]
    by (auto simp: codes_add_up_def countCode_def bumpCounter_def Let_def inj sum_list_bump)
qed

lemma codes_other:
  assumes "codes_add_up m" "\<forall>e. c \<noteq> error_total e"
  shows "codes_add_up (bumpCounter c m)"
  using assms by (auto simp: codes_add_up_def bumpCounter_def)

lemma codes_gauge [simp]: "codes_add_up (gaugeUp g m) = codes_add_up m" "codes_add_up (gaugeDown g m) = codes_add_up m"
  "codes_add_up (recordLatency h v m) = codes_add_up m" "codes_add_up (setExecutor x m) = codes_add_up m"
  by (simp_all add: codes_add_up_def gaugeUp_def gaugeDown_def recordLatency_def setExecutor_def)

definition is_total :: "moq_counter \<Rightarrow> bool" where
  "is_total c \<longleftrightarrow> c \<in> {PubSubscribeError, PubFetchError, PubPublishNamespaceError, PubSubscribeNamespaceError,
     MoqPublishError, SubSubscribeError, SubFetchError, SubPublishNamespaceError, SubSubscribeNamespaceError, SubPublishError}"

lemma not_total: "\<not> is_total c \<Longrightarrow> c \<noteq> error_total e"
  by (cases e) (auto simp: is_total_def)

lemma codes_plain: "codes_add_up m \<Longrightarrow> \<not> is_total c \<Longrightarrow> codes_add_up (bumpCounter c m)"
  by (rule codes_other) (auto dest: not_total)

lemmas codes_bumps = codes_bump [of _ _ PubSubscribeErrorByCodes, simplified] codes_bump [of _ _ PubFetchErrorByCodes, simplified]
  codes_bump [of _ _ PubPublishNamespaceErrorByCodes, simplified] codes_bump [of _ _ PubSubscribeNamespaceErrorByCodes, simplified]
  codes_bump [of _ _ MoqPublishErrorByCodes, simplified] codes_bump [of _ _ SubSubscribeErrorByCodes, simplified]
  codes_bump [of _ _ SubFetchErrorByCodes, simplified] codes_bump [of _ _ SubPublishNamespaceErrorByCodes, simplified]
  codes_bump [of _ _ SubSubscribeNamespaceErrorByCodes, simplified] codes_bump [of _ _ SubPublishErrorByCodes, simplified]

lemma codes_publisher: "codes_add_up m \<Longrightarrow> codes_add_up (publisherCallback tbl e m)"
proof (cases e)
  case (PubShared s)
  assume "codes_add_up m"
  then show ?thesis unfolding PubShared by (cases s) (simp_all add: codes_bumps codes_plain is_total_def)
qed (simp_all add: codes_bumps codes_plain is_total_def)

lemma codes_subscriber: "codes_add_up m \<Longrightarrow> codes_add_up (subscriberCallback tbl e m)"
proof (cases e)
  case (SubShared s)
  assume "codes_add_up m"
  then show ?thesis unfolding SubShared by (cases s) (simp_all add: codes_bumps codes_plain is_total_def)
qed (simp_all add: codes_bumps codes_plain is_total_def)

lemma codes_step: "codes_add_up m \<Longrightarrow> codes_add_up (moq_step tbl e m)"
  by (cases e) (simp_all add: codes_publisher codes_subscriber onSessionStart_def onSessionEnd_def)

lemma countCode_books [simp]: "mc_gauges (countCode tbl e code m) = mc_gauges m" "mc_counters (countCode tbl e code m) = mc_counters m"
  by (simp_all add: countCode_def Let_def)

lemma gauges_step: "gauges_add_up m \<Longrightarrow> gauges_add_up (moq_step tbl e m)"
proof (cases e)
  case (AsPublisher p)
  assume m: "gauges_add_up m"
  show ?thesis
  proof (cases p)
    case (PubShared s)
    then show ?thesis using m by (cases s) (simp_all add: AsPublisher gauges_add_up_def Let_def moq_books)
  qed (use m in \<open>simp_all add: AsPublisher gauges_add_up_def Let_def moq_books\<close>)
next
  case (AsSubscriber p)
  assume m: "gauges_add_up m"
  show ?thesis
  proof (cases p)
    case (SubShared s)
    then show ?thesis using m by (cases s) (simp_all add: AsSubscriber gauges_add_up_def Let_def moq_books)
  qed (use m in \<open>simp_all add: AsSubscriber gauges_add_up_def Let_def moq_books\<close>)
qed (simp_all add: gauges_add_up_def Let_def moq_books)

lemma publishers_step: "publishers_only_grow m \<Longrightarrow> publishers_only_grow (moq_step tbl e m)"
proof (cases e)
  case (AsPublisher p)
  assume m: "publishers_only_grow m"
  show ?thesis
  proof (cases p)
    case (PubShared s)
    then show ?thesis using m by (cases s) (simp_all add: AsPublisher publishers_only_grow_def moq_books)
  qed (use m in \<open>simp_all add: AsPublisher publishers_only_grow_def moq_books\<close>)
next
  case (AsSubscriber p)
  assume m: "publishers_only_grow m"
  show ?thesis
  proof (cases p)
    case (SubShared s)
    then show ?thesis using m by (cases s) (simp_all add: AsSubscriber publishers_only_grow_def moq_books)
  qed (use m in \<open>simp_all add: AsSubscriber publishers_only_grow_def moq_books\<close>)
qed (simp_all add: publishers_only_grow_def moq_books)

text \<open>C19: After every sequence of callbacks a MoQ collector's books are consistent: each error counter is the
  sum of its breakdown by error code (whatever the codes, also unknown ones), and each gauge of open
  namespaces, namespace subscriptions and subscription streams is the number opened minus the number
  closed. The gauges of active publishers are the exception: each always equals the number of publishers
  ever accepted, since no callback decrements it.\<close>

theorem moq_collector_books:
  "let m = fold (moq_step tbl) es mk_moq_collector in codes_add_up m \<and> gauges_add_up m \<and> publishers_only_grow m"
proof -
  have "codes_add_up m \<and> gauges_add_up m \<and> publishers_only_grow m \<Longrightarrow>
    codes_add_up (fold (moq_step tbl) es m) \<and> gauges_add_up (fold (moq_step tbl) es m) \<and>
    publishers_only_grow (fold (moq_step tbl) es m)" for m
    by (induction es arbitrary: m) (simp_all add: codes_step gauges_step publishers_step)
  moreover have "codes_add_up mk_moq_collector \<and> gauges_add_up mk_moq_collector \<and> publishers_only_grow mk_moq_collector"
    by (simp add: codes_add_up_def gauges_add_up_def publishers_only_grow_def mk_moq_collector_def sum_list_replicate)
  ultimately show ?thesis by (simp add: Let_def)
qed

subsection \<open>Packets per loop\<close>

text \<open>The per-loop histograms have added up exactly what the collector had counted at its last loop.\<close>

definition loops_add_up :: "quic_collector \<Rightarrow> bool" where
  "loops_add_up d \<longleftrightarrow> hist_sum (qc_histograms d EvbPktsSentPerLoop) = prevLoopPktsSent d \<and>
     hist_sum (qc_histograms d EvbPktsRecvPerLoop) = prevLoopPktsRecv d"

definition worker_ok :: "worker \<Rightarrow> bool" where
  "worker_ok w \<longleftrightarrow> (\<forall>k d. hm_find (quics w) k = Some d \<longrightarrow> loops_add_up d) \<and>
     (\<forall>c. evbColl w = Some c \<longrightarrow> distinct (observers c) \<and>
       (\<forall>k\<in>set (observers c). \<exists>d. hm_find (quics w) k = Some d \<and> owningEvb d \<noteq> None))"

lemma callback_loops:
  "prevLoopPktsSent (quicCallback e d) = prevLoopPktsSent d" "prevLoopPktsRecv (quicCallback e d) = prevLoopPktsRecv d"
  "owningEvb (quicCallback e d) = owningEvb d"
  by (cases e; simp)+

lemma pico_callback_loops:
  "prevLoopPktsSent (picoCallback e d) = prevLoopPktsSent d" "prevLoopPktsRecv (picoCallback e d) = prevLoopPktsRecv d"
  "owningEvb (picoCallback e d) = owningEvb d"
  by (cases e; simp add: onPathQualityDelta_def Let_def)+

lemma quicCallback_add_up: "loops_add_up d \<Longrightarrow> loops_add_up (quicCallback e d)"
proof -
  have "quic_records e EvbPktsSentPerLoop = []" "quic_records e EvbPktsRecvPerLoop = []" by (cases e; simp)+
  then show "loops_add_up d \<Longrightarrow> loops_add_up (quicCallback e d)"
    by (simp add: loops_add_up_def callback_loops quicCallback_histograms)
qed

lemma picoCallback_add_up: "loops_add_up d \<Longrightarrow> loops_add_up (picoCallback e d)"
proof -
  have "pico_records e EvbPktsSentPerLoop = []" "pico_records e EvbPktsRecvPerLoop = []" by (cases e; simp)+
  then show "loops_add_up d \<Longrightarrow> loops_add_up (picoCallback e d)"
    by (simp add: loops_add_up_def pico_callback_loops picoCallback_histograms)
qed

lemma loopObserver_add_up:
  assumes "loops_add_up d"
  shows "loops_add_up (loopObserver d)" "owningEvb (loopObserver d) = owningEvb d"
    "qc_counters (loopObserver d) = qc_counters d" "prevLoopPktsSent (loopObserver d) = qc_counters d QuicPacketsSent"
    "prevLoopPktsRecv (loopObserver d) = qc_counters d QuicPacketsReceived"
    "hist_count (qc_histograms (loopObserver d) EvbPktsSentPerLoop) = hist_count (qc_histograms d EvbPktsSentPerLoop) + 1"
  using assms by (simp_all add: loops_add_up_def loopObserver_def Let_def addValue_def)

lemma mk_add_up: "loops_add_up (mk_quic_collector evb)"
  by (simp add: loops_add_up_def mk_quic_collector_def mk_histogram_def)

lemma run_observers_find:
  "distinct ks \<Longrightarrow> hm_find (fold run_observer ks qs) k =
     (if k \<in> set ks then map_option loopObserver (hm_find qs k) else hm_find qs k)"
proof (induction ks arbitrary: qs)
  case (Cons a ks)
  have "hm_find (run_observer a qs) k = (if k = a then map_option loopObserver (hm_find qs k) else hm_find qs k)"
    by (simp add: run_observer_def split: option.splits)
  then show ?case using Cons by (cases "k = a") simp_all
qed simp

lemma worker_ok_update:
  assumes "worker_ok w" "hm_find (quics w) k = Some d" "loops_add_up d'" "owningEvb d \<noteq> None \<Longrightarrow> owningEvb d' \<noteq> None"
  shows "worker_ok (w\<lparr>quics := hm_set k d' (quics w)\<rparr>)"
proof -
  have "\<exists>d. hm_find (hm_set k d' (quics w)) j = Some d \<and> owningEvb d \<noteq> None"
    if "evbColl w = Some c" "j \<in> set (observers c)" for j c
  proof -
    obtain dj where "hm_find (quics w) j = Some dj" "owningEvb dj \<noteq> None"
      using assms(1) \<open>evbColl w = Some c\<close> \<open>j \<in> set (observers c)\<close> unfolding worker_ok_def by blast
    then show ?thesis using assms(2,4) by (cases "j = k") auto
  qed
  then show ?thesis using assms(1,3) by (simp add: worker_ok_def)
qed

lemma worker_ok_capture:
  assumes "worker_ok w" "hm_find (quics w) k = Some d" "captureWorkerEvbIfNeeded current k d w = Some w'"
  shows "worker_ok w' \<and> (\<exists>d'. hm_find (quics w') k = Some d' \<and> (owningEvb d \<noteq> None \<longrightarrow> owningEvb d' \<noteq> None))"
proof (cases "owningEvb d")
  case (Some e)
  then show ?thesis using assms by (auto simp: captureWorkerEvbIfNeeded_def)
next
  case None
  then obtain e where e: "current = Some e"
    using assms(3) by (auto simp: captureWorkerEvbIfNeeded_def split: option.splits)
  let ?d = "d\<lparr>owningEvb := Some e\<rparr>" and ?w = "w\<lparr>quics := hm_set k (d\<lparr>owningEvb := Some e\<rparr>) (quics w)\<rparr>"
  have "loops_add_up d" using assms(1,2) by (auto simp: worker_ok_def)
  then have ok: "worker_ok ?w" using assms(1,2) by (intro worker_ok_update) (auto simp: loops_add_up_def)
  have new: "k \<notin> set (observers c)" if "evbColl w = Some c" for c
    using assms(1,2) None that by (force simp: worker_ok_def)
  show ?thesis
  proof (cases "evbColl w")
    case None
    then have "w' = ?w" using assms(3) \<open>owningEvb d = None\<close> e by (simp add: captureWorkerEvbIfNeeded_def Let_def)
    then show ?thesis using ok by simp
  next
    case (Some c)
    then have "w' = ?w\<lparr>evbColl := Some (addLoopObserver k c)\<rparr>"
      using assms(3) None e by (simp add: captureWorkerEvbIfNeeded_def Let_def)
    then show ?thesis using ok new Some unfolding worker_ok_def by (auto simp: addLoopObserver_def)
  qed
qed

lemma worker_ok_quic:
  assumes "worker_ok w" "quic_callback_at current k e w = Some w'"
  shows "worker_ok w'"
proof (cases "hm_find (quics w) k")
  case None
  then show ?thesis using assms by (simp add: quic_callback_at_def)
next
  case (Some d)
  define r where "r = (if captures e then captureWorkerEvbIfNeeded current k d w else Some w)"
  obtain w1 where w1: "r = Some w1"
    using assms(2) Some by (auto simp: quic_callback_at_def r_def split: option.splits)
  have "worker_ok w1 \<and> (\<exists>d'. hm_find (quics w1) k = Some d')"
    using w1 assms(1) Some worker_ok_capture [OF assms(1) Some, of current w1] by (auto simp: r_def split: if_splits)
  then obtain d1 where d1: "worker_ok w1" "hm_find (quics w1) k = Some d1" by blast
  then have "w' = w1\<lparr>quics := hm_set k (quicCallback e d1) (quics w1)\<rparr>"
    using assms(2) Some w1 by (simp add: quic_callback_at_def r_def)
  moreover have "loops_add_up d1" using d1 by (auto simp: worker_ok_def)
  ultimately show ?thesis using worker_ok_update [OF d1, of "quicCallback e d1"]
    by (simp add: quicCallback_add_up callback_loops)
qed

lemma worker_ok_sample:
  assumes "worker_ok w"
  shows "worker_ok (loopSample b i w)"
proof (cases "evbColl w")
  case None
  then show ?thesis using assms by (simp add: loopSample_def)
next
  case (Some c)
  then have "distinct (observers c)" using assms by (simp add: worker_ok_def)
  then show ?thesis
    using assms Some unfolding worker_ok_def
    by (fastforce simp: loopSample_def run_observers_find record_loop_def loopObserver_add_up split: if_splits)
qed

lemma worker_ok_other:
  assumes "worker_ok w"
  shows "worker_ok (make_callback k w)" "worker_ok (destroy_callback k w)" "worker_ok (pico_create evb observe k w)"
    "worker_ok (pico_callback_at k p w)"
proof -
  show "worker_ok (make_callback k w)"
    using assms mk_add_up unfolding worker_ok_def make_callback_def
    by (fastforce simp: hm_find_emplace split: option.splits if_splits)
  show "worker_ok (destroy_callback k w)"
    using assms unfolding worker_ok_def destroy_callback_def
    by (auto simp: removeLoopObserver_def)
  show "worker_ok (pico_callback_at k p w)"
  proof (cases "hm_find (quics w) k")
    case (Some d)
    then have "loops_add_up d" using assms by (auto simp: worker_ok_def)
    then show ?thesis using worker_ok_update [OF assms Some, of "picoCallback p d"] Some
      by (simp add: pico_callback_at_def picoCallback_add_up pico_callback_loops)
  qed (simp add: pico_callback_at_def assms)
  show "worker_ok (pico_create evb observe k w)"
  proof (cases "hm_find (quics w) k")
    case None
    then have "\<forall>c. evbColl w = Some c \<longrightarrow> k \<notin> set (observers c)" using assms by (force simp: worker_ok_def)
    then show ?thesis using assms None mk_add_up [of "Some evb"] unfolding worker_ok_def pico_create_def
      by (auto simp: Let_def addLoopObserver_def mk_quic_collector_def)
  qed (simp add: pico_create_def assms)
qed

lemma worker_ok_exec: "worker_ok w \<Longrightarrow> worker_exec op w = Some w' \<Longrightarrow> worker_ok w'"
  by (cases op) (auto simp: worker_ok_other worker_ok_sample dest: worker_ok_quic)

lemma worker_ok_run: "worker_ok w \<Longrightarrow> run_all worker_exec ops w = Some w' \<Longrightarrow> worker_ok w'"
proof (induction ops arbitrary: w)
  case (Cons op ops)
  then obtain w1 where "worker_exec op w = Some w1" "run_all worker_exec ops w1 = Some w'"
    by (auto simp: bind_eq_Some_conv)
  then show ?case using Cons worker_ok_exec by blast
qed simp

definition mk_worker :: "nat \<Rightarrow> worker" where
  "mk_worker evb = \<lparr>evbColl = Some (mk_evb_collector evb), quics = []\<rparr>"


text \<open>Two packets in and one out before the sample.\<close>

definition demo_worker_ops :: "worker_op list" where
  "demo_worker_ops = [MakeCallback 7, QuicEvent 7 (Some 2) OnPacketReceived, QuicEvent 7 (Some 2) OnPacketReceived,
     QuicEvent 7 (Some 2) OnPacketSent]"

lemma demo_worker: "\<exists>w c. run_all worker_exec demo_worker_ops (mk_worker 2) = Some w \<and> evbColl w = Some c \<and>
    7 \<in> set (observers c) \<and> (\<forall>d. hm_find (quics w) 7 = Some d \<longrightarrow> qc_counters d QuicPacketsReceived = 2)"
  by (simp add: demo_worker_ops_def mk_worker_def mk_evb_collector_def make_callback_def hm_emplace_def
      mk_quic_collector_def quic_callback_at_def captureWorkerEvbIfNeeded_def addLoopObserver_def qcount_def Let_def)


text \<open>Under picoquic the gauge of active streams is never written.\<close>

lemma pico_active_streams: "qc_gauges (picoCallback e d) QuicActiveStreams = qc_gauges d QuicActiveStreams"
proof (cases e)
  case (OnPathQualityDelta x)
  then show ?thesis by (simp add: onPathQualityDelta_def Let_def qcount_def qrecord_def)
qed (simp_all add: qcount_def qgaugeUp_def qgaugeDown_def)

end
