(* ===== verification/Topn_Filter.thy ===== *)
theory Topn_Filter
  imports Prelude
begin

section \<open>The property filter in front of a track\<close>

text \<open>
  relay/TopNFilter.h and relay/TopNFilter.cpp. The filter looks at the extensions of every object,
  tells the observer of a property when its value changed, records activity and passes the object on.
  A callback is an effect in the returned list, in the order of the calls; an empty std::function is
  a False flag. Times are numbers of clock ticks; the object behind activityTarget_ is an address
  that the effect \<open>WriteActivity\<close> writes. \<open>getIntExtension\<close> (moxygen) is the function \<open>ext\<close> from property
  types to values; what the downstream consumer answers is a parameter.
\<close>

record property_observer =
  onValueChanged :: bool
  onTrackEnded :: bool
  onActivity :: bool

record observer_entry =
  lastSeenValue :: "nat option"
  observer :: property_observer

record 'a topn_filter =
  tf_observers :: "(nat, observer_entry) hmap"
  tf_ended :: bool
  tf_activityTarget :: "'a option"
  tf_activityThreshold :: nat
  tf_lastActivityNotify :: "nat option"

datatype 'a filter_effect = ValueChanged nat nat | Activity nat | TrackEnded nat | WriteActivity 'a nat | Downstream

definition mk_topn_filter :: "'a topn_filter" where
  "mk_topn_filter = \<lparr>tf_observers = [], tf_ended = False, tf_activityTarget = None, tf_activityThreshold = 0, tf_lastActivityNotify = None\<rparr>"

definition registerObserver :: "nat \<Rightarrow> property_observer \<Rightarrow> 'a topn_filter \<Rightarrow> 'a topn_filter" where
  "registerObserver propertyType ob f =
     f\<lparr>tf_observers := hm_set propertyType \<lparr>lastSeenValue = None, observer = ob\<rparr> (tf_observers f)\<rparr>"

definition removeObserver :: "nat \<Rightarrow> 'a topn_filter \<Rightarrow> 'a topn_filter" where
  "removeObserver propertyType f = f\<lparr>tf_observers := hm_erase propertyType (tf_observers f)\<rparr>"

definition hasObservers :: "'a topn_filter \<Rightarrow> bool" where
  "hasObservers f = (tf_observers f \<noteq> [])"

definition setActivityTarget :: "'a option \<Rightarrow> 'a topn_filter \<Rightarrow> 'a topn_filter" where
  "setActivityTarget target f = f\<lparr>tf_activityTarget := target\<rparr>"

definition setActivityThreshold :: "nat \<Rightarrow> 'a topn_filter \<Rightarrow> 'a topn_filter" where
  "setActivityThreshold threshold f = f\<lparr>tf_activityThreshold := threshold\<rparr>"

text \<open>The body of the loop for an observer whose property the object has.\<close>

definition observe_value :: "'a option \<Rightarrow> nat \<Rightarrow> bool \<Rightarrow> nat \<Rightarrow> nat \<Rightarrow> observer_entry \<Rightarrow> observer_entry \<times> 'a filter_effect list \<times> bool" where
  "observe_value target now allows propertyType v e = (let
     changed = lastSeenValue e \<noteq> Some v;
     fires = allows \<and> onActivity (observer e)
     in (if changed then e\<lparr>lastSeenValue := Some v\<rparr> else e,
         (case target of Some a \<Rightarrow> [WriteActivity a now] | None \<Rightarrow> []) @
         (if changed \<and> onValueChanged (observer e) then [ValueChanged propertyType v] else []) @
         (if fires then [Activity propertyType] else []),
         fires))"

fun check_loop :: "'a option \<Rightarrow> nat \<Rightarrow> bool \<Rightarrow> (nat \<Rightarrow> nat option) \<Rightarrow> (nat, observer_entry) hmap \<Rightarrow>
    (nat, observer_entry) hmap \<times> 'a filter_effect list \<times> bool" where
  "check_loop target now allows ext [] = ([], [], False)"
| "check_loop target now allows ext ((propertyType, e) # es) = (case ext propertyType of
     None \<Rightarrow> (case check_loop target now allows ext es of (es', out, fired) \<Rightarrow> ((propertyType, e) # es', out, fired))
   | Some v \<Rightarrow> (case observe_value target now allows propertyType v e of (e', out1, fired1) \<Rightarrow>
       (case check_loop target now allows ext es of (es', out, fired) \<Rightarrow>
         ((propertyType, e') # es', out1 @ out, fired1 \<or> fired))))"

definition throttle_allows :: "nat \<Rightarrow> 'a topn_filter \<Rightarrow> bool" where
  "throttle_allows now f \<longleftrightarrow> tf_activityThreshold f > 0 \<and>
     (case tf_lastActivityNotify f of None \<Rightarrow> True | Some t \<Rightarrow> int now - int t \<ge> int (tf_activityThreshold f))"

definition checkProperties :: "nat \<Rightarrow> (nat \<Rightarrow> nat option) \<Rightarrow> 'a topn_filter \<Rightarrow> 'a topn_filter \<times> 'a filter_effect list" where
  "checkProperties now ext f = (if tf_observers f = [] then (f, [])
     else case check_loop (tf_activityTarget f) now (throttle_allows now f) ext (tf_observers f) of (es, out, fired) \<Rightarrow>
       (let f1 = f\<lparr>tf_observers := es\<rparr> in if fired then f1\<lparr>tf_lastActivityNotify := Some now\<rparr> else f1, out))"

definition notifyTrackEnded :: "'a topn_filter \<Rightarrow> 'a filter_effect list" where
  "notifyTrackEnded f = map (\<lambda>(p, e). TrackEnded p) (filter (\<lambda>(p, e). onTrackEnded (observer e)) (tf_observers f))"

text \<open>The overridden methods of the track consumer and of the subgroup consumer it wraps. \<open>answer\<close> is
  what the downstream consumer returns; beginSubgroup wraps it only when it is a consumer.\<close>

definition objectStream :: "nat \<Rightarrow> (nat \<Rightarrow> nat option) \<Rightarrow> 'r \<Rightarrow> 'a topn_filter \<Rightarrow> 'a topn_filter \<times> 'a filter_effect list \<times> 'r" where
  "objectStream now ext answer f = (case checkProperties now ext f of (f', out) \<Rightarrow> (f', out @ [Downstream], answer))"

definition datagram :: "nat \<Rightarrow> (nat \<Rightarrow> nat option) \<Rightarrow> 'r \<Rightarrow> 'a topn_filter \<Rightarrow> 'a topn_filter \<times> 'a filter_effect list \<times> 'r" where
  "datagram now ext answer f = (case checkProperties now ext f of (f', out) \<Rightarrow> (f', out @ [Downstream], answer))"

definition subgroup_object :: "nat \<Rightarrow> (nat \<Rightarrow> nat option) \<Rightarrow> 'r \<Rightarrow> 'a topn_filter \<Rightarrow> 'a topn_filter \<times> 'a filter_effect list \<times> 'r" where
  "subgroup_object now ext answer f = (case checkProperties now ext f of (f', out) \<Rightarrow> (f', out @ [Downstream], answer))"

definition subgroup_beginObject :: "nat \<Rightarrow> (nat \<Rightarrow> nat option) \<Rightarrow> 'r \<Rightarrow> 'a topn_filter \<Rightarrow> 'a topn_filter \<times> 'a filter_effect list \<times> 'r" where
  "subgroup_beginObject now ext answer f = (case checkProperties now ext f of (f', out) \<Rightarrow> (f', out @ [Downstream], answer))"

datatype 'c wrapped = TopNSubgroupConsumer 'c

definition beginSubgroup :: "('e + 'c) \<Rightarrow> 'e + 'c wrapped" where
  "beginSubgroup answer = (case answer of Inl err \<Rightarrow> Inl err | Inr consumer \<Rightarrow> Inr (TopNSubgroupConsumer consumer))"

definition publishDone :: "'r \<Rightarrow> 'a topn_filter \<Rightarrow> 'a topn_filter \<times> 'a filter_effect list \<times> 'r" where
  "publishDone answer f = (let f' = f\<lparr>tf_ended := True\<rparr> in (f', notifyTrackEnded f' @ [Downstream], answer))"

subsection \<open>What an observer hears\<close>

text \<open>Objects one after the other, each with its arrival time and extensions.\<close>

fun check_run :: "(nat \<times> (nat \<Rightarrow> nat option)) list \<Rightarrow> 'a topn_filter \<Rightarrow> 'a topn_filter \<times> 'a filter_effect list" where
  "check_run [] f = (f, [])"
| "check_run ((now, ext) # objs) f = (case checkProperties now ext f of (f1, out1) \<Rightarrow>
     (case check_run objs f1 of (f2, out2) \<Rightarrow> (f2, out1 @ out2)))"

text \<open>The values one property's observer is told.\<close>

definition told :: "nat \<Rightarrow> 'a filter_effect list \<Rightarrow> nat list" where
  "told p out = List.map_filter (\<lambda>x. case x of ValueChanged q v \<Rightarrow> if q = p then Some v else None | _ \<Rightarrow> None) out"

text \<open>The values of a property in a sequence of objects.\<close>

definition values_of :: "nat \<Rightarrow> (nat \<times> (nat \<Rightarrow> nat option)) list \<Rightarrow> nat list" where
  "values_of p objs = List.map_filter (\<lambda>(now, ext). ext p) objs"

lemma told_append [simp]: "told p (xs @ ys) = told p xs @ told p ys"
  by (simp add: told_def map_filter_def)

lemma told_simps [simp]: "told p [] = []" "told p (WriteActivity a n # xs) = told p xs" "told p (Activity q # xs) = told p xs"
  "told p (ValueChanged q v # xs) = (if q = p then v # told p xs else told p xs)"
  by (simp_all add: told_def map_filter_simps)

definition heard :: "nat option \<Rightarrow> nat option \<Rightarrow> nat list" where
  "heard prev v = (case v of None \<Rightarrow> [] | Some v \<Rightarrow> if prev = Some v then [] else [v])"

lemma told_observe:
  assumes "observe_value target now allows q v e = (e', out, fired)"
  shows "told p out = (if q = p \<and> lastSeenValue e \<noteq> Some v \<and> onValueChanged (observer e) then [v] else [])"
    "lastSeenValue e' = Some v" "observer e' = observer e"
  using assms by (auto simp: observe_value_def Let_def split: option.splits if_splits)

lemma check_loop_told:
  assumes "check_loop target now allows ext es = (es', out, fired)" "distinct (hm_keys es)"
  shows "hm_keys es' = hm_keys es \<and>
    (case hm_find es p of None \<Rightarrow> told p out = []
     | Some e \<Rightarrow> told p out = (if onValueChanged (observer e) then heard (lastSeenValue e) (ext p) else []) \<and>
         (\<exists>e'. hm_find es' p = Some e' \<and> observer e' = observer e \<and>
           lastSeenValue e' = (case ext p of None \<Rightarrow> lastSeenValue e | Some v \<Rightarrow> Some v)))"
  using assms
proof (induction es arbitrary: es' out fired)
  case (Cons x es)
  obtain q e where x: "x = (q, e)" by force
  obtain es1 out1 fired1 where rest: "check_loop target now allows ext es = (es1, out1, fired1)"
    by (cases "check_loop target now allows ext es") auto
  have d: "distinct (hm_keys es)" "q \<notin> set (hm_keys es)" using Cons.prems(2) by (simp_all add: x)
  note ih = Cons.IH [OF rest d(1)]
  have q: "hm_find es q = None" using d(2) by (simp add: map_of_eq_None_iff)
  show ?case
  proof (cases "ext q")
    case None
    then have r: "es' = (q, e) # es1" "out = out1" using Cons.prems(1) by (simp_all add: x rest)
    show ?thesis
    proof (cases "p = q")
      case True
      then show ?thesis using ih q None unfolding r x by (simp add: heard_def)
    next
      case False
      then show ?thesis using ih unfolding r x by (simp split: option.splits)
    qed
  next
    case (Some v)
    obtain e' outq firedq where ob: "observe_value target now allows q v e = (e', outq, firedq)"
      by (cases "observe_value target now allows q v e") auto
    have r: "es' = (q, e') # es1" "out = outq @ out1" using Cons.prems(1) Some by (simp_all add: x rest ob)
    note t = told_observe(1) [OF ob, of p] told_observe(2,3) [OF ob]
    show ?thesis
    proof (cases "p = q")
      case True
      then show ?thesis using ih q Some t unfolding r x by (simp add: heard_def)
    next
      case False
      then show ?thesis using ih t unfolding r x by (simp split: option.splits)
    qed
  qed
qed simp

definition observes :: "nat \<Rightarrow> nat option \<Rightarrow> 'a topn_filter \<Rightarrow> bool" where
  "observes p prev f \<longleftrightarrow> distinct (hm_keys (tf_observers f)) \<and>
     (\<exists>e. hm_find (tf_observers f) p = Some e \<and> onValueChanged (observer e) \<and> lastSeenValue e = prev)"

lemma checkProperties_told:
  assumes "observes p prev f" "checkProperties now ext f = (f', out)"
  shows "told p out = heard prev (ext p) \<and> observes p (case ext p of None \<Rightarrow> prev | Some v \<Rightarrow> Some v) f'"
proof -
  obtain e where e: "hm_find (tf_observers f) p = Some e" "onValueChanged (observer e)" "lastSeenValue e = prev"
    and d: "distinct (hm_keys (tf_observers f))" using assms(1) by (auto simp: observes_def)
  obtain es o1 fired where c: "check_loop (tf_activityTarget f) now (throttle_allows now f) ext (tf_observers f) = (es, o1, fired)"
    by (cases "check_loop (tf_activityTarget f) now (throttle_allows now f) ext (tf_observers f)") auto
  have "tf_observers f \<noteq> []" using e by auto
  then have r: "out = o1" "tf_observers f' = es" using assms(2) c by (auto simp: checkProperties_def Let_def)
  show ?thesis using check_loop_told [OF c d, where p = p] e d by (auto simp: r observes_def)
qed

lemma check_run_told:
  "observes p prev f \<Longrightarrow> told p (snd (check_run objs f)) =
     (case prev of None \<Rightarrow> remdups_adj (values_of p objs) | Some v \<Rightarrow> tl (remdups_adj (v # values_of p objs)))"
proof (induction objs arbitrary: f prev)
  case Nil
  then show ?case by (simp add: values_of_def map_filter_simps split: option.splits)
next
  case (Cons x objs)
  obtain now ext where x: "x = (now, ext)" by force
  obtain f1 out where c: "checkProperties now ext f = (f1, out)" by (cases "checkProperties now ext f")
  note t = checkProperties_told [OF Cons.prems c]
  have ih: "told p (snd (check_run objs f1)) = (case (case ext p of None \<Rightarrow> prev | Some v \<Rightarrow> Some v) of
      None \<Rightarrow> remdups_adj (values_of p objs) | Some v \<Rightarrow> tl (remdups_adj (v # values_of p objs)))"
    using Cons.IH t by blast
  have vs: "values_of p ((now, ext) # objs) = (case ext p of None \<Rightarrow> values_of p objs | Some v \<Rightarrow> v # values_of p objs)"
    by (simp add: values_of_def map_filter_simps split: option.splits)
  have tl1: "v # tl (remdups_adj (v # ys)) = remdups_adj (v # ys)" for v and ys :: "nat list"
    by (metis list.sel(1) list.sel(3) hd_remdups_adj neq_Nil_conv remdups_adj_Nil_iff list.distinct(1))
  show ?case
    using t ih by (auto simp: x c vs heard_def tl1 case_prod_beta split: option.splits if_splits)
qed

text \<open>C25: An observer registered for a property is told exactly the changes: over any sequence of objects,
  whatever other properties and observers there are and however activity is throttled, the values it receives are the values
  the property takes in those objects, in order, with runs of equal values collapsed to one.\<close>

theorem observer_hears_changes:
  assumes "distinct (hm_keys (tf_observers f))" "onValueChanged ob"
  shows "told p (snd (check_run objs (registerObserver p ob f))) = remdups_adj (values_of p objs)"
proof -
  have "observes p None (registerObserver p ob f)"
    using assms by (simp add: observes_def registerObserver_def)
  from check_run_told [OF this, of objs] show ?thesis by simp
qed

theorem observer_hears_changes_witness:
  "told 7 (snd (check_run [(1, [7 \<mapsto> 3]), (2, Map.empty), (3, [7 \<mapsto> 3]), (4, [7 \<mapsto> 5]), (5, [7 \<mapsto> 3])]
     (registerObserver 7 \<lparr>onValueChanged = True, onTrackEnded = True, onActivity = True\<rparr>
       (registerObserver 2 \<lparr>onValueChanged = False, onTrackEnded = True, onActivity = True\<rparr> (mk_topn_filter :: unit topn_filter)))))
   = [3, 5, 3]"
  by (subst observer_hears_changes)
    (simp_all add: mk_topn_filter_def registerObserver_def values_of_def map_filter_simps)

subsection \<open>Throttled activity\<close>

text \<open>The arrival times of the objects for which some onActivity callback runs.\<close>

fun activity_times :: "(nat \<times> (nat \<Rightarrow> nat option)) list \<Rightarrow> 'a topn_filter \<Rightarrow> nat list" where
  "activity_times [] f = []"
| "activity_times ((now, ext) # objs) f = (case checkProperties now ext f of (f1, out) \<Rightarrow>
     (if \<exists>p. Activity p \<in> set out then [now] else []) @ activity_times objs f1)"

lemma check_loop_fired:
  assumes "check_loop target now allows ext es = (es', out, fired)"
  shows "fired = (\<exists>p. Activity p \<in> set out)" "fired \<Longrightarrow> allows"
proof -
  have ob: "f = (\<exists>p. Activity p \<in> set out) \<and> (f \<longrightarrow> allows)"
    if "observe_value target now allows q v e = (e', out, f)" for q v e e' f and out :: "'a filter_effect list"
    using that by (auto simp: observe_value_def Let_def split: option.splits if_splits)
  have "fired = (\<exists>p. Activity p \<in> set out) \<and> (fired \<longrightarrow> allows)"
    using assms
  proof (induction es arbitrary: es' out fired)
    case (Cons x es)
    obtain q e where x: "x = (q, e)" by force
    obtain es1 out1 fired1 where rest: "check_loop target now allows ext es = (es1, out1, fired1)"
      by (cases "check_loop target now allows ext es") auto
    note ih = Cons.IH [OF rest]
    show ?case
    proof (cases "ext q")
      case None
      then have "out = out1" "fired = fired1" using Cons.prems by (simp_all add: x rest)
      then show ?thesis using ih by simp
    next
      case (Some v)
      obtain e' outq fq where o: "observe_value target now allows q v e = (e', outq, fq)"
        by (cases "observe_value target now allows q v e") auto
      have "fired = (fq \<or> fired1)" "out = outq @ out1" using Cons.prems Some by (simp_all add: x rest o)
      then show ?thesis using ih ob [OF o] by auto
    qed
  qed simp
  then show "fired = (\<exists>p. Activity p \<in> set out)" "fired \<Longrightarrow> allows" by simp_all
qed

lemma checkProperties_activity:
  assumes "checkProperties now ext f = (f', out)"
  shows "tf_activityThreshold f' = tf_activityThreshold f"
    "\<exists>p. Activity p \<in> set out \<Longrightarrow> throttle_allows now f \<and> tf_lastActivityNotify f' = Some now"
    "\<nexists>p. Activity p \<in> set out \<Longrightarrow> tf_lastActivityNotify f' = tf_lastActivityNotify f"
proof -
  obtain es o1 fired where c: "check_loop (tf_activityTarget f) now (throttle_allows now f) ext (tf_observers f) = (es, o1, fired)"
    by (cases "check_loop (tf_activityTarget f) now (throttle_allows now f) ext (tf_observers f)") auto
  note fired = check_loop_fired [OF c]
  show "tf_activityThreshold f' = tf_activityThreshold f"
    using assms c by (auto simp: checkProperties_def Let_def split: if_splits)
  show "throttle_allows now f \<and> tf_lastActivityNotify f' = Some now" if "\<exists>p. Activity p \<in> set out"
    using assms c fired that by (auto simp: checkProperties_def Let_def split: if_splits)
  show "tf_lastActivityNotify f' = tf_lastActivityNotify f" if "\<nexists>p. Activity p \<in> set out"
    using assms c fired that by (auto simp: checkProperties_def Let_def split: if_splits)
qed

definition spaced :: "nat \<Rightarrow> nat list \<Rightarrow> bool" where
  "spaced d ts \<longleftrightarrow> successively (\<lambda>a b. int d \<le> int b - int a) ts"

lemma activity_times_spaced:
  "spaced (tf_activityThreshold f)
     ((case tf_lastActivityNotify f of None \<Rightarrow> [] | Some t \<Rightarrow> [t]) @ activity_times objs f) \<and>
   (tf_activityThreshold f = 0 \<longrightarrow> activity_times objs f = [])"
proof (induction objs arbitrary: f)
  case Nil
  then show ?case by (simp add: spaced_def split: option.splits)
next
  case (Cons x objs)
  obtain now ext where x: "x = (now, ext)" by force
  obtain f1 out where c: "checkProperties now ext f = (f1, out)" by (cases "checkProperties now ext f")
  note a = checkProperties_activity [OF c]
  note ih = Cons.IH [of f1]
  show ?case
  proof (cases "\<exists>p. Activity p \<in> set out")
    case True
    note a2 = a(2) [OF True]
    have "activity_times ((now, ext) # objs) f = now # activity_times objs f1" using True by (simp add: c)
    then show ?thesis using ih a(1) a2
      by (auto simp: x spaced_def throttle_allows_def split: option.splits)
  next
    case False
    have "activity_times ((now, ext) # objs) f = activity_times objs f1" using False by (simp add: c)
    then show ?thesis using ih a(1) a(3) [OF False] by (simp add: x)
  qed
qed

text \<open>C26: Idle sweeps are throttled per track: over any sequence of objects, two consecutive times at which
  the filter runs onActivity callbacks are at least the configured threshold apart, and with threshold zero it never runs one.\<close>

theorem activity_throttled:
  "spaced (tf_activityThreshold f) (activity_times objs f) \<and> (tf_activityThreshold f = 0 \<longrightarrow> activity_times objs f = [])"
  using activity_times_spaced [of f objs]
  by (auto simp: spaced_def successively_append_iff split: option.splits)

theorem activity_throttled_witness:
  "let ob = \<lparr>onValueChanged = True, onTrackEnded = True, onActivity = True\<rparr>;
     f = registerObserver 7 ob (setActivityThreshold 10 (mk_topn_filter :: unit topn_filter));
     objs = [(1, [7 \<mapsto> 3]), (5, [7 \<mapsto> 3]), (11, [7 \<mapsto> 4]), (20, [7 \<mapsto> 5]), (30, [7 \<mapsto> 5])] in
   activity_times objs f = [1, 11, 30] \<and> spaced 10 (activity_times objs f)"
proof -
  define f where "f = registerObserver 7 \<lparr>onValueChanged = True, onTrackEnded = True, onActivity = True\<rparr>
    (setActivityThreshold 10 (mk_topn_filter :: unit topn_filter))"
  have "tf_activityThreshold f = 10" by (simp add: f_def registerObserver_def setActivityThreshold_def)
  moreover have "activity_times [(1, [7 \<mapsto> 3]), (5, [7 \<mapsto> 3]), (11, [7 \<mapsto> 4]), (20, [7 \<mapsto> 5]), (30, [7 \<mapsto> 5])] f = [1, 11, 30]"
    by (simp add: f_def registerObserver_def setActivityThreshold_def mk_topn_filter_def checkProperties_def
        throttle_allows_def observe_value_def Let_def)
  ultimately show ?thesis using activity_throttled [of f, THEN conjunct1] unfolding Let_def f_def by metis
qed

end
