(* ===== verification/Subscription_Registry.thy ===== *)
theory Subscription_Registry
  imports Topn_Filter
begin

section \<open>The subscription registry\<close>

text \<open>
  SubscriptionRegistry.h and SubscriptionRegistry.cpp. Forwarders, sessions, handles and filters are
  moxygen objects, known here by identity (a number). A node of the F14NodeMap keeps its address, so the
  address identifies the entry, its promise and its time stamp. The shared state of every promise
  ever made is kept in \<open>promises\<close>, because futures outlive the entry; destroying an unfulfilled
  folly::coro::SharedPromise breaks it, and fulfilling one twice raises PromiseAlreadySatisfied.
  A weak pointer that has expired never equals an entry's forwarder, which is alive, so comparing
  with lock() is comparing identities. \<open>registry_step\<close> interleaves everything that changes the registry;
  the invariant \<open>registry_inv\<close> is proved by rule induction.
\<close>

datatype sub_error = UpstreamSubscribeFailed | BrokenPromise | SubscriptionGone | PromiseAlreadySatisfied

datatype promise_state = Unfulfilled | Fulfilled | Failed sub_error

record relay_subscription =
  rs_forwarder :: nat
  rs_upstream :: "nat option"
  rs_requestID :: nat
  rs_handle :: "nat option"
  rs_address :: nat
  rs_isPublish :: bool
  rs_topNFilter :: "nat option"
  rs_lastObjectTime :: nat

record 'n registry =
  subscriptions :: "('n, relay_subscription) hmap"
  promises :: "nat \<Rightarrow> promise_state"
  nextAddress :: nat

record 'n pending =
  p_ftn :: 'n
  p_forwarder :: nat
  p_active :: bool

definition new_registry :: "'n registry" where
  "new_registry = \<lparr>subscriptions = [], promises = (\<lambda>_. Unfulfilled), nextAddress = 0\<rparr>"

text \<open>emplace of a new entry with \<open>RelaySubscription(f, u)\<close>, and erase of an entry.\<close>

definition new_subscription :: "nat \<Rightarrow> nat option \<Rightarrow> nat \<Rightarrow> nat \<Rightarrow> relay_subscription" where
  "new_subscription f u now address = \<lparr>rs_forwarder = f, rs_upstream = u, rs_requestID = 0, rs_handle = None,
     rs_address = address, rs_isPublish = False, rs_topNFilter = None, rs_lastObjectTime = now\<rparr>"

definition erase_entry :: "'n \<Rightarrow> 'n registry \<Rightarrow> 'n registry" where
  "erase_entry ftn r = (case hm_find (subscriptions r) ftn of None \<Rightarrow> r
     | Some e \<Rightarrow> r\<lparr>subscriptions := hm_erase ftn (subscriptions r),
         promises := (if promises r (rs_address e) = Unfulfilled
           then (promises r)(rs_address e := Failed BrokenPromise) else promises r)\<rparr>)"

definition set_promise :: "nat \<Rightarrow> promise_state \<Rightarrow> 'n registry \<Rightarrow> sub_error + 'n registry" where
  "set_promise a v r = (if promises r a = Unfulfilled then Inr (r\<lparr>promises := (promises r)(a := v)\<rparr>)
     else Inl PromiseAlreadySatisfied)"

datatype 'n subscribe_result = FirstSubscriber nat "'n pending" | AwaitSubsequent 'n nat

text \<open>\<open>fwd\<close> is the forwarder make_shared creates, \<open>flt\<close> the filter chainBuilder returns.\<close>

definition getOrCreateFromSubscribe :: "'n \<Rightarrow> nat \<Rightarrow> nat option \<Rightarrow> nat \<Rightarrow> 'n registry \<Rightarrow> 'n subscribe_result \<times> 'n registry" where
  "getOrCreateFromSubscribe ftn fwd flt now r = (case hm_find (subscriptions r) ftn of
     None \<Rightarrow> let e = (new_subscription fwd None now (nextAddress r))\<lparr>rs_topNFilter := flt\<rparr> in
       (FirstSubscriber fwd \<lparr>p_ftn = ftn, p_forwarder = fwd, p_active = True\<rparr>,
        r\<lparr>subscriptions := hm_set ftn e (subscriptions r), nextAddress := nextAddress r + 1\<rparr>)
   | Some e \<Rightarrow> (AwaitSubsequent ftn (rs_address e), r))"

datatype await_result = Suspended | Raised sub_error | Subsequent nat

definition awaitSubsequent :: "'n \<Rightarrow> nat \<Rightarrow> 'n registry \<Rightarrow> await_result" where
  "awaitSubsequent ftn future r = (case promises r future of
     Unfulfilled \<Rightarrow> Suspended
   | Failed err \<Rightarrow> Raised err
   | Fulfilled \<Rightarrow> (case hm_find (subscriptions r) ftn of None \<Rightarrow> Raised SubscriptionGone
       | Some e \<Rightarrow> Subsequent (rs_forwarder e)))"

definition completeSubscription :: "'n \<Rightarrow> nat \<Rightarrow> nat option \<Rightarrow> nat \<Rightarrow> nat option \<Rightarrow> 'n registry \<Rightarrow> sub_error + (bool \<times> 'n registry)" where
  "completeSubscription ftn weakForwarder handle requestID upstreamSession r = (case hm_find (subscriptions r) ftn of
     None \<Rightarrow> Inr (False, r)
   | Some e \<Rightarrow> if rs_forwarder e \<noteq> weakForwarder then Inr (False, r)
       else (case set_promise (rs_address e) Fulfilled (r\<lparr>subscriptions := hm_set ftn
           (e\<lparr>rs_handle := handle, rs_requestID := requestID, rs_upstream := upstreamSession\<rparr>) (subscriptions r)\<rparr>) of
         Inl err \<Rightarrow> Inl err | Inr r' \<Rightarrow> Inr (True, r')))"

definition failAndRemove :: "'n \<Rightarrow> nat \<Rightarrow> 'n registry \<Rightarrow> sub_error + 'n registry" where
  "failAndRemove ftn weakForwarder r = (case hm_find (subscriptions r) ftn of
     None \<Rightarrow> Inr r
   | Some e \<Rightarrow> if rs_forwarder e = weakForwarder
       then (case set_promise (rs_address e) (Failed UpstreamSubscribeFailed) r of
         Inl err \<Rightarrow> Inl err | Inr r' \<Rightarrow> Inr (erase_entry ftn r'))
       else Inr r)"

text \<open>UpstreamSubscribePending::complete and its destructor.\<close>

definition pending_complete :: "nat option \<Rightarrow> nat \<Rightarrow> nat option \<Rightarrow> 'n pending \<Rightarrow> 'n registry \<Rightarrow> sub_error + (bool \<times> 'n pending \<times> 'n registry)" where
  "pending_complete handle requestID upstreamSession p r =
     (case completeSubscription (p_ftn p) (p_forwarder p) handle requestID upstreamSession r of
        Inl err \<Rightarrow> Inl err | Inr (ok, r') \<Rightarrow> Inr (ok, p\<lparr>p_active := False\<rparr>, r'))"

definition pending_destroy :: "'n pending \<Rightarrow> 'n registry \<Rightarrow> sub_error + 'n registry" where
  "pending_destroy p r = (if p_active p then failAndRemove (p_ftn p) (p_forwarder p) r else Inr r)"

text \<open>createFromPublish: the evicted forwarder and handle, the filter with its activity target set to the time
  stamp of the new entry, and the registry.\<close>

definition createFromPublish :: "'n \<Rightarrow> nat \<Rightarrow> nat option \<Rightarrow> nat \<Rightarrow> nat option \<Rightarrow> nat \<Rightarrow> nat \<Rightarrow> nat topn_filter \<Rightarrow> 'n registry \<Rightarrow>
    (nat \<times> nat option) option \<times> nat topn_filter \<times> 'n registry" where
  "createFromPublish ftn fwd session requestID handle now flt chain r = (let
     evicted = map_option (\<lambda>e. (rs_forwarder e, rs_handle e)) (hm_find (subscriptions r) ftn);
     r1 = erase_entry ftn r;
     a = nextAddress r1;
     e = (new_subscription fwd session now a)
       \<lparr>rs_requestID := requestID, rs_handle := handle, rs_isPublish := True, rs_topNFilter := Some flt\<rparr>
     in (evicted, setActivityTarget (Some a) chain,
         r1\<lparr>subscriptions := hm_set ftn e (subscriptions r1), promises := (promises r1)(a := Fulfilled),
           nextAddress := a + 1\<rparr>))"

subsection \<open>Lookup, views and removal\<close>

definition reg_exists :: "'n \<Rightarrow> 'n registry \<Rightarrow> bool" where
  "reg_exists ftn r = (hm_find (subscriptions r) ftn \<noteq> None)"

definition getForwarder :: "'n \<Rightarrow> 'n registry \<Rightarrow> nat option" where
  "getForwarder ftn r = map_option rs_forwarder (hm_find (subscriptions r) ftn)"

definition getTopNView :: "'n \<Rightarrow> 'n registry \<Rightarrow> (nat \<times> nat option \<times> nat) option" where
  "getTopNView ftn r = map_option (\<lambda>e. (rs_forwarder e, rs_topNFilter e, rs_lastObjectTime e)) (hm_find (subscriptions r) ftn)"

definition isFulfilled :: "nat \<Rightarrow> 'n registry \<Rightarrow> bool" where
  "isFulfilled a r = (promises r a \<noteq> Unfulfilled)"

record upstream_view =
  uv_forwarder :: nat
  uv_upstream :: "nat option"
  uv_handle :: "nat option"
  uv_requestID :: nat
  uv_isPublish :: bool
  uv_isReady :: bool

definition getUpstreamView :: "'n \<Rightarrow> 'n registry \<Rightarrow> upstream_view option" where
  "getUpstreamView ftn r = map_option (\<lambda>e. \<lparr>uv_forwarder = rs_forwarder e, uv_upstream = rs_upstream e,
     uv_handle = rs_handle e, uv_requestID = rs_requestID e, uv_isPublish = rs_isPublish e,
     uv_isReady = isFulfilled (rs_address e) r\<rparr>) (hm_find (subscriptions r) ftn)"

definition getFetchView :: "'n \<Rightarrow> 'n registry \<Rightarrow> (nat \<times> nat option \<times> nat \<times> bool) option" where
  "getFetchView ftn r = map_option (\<lambda>e. (rs_forwarder e, rs_upstream e, rs_requestID e, isFulfilled (rs_address e) r))
     (hm_find (subscriptions r) ftn)"

text \<open>\<open>is_empty\<close> is MoQForwarder::empty.\<close>

definition onPublisherTerminated :: "(nat \<Rightarrow> bool) \<Rightarrow> 'n \<Rightarrow> 'n registry \<Rightarrow> nat option \<times> 'n registry" where
  "onPublisherTerminated is_empty ftn r = (case hm_find (subscriptions r) ftn of
     None \<Rightarrow> (None, r)
   | Some e \<Rightarrow> let r1 = r\<lparr>subscriptions := hm_set ftn (e\<lparr>rs_handle := None, rs_upstream := None\<rparr>) (subscriptions r)\<rparr> in
       if is_empty (rs_forwarder e) then (None, erase_entry ftn r1) else (Some (rs_forwarder e), r1))"

definition reg_remove :: "'n \<Rightarrow> 'n registry \<Rightarrow> 'n registry" where
  "reg_remove ftn r = erase_entry ftn r"

record 'n entry_view =
  ev_ftn :: 'n
  ev_forwarder :: nat
  ev_upstream :: "nat option"
  ev_isPublish :: bool
  ev_lastObjectTime :: nat

definition entry_view_of :: "'n \<Rightarrow> relay_subscription \<Rightarrow> 'n entry_view" where
  "entry_view_of ftn e = \<lparr>ev_ftn = ftn, ev_forwarder = rs_forwarder e, ev_upstream = rs_upstream e,
     ev_isPublish = rs_isPublish e, ev_lastObjectTime = rs_lastObjectTime e\<rparr>"

definition removeIf :: "('n \<Rightarrow> 'n entry_view \<Rightarrow> bool) \<Rightarrow> 'n registry \<Rightarrow> 'n registry" where
  "removeIf predicate r = fold (\<lambda>(ftn, e) r. if predicate ftn (entry_view_of ftn e) then erase_entry ftn r else r)
     (subscriptions r) r"

definition forEach :: "('n entry_view \<Rightarrow> 'b) \<Rightarrow> 'n registry \<Rightarrow> 'b list" where
  "forEach fn r = map (\<lambda>(ftn, e). fn (entry_view_of ftn e)) (subscriptions r)"

subsection \<open>Interleavings\<close>

text \<open>The registry with the open upstream subscribes and the suspended subsequent subscribers. Forwarders are
  created with fresh identities. An upstream subscribe in flight ends with complete() or with its destructor.\<close>

record 'n reg_sys =
  reg :: "'n registry"
  pendings :: "'n pending list"
  waiters :: "('n \<times> nat) list"
  nextForwarder :: nat

definition new_sys :: "'n reg_sys" where
  "new_sys = \<lparr>reg = new_registry, pendings = [], waiters = [], nextForwarder = 0\<rparr>"

inductive registry_step :: "'n reg_sys \<Rightarrow> 'n reg_sys \<Rightarrow> bool" where
  first: "getOrCreateFromSubscribe ftn (nextForwarder s) flt now (reg s) = (FirstSubscriber f p, r) \<Longrightarrow>
    registry_step s (s\<lparr>reg := r, pendings := p # pendings s, nextForwarder := nextForwarder s + 1\<rparr>)"
| subsequent: "getOrCreateFromSubscribe ftn (nextForwarder s) flt now (reg s) = (AwaitSubsequent ftn a, r) \<Longrightarrow>
    registry_step s (s\<lparr>reg := r, waiters := (ftn, a) # waiters s\<rparr>)"
| completed: "p \<in> set (pendings s) \<Longrightarrow> pending_complete h i u p (reg s) = Inr (ok, p', r) \<Longrightarrow>
    registry_step s (s\<lparr>reg := r, pendings := remove1 p (pendings s)\<rparr>)"
| failed: "p \<in> set (pendings s) \<Longrightarrow> pending_destroy p (reg s) = Inr r \<Longrightarrow>
    registry_step s (s\<lparr>reg := r, pendings := remove1 p (pendings s)\<rparr>)"
| resumed: "w \<in> set (waiters s) \<Longrightarrow> awaitSubsequent (fst w) (snd w) (reg s) \<noteq> Suspended \<Longrightarrow>
    registry_step s (s\<lparr>waiters := remove1 w (waiters s)\<rparr>)"
| published: "createFromPublish ftn (nextForwarder s) u i h now flt f (reg s) = (evicted, f', r) \<Longrightarrow>
    registry_step s (s\<lparr>reg := r, nextForwarder := nextForwarder s + 1\<rparr>)"
| terminated: "onPublisherTerminated is_empty ftn (reg s) = (out, r) \<Longrightarrow> registry_step s (s\<lparr>reg := r\<rparr>)"
| removed: "registry_step s (s\<lparr>reg := reg_remove ftn (reg s)\<rparr>)"
| removed_if: "registry_step s (s\<lparr>reg := removeIf predicate (reg s)\<rparr>)"


subsection \<open>The invariant\<close>

definition entry_ok :: "'n reg_sys \<Rightarrow> 'n \<Rightarrow> relay_subscription \<Rightarrow> bool" where
  "entry_ok s ftn e \<longleftrightarrow> rs_address e < nextAddress (reg s) \<and> rs_forwarder e < nextForwarder s \<and>
     promises (reg s) (rs_address e) =
       (if \<exists>p\<in>set (pendings s). p_ftn p = ftn \<and> p_forwarder p = rs_forwarder e then Unfulfilled else Fulfilled)"

definition registry_inv :: "'n reg_sys \<Rightarrow> bool" where
  "registry_inv s \<longleftrightarrow>
     (\<forall>ftn e. hm_find (subscriptions (reg s)) ftn = Some e \<longrightarrow> entry_ok s ftn e) \<and>
     (\<forall>f1 f2 e1 e2. hm_find (subscriptions (reg s)) f1 = Some e1 \<longrightarrow> hm_find (subscriptions (reg s)) f2 = Some e2 \<longrightarrow>
        rs_address e1 = rs_address e2 \<longrightarrow> f1 = f2) \<and>
     (\<forall>a\<ge>nextAddress (reg s). promises (reg s) a = Unfulfilled) \<and>
     distinct (map p_forwarder (pendings s)) \<and>
     (\<forall>p\<in>set (pendings s). p_active p \<and> p_forwarder p < nextForwarder s) \<and>
     (\<forall>w\<in>set (waiters s). snd w < nextAddress (reg s) \<and> (promises (reg s) (snd w) = Unfulfilled \<longrightarrow>
        (\<exists>e. hm_find (subscriptions (reg s)) (fst w) = Some e \<and> rs_address e = snd w)))"

lemma registry_invI:
  assumes "\<And>ftn e. hm_find (subscriptions (reg s)) ftn = Some e \<Longrightarrow> entry_ok s ftn e"
    "\<And>f1 f2 e1 e2. hm_find (subscriptions (reg s)) f1 = Some e1 \<Longrightarrow> hm_find (subscriptions (reg s)) f2 = Some e2 \<Longrightarrow>
        rs_address e1 = rs_address e2 \<Longrightarrow> f1 = f2"
    "\<And>a. nextAddress (reg s) \<le> a \<Longrightarrow> promises (reg s) a = Unfulfilled"
    "distinct (map p_forwarder (pendings s))"
    "\<And>p. p \<in> set (pendings s) \<Longrightarrow> p_active p \<and> p_forwarder p < nextForwarder s"
    "\<And>ftn a. (ftn, a) \<in> set (waiters s) \<Longrightarrow> a < nextAddress (reg s)"
    "\<And>ftn a. (ftn, a) \<in> set (waiters s) \<Longrightarrow> promises (reg s) a = Unfulfilled \<Longrightarrow>
        \<exists>e. hm_find (subscriptions (reg s)) ftn = Some e \<and> rs_address e = a"
  shows "registry_inv s"
  using assms unfolding registry_inv_def by auto

lemma registry_invD:
  assumes "registry_inv s"
  shows "hm_find (subscriptions (reg s)) ftn = Some e \<Longrightarrow> entry_ok s ftn e"
    "hm_find (subscriptions (reg s)) f1 = Some e1 \<Longrightarrow> hm_find (subscriptions (reg s)) f2 = Some e2 \<Longrightarrow>
        rs_address e1 = rs_address e2 \<Longrightarrow> f1 = f2"
    "nextAddress (reg s) \<le> a \<Longrightarrow> promises (reg s) a = Unfulfilled"
    "distinct (map p_forwarder (pendings s))"
    "p \<in> set (pendings s) \<Longrightarrow> p_active p \<and> p_forwarder p < nextForwarder s"
    "(ftn, a) \<in> set (waiters s) \<Longrightarrow> a < nextAddress (reg s)"
    "(ftn, a) \<in> set (waiters s) \<Longrightarrow> promises (reg s) a = Unfulfilled \<Longrightarrow>
        \<exists>e. hm_find (subscriptions (reg s)) ftn = Some e \<and> rs_address e = a"
  using assms unfolding registry_inv_def by auto

lemma inv_new: "registry_inv new_sys"
  by (rule registry_invI) (simp_all add: new_sys_def new_registry_def)

lemma erase_entry_simps:
  "subscriptions (erase_entry ftn r) = hm_erase ftn (subscriptions r)"
  "nextAddress (erase_entry ftn r) = nextAddress r"
proof -
  have "hm_erase ftn m = m" if "hm_find m ftn = None" for m :: "('a, relay_subscription) hmap"
    using that by (simp add: delete_idem map_of_eq_None_iff)
  then show "subscriptions (erase_entry ftn r) = hm_erase ftn (subscriptions r)"
    by (simp add: erase_entry_def split: option.splits)
qed (simp add: erase_entry_def split: option.splits)

lemma erase_entry_promises:
  "promises (erase_entry ftn r) a = (case hm_find (subscriptions r) ftn of
     None \<Rightarrow> promises r a
   | Some e \<Rightarrow> if a = rs_address e \<and> promises r a = Unfulfilled then Failed BrokenPromise else promises r a)"
  by (auto simp: erase_entry_def split: option.splits)

lemma inv_erase:
  assumes "registry_inv s"
  shows "registry_inv (s\<lparr>reg := erase_entry ftn (reg s)\<rparr>)"
proof -
  note D = registry_invD [OF assms]
  have keep: "promises (erase_entry ftn (reg s)) (rs_address e) = promises (reg s) (rs_address e)"
    if "hm_find (subscriptions (reg s)) g = Some e" "g \<noteq> ftn" for g e
    using D(2) that by (auto simp: erase_entry_promises split: option.splits)
  define s' where "s' = s\<lparr>reg := erase_entry ftn (reg s)\<rparr>"
  have s' [simp]: "reg s' = erase_entry ftn (reg s)" "pendings s' = pendings s" "waiters s' = waiters s"
    "nextForwarder s' = nextForwarder s" by (simp_all add: s'_def)
  have find: "hm_find (subscriptions (reg s')) g = Some e \<longleftrightarrow> g \<noteq> ftn \<and> hm_find (subscriptions (reg s)) g = Some e" for g e
    by (simp add: erase_entry_simps)
  have "registry_inv s'"
  proof (rule registry_invI)
    fix g e assume "hm_find (subscriptions (reg s')) g = Some e"
    then have g: "g \<noteq> ftn" "hm_find (subscriptions (reg s)) g = Some e" unfolding find by auto
    then show "entry_ok s' g e"
      using D(1) [OF g(2)] keep [OF g(2,1)] by (simp add: entry_ok_def erase_entry_simps)
  next
    fix f1 f2 e1 e2
    assume "hm_find (subscriptions (reg s')) f1 = Some e1" "hm_find (subscriptions (reg s')) f2 = Some e2"
      "rs_address e1 = rs_address e2"
    then show "f1 = f2" unfolding find using D(2) by blast
  next
    fix a assume "nextAddress (reg s') \<le> a"
    then have a: "nextAddress (reg s) \<le> a" by (simp add: erase_entry_simps)
    have "\<forall>e. hm_find (subscriptions (reg s)) ftn = Some e \<longrightarrow> rs_address e \<noteq> a"
      using D(1) a by (fastforce simp: entry_ok_def)
    then show "promises (reg s') a = Unfulfilled"
      using D(3) [OF a] by (auto simp: erase_entry_promises split: option.splits)
  next
    fix g a assume w: "(g, a) \<in> set (waiters s')" "promises (reg s') a = Unfulfilled"
    have "promises (reg s) a = Unfulfilled"
      using w(2) by (auto simp: erase_entry_promises split: option.splits if_splits)
    then obtain e where e: "hm_find (subscriptions (reg s)) g = Some e" "rs_address e = a" using D(7) w(1) by auto
    moreover have "g \<noteq> ftn"
      using w(2) e by (auto simp: erase_entry_promises split: if_splits)
    ultimately show "\<exists>e. hm_find (subscriptions (reg s')) g = Some e \<and> rs_address e = a" unfolding find by blast
  qed (use D in \<open>auto simp: erase_entry_simps\<close>)
  then show ?thesis by (simp add: s'_def)
qed

lemma inv_update_entry:
  assumes "registry_inv s" "hm_find (subscriptions (reg s)) ftn = Some e" "rs_address e' = rs_address e" "rs_forwarder e' = rs_forwarder e"
  shows "registry_inv (s\<lparr>reg := (reg s)\<lparr>subscriptions := hm_set ftn e' (subscriptions (reg s))\<rparr>\<rparr>)"
proof -
  note D = registry_invD [OF assms(1)]
  define s' where "s' = s\<lparr>reg := (reg s)\<lparr>subscriptions := hm_set ftn e' (subscriptions (reg s))\<rparr>\<rparr>"
  have find: "hm_find (subscriptions (reg s')) g = (if g = ftn then Some e' else hm_find (subscriptions (reg s)) g)" for g
    by (simp add: s'_def)
  have s' [simp]: "promises (reg s') = promises (reg s)" "nextAddress (reg s') = nextAddress (reg s)"
    "pendings s' = pendings s" "waiters s' = waiters s" "nextForwarder s' = nextForwarder s" by (simp_all add: s'_def)
  have "registry_inv s'"
  proof (rule registry_invI)
    fix g x assume "hm_find (subscriptions (reg s')) g = Some x"
    then show "entry_ok s' g x"
      using D(1) [of g] assms(2-4) by (auto simp: entry_ok_def find split: if_splits)
  next
    fix f1 f2 e1 e2
    assume "hm_find (subscriptions (reg s')) f1 = Some e1" "hm_find (subscriptions (reg s')) f2 = Some e2"
      "rs_address e1 = rs_address e2"
    then show "f1 = f2" using D(2) assms(2,3) unfolding find by (auto split: if_splits)
  next
    fix g a assume "(g, a) \<in> set (waiters s')" "promises (reg s') a = Unfulfilled"
    then obtain x where "hm_find (subscriptions (reg s)) g = Some x" "rs_address x = a" using D(7) by auto
    then show "\<exists>e. hm_find (subscriptions (reg s')) g = Some e \<and> rs_address e = a"
      using assms(2,3) unfolding find by (cases "g = ftn") auto
  qed (use D in auto)
  then show ?thesis by (simp add: s'_def)
qed

text \<open>Which pending upstream subscribe belongs to an entry.\<close>

definition belongs :: "'n pending \<Rightarrow> relay_subscription \<Rightarrow> 'n registry \<Rightarrow> bool" where
  "belongs p e r \<longleftrightarrow> hm_find (subscriptions r) (p_ftn p) = Some e \<and> rs_forwarder e = p_forwarder p"

lemma distinct_map_remove1: "distinct (map f xs) \<Longrightarrow> distinct (map f (remove1 x xs))"
proof (induction xs)
  case (Cons a xs)
  moreover have "set (remove1 x xs) \<subseteq> set xs" by (rule set_remove1_subset)
  ultimately show ?case by auto
qed simp

lemma pending_unique:
  assumes "registry_inv s" "p \<in> set (pendings s)" "q \<in> set (remove1 p (pendings s))"
  shows "p_forwarder q \<noteq> p_forwarder p"
proof -
  have "distinct (map p_forwarder (pendings s))" using assms(1) by (rule registry_invD)
  then have d: "distinct (pendings s)" and i: "inj_on p_forwarder (set (pendings s))" by (simp_all add: distinct_map)
  then have "q \<noteq> p" "q \<in> set (pendings s)" using assms(3) by (auto simp: set_remove1_eq)
  then show ?thesis using i assms(2) by (auto dest: inj_onD)
qed

lemma inv_drop_pending_stale:
  assumes "registry_inv s" "p \<in> set (pendings s)" "\<And>e. \<not> belongs p e (reg s)"
  shows "registry_inv (s\<lparr>pendings := remove1 p (pendings s)\<rparr>)"
proof -
  note D = registry_invD [OF assms(1)]
  have q: "q \<in> set (remove1 p (pendings s)) \<or> q = p" if "q \<in> set (pendings s)" for q
    using that by (cases "q = p") auto
  define s' where "s' = s\<lparr>pendings := remove1 p (pendings s)\<rparr>"
  have s' [simp]: "reg s' = reg s" "pendings s' = remove1 p (pendings s)" "waiters s' = waiters s"
    "nextForwarder s' = nextForwarder s" by (simp_all add: s'_def)
  have "registry_inv s'"
  proof (rule registry_invI)
    fix g e assume "hm_find (subscriptions (reg s')) g = Some e"
    then have g: "hm_find (subscriptions (reg s)) g = Some e" by simp
    have "\<not> (p_ftn p = g \<and> p_forwarder p = rs_forwarder e)" using assms(3) [of e] g by (auto simp: belongs_def)
    then have "(\<exists>q\<in>set (remove1 p (pendings s)). p_ftn q = g \<and> p_forwarder q = rs_forwarder e) \<longleftrightarrow>
      (\<exists>q\<in>set (pendings s). p_ftn q = g \<and> p_forwarder q = rs_forwarder e)"
      using q by (metis notin_set_remove1)
    then show "entry_ok s' g e" using D(1) [OF g] by (simp add: entry_ok_def)
  next
    show "distinct (map p_forwarder (pendings s'))"
      using D(4) by (simp add: distinct_map_remove1)
    show "\<And>q. q \<in> set (pendings s') \<Longrightarrow> p_active q \<and> p_forwarder q < nextForwarder s'"
      using D(5) by (simp, meson notin_set_remove1)
  qed (use D in auto)
  then show ?thesis by (simp add: s'_def)
qed


text \<open>A new entry under a free name, with a forwarder of its own.\<close>

lemma inv_new_entry:
  assumes "registry_inv s" "hm_find (subscriptions (reg s)) ftn = None" "rs_address e = nextAddress (reg s)"
    "rs_forwarder e = nextForwarder s" "st = (if ps = [] then Fulfilled else Unfulfilled)"
    "ps = [] \<or> ps = [\<lparr>p_ftn = ftn, p_forwarder = nextForwarder s, p_active = True\<rparr>]"
  shows "registry_inv (s\<lparr>reg := (reg s)\<lparr>subscriptions := hm_set ftn e (subscriptions (reg s)),
    promises := (promises (reg s))(nextAddress (reg s) := st), nextAddress := nextAddress (reg s) + 1\<rparr>,
    pendings := ps @ pendings s, nextForwarder := nextForwarder s + 1\<rparr>)" (is "registry_inv ?s")
proof -
  note D = registry_invD [OF assms(1)]
  define s' where "s' = ?s"
  have find: "hm_find (subscriptions (reg s')) g = (if g = ftn then Some e else hm_find (subscriptions (reg s)) g)" for g
    by (simp add: s'_def)
  have s' [simp]: "promises (reg s') = (promises (reg s))(nextAddress (reg s) := st)" "nextAddress (reg s') = nextAddress (reg s) + 1"
    "pendings s' = ps @ pendings s" "waiters s' = waiters s" "nextForwarder s' = nextForwarder s + 1" by (simp_all add: s'_def)
  have old: "rs_address x < nextAddress (reg s)" "rs_forwarder x < nextForwarder s"
    if "hm_find (subscriptions (reg s)) g = Some x" for g x
    using D(1) [OF that] by (simp_all add: entry_ok_def)
  have pf: "p_forwarder q < nextForwarder s" if "q \<in> set (pendings s)" for q using D(5) [OF that] by simp
  have "registry_inv s'"
  proof (rule registry_invI)
    fix g x assume g: "hm_find (subscriptions (reg s')) g = Some x"
    show "entry_ok s' g x"
    proof (cases "g = ftn")
      case True
      then have x: "x = e" using g find by simp
      have "\<not> (\<exists>q\<in>set (pendings s). p_forwarder q = nextForwarder s)" using pf by (metis less_irrefl)
      then show ?thesis using assms(3-6) True by (auto simp: entry_ok_def x)
    next
      case False
      then have g': "hm_find (subscriptions (reg s)) g = Some x" using g find by simp
      have "(\<exists>q\<in>set (ps @ pendings s). p_ftn q = g \<and> p_forwarder q = rs_forwarder x) \<longleftrightarrow>
        (\<exists>q\<in>set (pendings s). p_ftn q = g \<and> p_forwarder q = rs_forwarder x)"
        using assms(6) old(2) [OF g'] by auto
      then show ?thesis using D(1) [OF g'] old(1) [OF g'] by (simp add: entry_ok_def)
    qed
  next
    fix f1 f2 e1 e2
    assume "hm_find (subscriptions (reg s')) f1 = Some e1" "hm_find (subscriptions (reg s')) f2 = Some e2"
      "rs_address e1 = rs_address e2"
    then show "f1 = f2" using D(2) old(1) [of f1 e1] old(1) [of f2 e2] assms(3) unfolding find
      by (auto split: if_splits)
  next
    show "distinct (map p_forwarder (pendings s'))" using D(4) assms(6) pf by (auto dest: pf)
    fix q assume "q \<in> set (pendings s')"
    then show "p_active q \<and> p_forwarder q < nextForwarder s'" using D(5) [of q] assms(6) by auto
  next
    fix g a assume w: "(g, a) \<in> set (waiters s')" "promises (reg s') a = Unfulfilled"
    have a: "a < nextAddress (reg s)" using D(6) [of g a] w(1) by simp
    then obtain x where "hm_find (subscriptions (reg s)) g = Some x" "rs_address x = a" using D(7) [of g a] w by auto
    then show "\<exists>e. hm_find (subscriptions (reg s')) g = Some e \<and> rs_address e = a"
      using assms(2) unfolding find by (cases "g = ftn") auto
  next
    fix g a assume "(g, a) \<in> set (waiters s')"
    then show "a < nextAddress (reg s')" using D(6) [of g a] by simp
  qed (use D in auto)
  then show ?thesis by (simp only: s'_def)
qed

text \<open>Fulfilling, or failing, the promise of the entry a pending subscribe belongs to.\<close>

lemma inv_fulfil:
  assumes "registry_inv s" "p \<in> set (pendings s)" "belongs p e (reg s)"
  shows "registry_inv (s\<lparr>reg := (reg s)\<lparr>promises := (promises (reg s))(rs_address e := Fulfilled)\<rparr>,
    pendings := remove1 p (pendings s)\<rparr>)" (is "registry_inv ?s")
proof -
  note D = registry_invD [OF assms(1)]
  have e: "hm_find (subscriptions (reg s)) (p_ftn p) = Some e" "rs_forwarder e = p_forwarder p"
    using assms(3) by (simp_all add: belongs_def)
  define s' where "s' = ?s"
  have s' [simp]: "subscriptions (reg s') = subscriptions (reg s)"
    "promises (reg s') = (promises (reg s))(rs_address e := Fulfilled)" "nextAddress (reg s') = nextAddress (reg s)"
    "pendings s' = remove1 p (pendings s)" "waiters s' = waiters s" "nextForwarder s' = nextForwarder s"
    by (simp_all add: s'_def)
  have uniq: "p_forwarder q \<noteq> p_forwarder p" if "q \<in> set (remove1 p (pendings s))" for q
    by (rule pending_unique [OF assms(1,2) that])
  have "registry_inv s'"
  proof (rule registry_invI)
    fix g x assume g: "hm_find (subscriptions (reg s')) g = Some x"
    then have g': "hm_find (subscriptions (reg s)) g = Some x" by simp
    show "entry_ok s' g x"
    proof (cases "g = p_ftn p")
      case True
      then have "x = e" using g' e(1) by simp
      then show ?thesis using D(1) [OF g'] uniq e(2) by (auto simp: entry_ok_def)
    next
      case False
      then have "rs_address x \<noteq> rs_address e" using D(2) [OF g' e(1)] by auto
      moreover have "(\<exists>q\<in>set (remove1 p (pendings s)). p_ftn q = g \<and> p_forwarder q = rs_forwarder x) \<longleftrightarrow>
        (\<exists>q\<in>set (pendings s). p_ftn q = g \<and> p_forwarder q = rs_forwarder x)"
        using False by (metis in_set_remove1 notin_set_remove1)
      ultimately show ?thesis using D(1) [OF g'] by (simp add: entry_ok_def)
    qed
  next
    fix a assume "nextAddress (reg s') \<le> a"
    then show "promises (reg s') a = Unfulfilled" using D(1) [OF e(1)] D(3) by (auto simp: entry_ok_def)
  next
    show "distinct (map p_forwarder (pendings s'))"
      using D(4) by (simp add: distinct_map_remove1)
    show "\<And>q. q \<in> set (pendings s') \<Longrightarrow> p_active q \<and> p_forwarder q < nextForwarder s'"
      using D(5) by (simp, meson notin_set_remove1)
    show "\<And>g a. (g, a) \<in> set (waiters s') \<Longrightarrow> promises (reg s') a = Unfulfilled \<Longrightarrow>
        \<exists>e. hm_find (subscriptions (reg s')) g = Some e \<and> rs_address e = a"
      using D(7) by (auto split: if_splits)
  qed (use D in auto)
  then show ?thesis by (simp only: s'_def)
qed


lemma inv_promise_irrelevant:
  assumes "registry_inv s" "\<And>g e. hm_find (subscriptions (reg s)) g = Some e \<Longrightarrow> rs_address e \<noteq> a" "a < nextAddress (reg s)"
    "st \<noteq> Unfulfilled"
  shows "registry_inv (s\<lparr>reg := (reg s)\<lparr>promises := (promises (reg s))(a := st)\<rparr>\<rparr>)"
proof -
  note D = registry_invD [OF assms(1)]
  show ?thesis
    by (rule registry_invI) (use D assms(2-4) in \<open>auto simp: entry_ok_def split: if_splits\<close>)
qed

lemma inv_fold_erase:
  "registry_inv s \<Longrightarrow> registry_inv (s\<lparr>reg := fold (\<lambda>(ftn, e) r. if P ftn e then erase_entry ftn r else r) es (reg s)\<rparr>)"
proof (induction es arbitrary: s)
  case (Cons x es)
  obtain ftn e where x: "x = (ftn, e)" by force
  show ?case
  proof (cases "P ftn e")
    case True
    from Cons.IH [OF inv_erase [OF Cons.prems, of ftn]] True show ?thesis by (simp add: x)
  next
    case False
    then show ?thesis using Cons by (simp add: x)
  qed
qed simp

lemma complete_cases:
  assumes "registry_inv s" "p \<in> set (pendings s)"
  shows "(\<nexists>e. belongs p e (reg s)) \<and> pending_complete h i u p (reg s) = Inr (False, p\<lparr>p_active := False\<rparr>, reg s) \<or>
    (\<exists>e. belongs p e (reg s) \<and> promises (reg s) (rs_address e) = Unfulfilled \<and>
      pending_complete h i u p (reg s) = Inr (True, p\<lparr>p_active := False\<rparr>,
        (reg s)\<lparr>subscriptions := hm_set (p_ftn p) (e\<lparr>rs_handle := h, rs_requestID := i, rs_upstream := u\<rparr>) (subscriptions (reg s)),
          promises := (promises (reg s))(rs_address e := Fulfilled)\<rparr>))"
proof (cases "hm_find (subscriptions (reg s)) (p_ftn p)")
  case None
  then show ?thesis by (simp add: pending_complete_def completeSubscription_def belongs_def)
next
  case (Some e)
  show ?thesis
  proof (cases "rs_forwarder e = p_forwarder p")
    case True
    then have "promises (reg s) (rs_address e) = Unfulfilled"
      using registry_invD(1) [OF assms(1) Some] assms(2) by (auto simp: entry_ok_def)
    then show ?thesis using Some True
      by (simp add: pending_complete_def completeSubscription_def belongs_def set_promise_def)
  next
    case False
    then show ?thesis using Some by (simp add: pending_complete_def completeSubscription_def belongs_def)
  qed
qed

lemma destroy_cases:
  assumes "registry_inv s" "p \<in> set (pendings s)"
  shows "(\<nexists>e. belongs p e (reg s)) \<and> pending_destroy p (reg s) = Inr (reg s) \<or>
    (\<exists>e. belongs p e (reg s) \<and> promises (reg s) (rs_address e) = Unfulfilled \<and>
      pending_destroy p (reg s) = Inr (erase_entry (p_ftn p)
        ((reg s)\<lparr>promises := (promises (reg s))(rs_address e := Failed UpstreamSubscribeFailed)\<rparr>)))"
proof -
  have active: "p_active p" using registry_invD(5) [OF assms] by simp
  show ?thesis
  proof (cases "hm_find (subscriptions (reg s)) (p_ftn p)")
    case None
    then show ?thesis by (simp add: pending_destroy_def failAndRemove_def belongs_def active)
  next
    case (Some e)
    show ?thesis
    proof (cases "rs_forwarder e = p_forwarder p")
      case True
      then have "promises (reg s) (rs_address e) = Unfulfilled"
        using registry_invD(1) [OF assms(1) Some] assms(2) by (auto simp: entry_ok_def)
      then show ?thesis using Some True
        by (simp add: pending_destroy_def failAndRemove_def belongs_def set_promise_def active)
    next
      case False
      then show ?thesis using Some by (simp add: pending_destroy_def failAndRemove_def belongs_def active)
    qed
  qed
qed

lemma inv_completed:
  assumes "registry_inv s" "p \<in> set (pendings s)" "pending_complete h i u p (reg s) = Inr (ok, p', r)"
  shows "registry_inv (s\<lparr>reg := r, pendings := remove1 p (pendings s)\<rparr>)"
  using complete_cases [OF assms(1,2), of h i u]
proof (elim disjE conjE exE)
  assume "\<nexists>e. belongs p e (reg s)" "pending_complete h i u p (reg s) = Inr (False, p\<lparr>p_active := False\<rparr>, reg s)"
  then show ?thesis using inv_drop_pending_stale [OF assms(1,2)] assms(3) by auto
next
  fix e assume e: "belongs p e (reg s)" and c: "pending_complete h i u p (reg s) = Inr (True, p\<lparr>p_active := False\<rparr>,
        (reg s)\<lparr>subscriptions := hm_set (p_ftn p) (e\<lparr>rs_handle := h, rs_requestID := i, rs_upstream := u\<rparr>) (subscriptions (reg s)),
          promises := (promises (reg s))(rs_address e := Fulfilled)\<rparr>)"
  let ?e = "e\<lparr>rs_handle := h, rs_requestID := i, rs_upstream := u\<rparr>"
  let ?s = "s\<lparr>reg := (reg s)\<lparr>subscriptions := hm_set (p_ftn p) ?e (subscriptions (reg s))\<rparr>\<rparr>"
  have f: "hm_find (subscriptions (reg s)) (p_ftn p) = Some e" using e by (simp add: belongs_def)
  have 1: "registry_inv ?s" by (rule inv_update_entry [OF assms(1) f]) simp_all
  have 2: "belongs p ?e (reg ?s)" using e by (simp add: belongs_def)
  have "registry_inv (?s\<lparr>reg := (reg ?s)\<lparr>promises := (promises (reg ?s))(rs_address ?e := Fulfilled)\<rparr>, pendings := remove1 p (pendings ?s)\<rparr>)"
    by (rule inv_fulfil [OF 1 _ 2]) (use assms(2) in simp)
  then show ?thesis using c assms(3) by simp
qed

lemma inv_failed:
  assumes "registry_inv s" "p \<in> set (pendings s)" "pending_destroy p (reg s) = Inr r"
  shows "registry_inv (s\<lparr>reg := r, pendings := remove1 p (pendings s)\<rparr>)"
  using destroy_cases [OF assms(1,2)]
proof (elim disjE conjE exE)
  assume "\<nexists>e. belongs p e (reg s)" "pending_destroy p (reg s) = Inr (reg s)"
  then show ?thesis using inv_drop_pending_stale [OF assms(1,2)] assms(3) by auto
next
  fix e assume e: "belongs p e (reg s)" and c: "pending_destroy p (reg s) = Inr (erase_entry (p_ftn p)
        ((reg s)\<lparr>promises := (promises (reg s))(rs_address e := Failed UpstreamSubscribeFailed)\<rparr>))"
  have f: "hm_find (subscriptions (reg s)) (p_ftn p) = Some e" using e by (simp add: belongs_def)
  let ?a = "rs_address e"
  let ?s = "s\<lparr>reg := (reg s)\<lparr>promises := (promises (reg s))(?a := Fulfilled)\<rparr>, pendings := remove1 p (pendings s)\<rparr>"
  let ?t = "?s\<lparr>reg := erase_entry (p_ftn p) (reg ?s)\<rparr>"
  have 1: "registry_inv ?t" by (rule inv_erase [OF inv_fulfil [OF assms(1,2) e]])
  have "rs_address x \<noteq> ?a" if "hm_find (subscriptions (reg ?t)) g = Some x" for g x
    using that registry_invD(2) [OF assms(1), of g x "p_ftn p" e] f by (auto simp: erase_entry_simps split: if_splits)
  moreover have "?a < nextAddress (reg ?t)"
    using registry_invD(1) [OF assms(1) f] by (simp add: erase_entry_simps entry_ok_def)
  ultimately have "registry_inv (?t\<lparr>reg := (reg ?t)\<lparr>promises := (promises (reg ?t))(?a := Failed UpstreamSubscribeFailed)\<rparr>\<rparr>)"
    using inv_promise_irrelevant [OF 1, of ?a "Failed UpstreamSubscribeFailed"] by blast
  moreover have "x\<lparr>pendings := q, reg := y\<rparr> = x\<lparr>reg := y, pendings := q\<rparr>" for x :: "'a reg_sys" and q y by simp
  ultimately show ?thesis using c assms(3) f by (simp add: erase_entry_def)
qed

lemma inv_published:
  assumes "registry_inv s" "createFromPublish ftn (nextForwarder s) u i h now flt f (reg s) = (evicted, f', r)"
  shows "registry_inv (s\<lparr>reg := r, nextForwarder := nextForwarder s + 1\<rparr>)"
proof -
  let ?s = "s\<lparr>reg := erase_entry ftn (reg s)\<rparr>"
  have 1: "registry_inv ?s" by (rule inv_erase [OF assms(1)])
  have 2: "hm_find (subscriptions (reg ?s)) ftn = None" by (simp add: erase_entry_simps)
  let ?e = "(new_subscription (nextForwarder s) u now (nextAddress (reg ?s)))
       \<lparr>rs_requestID := i, rs_handle := h, rs_isPublish := True, rs_topNFilter := Some flt\<rparr>"
  have "registry_inv (?s\<lparr>reg := (reg ?s)\<lparr>subscriptions := hm_set ftn ?e (subscriptions (reg ?s)),
    promises := (promises (reg ?s))(nextAddress (reg ?s) := Fulfilled), nextAddress := nextAddress (reg ?s) + 1\<rparr>,
    pendings := [] @ pendings ?s, nextForwarder := nextForwarder ?s + 1\<rparr>)"
    by (rule inv_new_entry [OF 1 2]) (simp_all add: new_subscription_def)
  moreover have "r = (reg ?s)\<lparr>subscriptions := hm_set ftn ?e (subscriptions (reg ?s)),
    promises := (promises (reg ?s))(nextAddress (reg ?s) := Fulfilled), nextAddress := nextAddress (reg ?s) + 1\<rparr>"
    using assms(2) by (simp add: createFromPublish_def Let_def erase_entry_simps)
  ultimately show ?thesis by simp
qed

lemma inv_first:
  assumes "registry_inv s" "getOrCreateFromSubscribe ftn (nextForwarder s) flt now (reg s) = (FirstSubscriber f p, r)"
  shows "registry_inv (s\<lparr>reg := r, pendings := p # pendings s, nextForwarder := nextForwarder s + 1\<rparr>)"
proof -
  have none: "hm_find (subscriptions (reg s)) ftn = None"
    using assms(2) by (auto simp: getOrCreateFromSubscribe_def split: option.splits)
  let ?e = "(new_subscription (nextForwarder s) None now (nextAddress (reg s)))\<lparr>rs_topNFilter := flt\<rparr>"
  let ?p = "\<lparr>p_ftn = ftn, p_forwarder = nextForwarder s, p_active = True\<rparr>"
  have r: "p = ?p" "r = (reg s)\<lparr>subscriptions := hm_set ftn ?e (subscriptions (reg s)), nextAddress := nextAddress (reg s) + 1\<rparr>"
    using assms(2) none by (auto simp: getOrCreateFromSubscribe_def Let_def)
  have same: "(promises (reg s))(nextAddress (reg s) := Unfulfilled) = promises (reg s)"
    using registry_invD(3) [OF assms(1), of "nextAddress (reg s)"] by (simp add: fun_upd_idem)
  have "registry_inv (s\<lparr>reg := (reg s)\<lparr>subscriptions := hm_set ftn ?e (subscriptions (reg s)),
    promises := (promises (reg s))(nextAddress (reg s) := Unfulfilled), nextAddress := nextAddress (reg s) + 1\<rparr>,
    pendings := [?p] @ pendings s, nextForwarder := nextForwarder s + 1\<rparr>)"
    by (rule inv_new_entry [OF assms(1) none]) (simp_all add: new_subscription_def)
  then show ?thesis unfolding same r by simp
qed

lemma inv_subsequent:
  assumes "registry_inv s" "getOrCreateFromSubscribe ftn (nextForwarder s) flt now (reg s) = (AwaitSubsequent ftn a, r)"
  shows "registry_inv (s\<lparr>reg := r, waiters := (ftn, a) # waiters s\<rparr>)"
proof -
  obtain e where e: "hm_find (subscriptions (reg s)) ftn = Some e" "a = rs_address e" "r = reg s"
    using assms(2) by (auto simp: getOrCreateFromSubscribe_def Let_def split: option.splits)
  note D = registry_invD [OF assms(1)]
  have a: "a < nextAddress (reg s)" using D(1) [OF e(1)] e(2) by (simp add: entry_ok_def)
  show ?thesis
    by (rule registry_invI) (use D a e in \<open>auto simp: entry_ok_def split: if_splits\<close>)
qed

lemma inv_terminated:
  assumes "registry_inv s" "onPublisherTerminated is_empty ftn (reg s) = (out, r)"
  shows "registry_inv (s\<lparr>reg := r\<rparr>)"
proof (cases "hm_find (subscriptions (reg s)) ftn")
  case None
  then show ?thesis using assms by (auto simp: onPublisherTerminated_def)
next
  case (Some e)
  let ?e = "e\<lparr>rs_handle := None, rs_upstream := None\<rparr>"
  let ?s = "s\<lparr>reg := (reg s)\<lparr>subscriptions := hm_set ftn ?e (subscriptions (reg s))\<rparr>\<rparr>"
  have 1: "registry_inv ?s" by (rule inv_update_entry [OF assms(1) Some]) simp_all
  show ?thesis
  proof (cases "is_empty (rs_forwarder e)")
    case True
    then show ?thesis using inv_erase [OF 1, of ftn] assms(2) Some by (auto simp: onPublisherTerminated_def Let_def)
  next
    case False
    then show ?thesis using 1 assms(2) Some by (auto simp: onPublisherTerminated_def Let_def)
  qed
qed

lemma inv_resumed: "registry_inv s \<Longrightarrow> registry_inv (s\<lparr>waiters := remove1 w (waiters s)\<rparr>)"
  unfolding registry_inv_def entry_ok_def using set_remove1_subset [of w "waiters s"] by auto

lemma registry_step_inv: "registry_step s t \<Longrightarrow> registry_inv s \<Longrightarrow> registry_inv t"
proof (induction rule: registry_step.induct)
  case (removed_if s predicate)
  then show ?case unfolding removeIf_def by (rule inv_fold_erase)
next
  case (first ftn s flt now f p r)
  then show ?case by (rule inv_first [rotated])
next
  case (published ftn s u i h now flt f evicted f' r)
  then show ?case by (rule inv_published [rotated])
qed (simp_all add: inv_subsequent inv_completed inv_failed inv_resumed inv_terminated reg_remove_def inv_erase)

lemma reachable_inv: "registry_step\<^sup>*\<^sup>* new_sys s \<Longrightarrow> registry_inv s"
  by (induction rule: rtranclp_induct) (auto simp: inv_new registry_step_inv)


subsection \<open>What the registry guarantees\<close>




text \<open>A subscribe, a second subscriber that waits, and for the last state a publisher that takes the track over.\<close>

definition demo_first :: "nat reg_sys" where
  "demo_first = new_sys\<lparr>reg := snd (getOrCreateFromSubscribe 5 0 None 1 new_registry),
     pendings := [\<lparr>p_ftn = 5, p_forwarder = 0, p_active = True\<rparr>], nextForwarder := 1\<rparr>"

definition demo_waiting :: "nat reg_sys" where
  "demo_waiting = demo_first\<lparr>waiters := [(5, 0)]\<rparr>"

definition demo_replaced :: "nat reg_sys" where
  "demo_replaced = demo_waiting\<lparr>reg := snd (snd (createFromPublish 5 1 None 3 None 2 8 mk_topn_filter (reg demo_waiting))),
     nextForwarder := 2\<rparr>"

lemma demo_first_reg: "subscriptions (reg demo_first) = [(5, new_subscription 0 None 1 0)]" "promises (reg demo_first) = (\<lambda>_. Unfulfilled)"
  by (simp_all add: demo_first_def getOrCreateFromSubscribe_def new_registry_def new_subscription_def Let_def)

lemma demo_reachable: "registry_step\<^sup>*\<^sup>* new_sys demo_waiting" "registry_step\<^sup>*\<^sup>* new_sys demo_replaced"
proof -
  have 1: "registry_step new_sys demo_first"
  proof -
    have "getOrCreateFromSubscribe 5 (nextForwarder new_sys) None 1 (reg new_sys) =
      (FirstSubscriber 0 \<lparr>p_ftn = 5, p_forwarder = 0, p_active = True\<rparr>, reg demo_first)"
      by (simp add: new_sys_def demo_first_def getOrCreateFromSubscribe_def new_registry_def Let_def)
    from registry_step.first [OF this] show ?thesis by (simp add: demo_first_def new_sys_def)
  qed
  have 2: "registry_step demo_first demo_waiting"
  proof -
    have "getOrCreateFromSubscribe 5 (nextForwarder demo_first) None 1 (reg demo_first) = (AwaitSubsequent 5 0, reg demo_first)"
      by (simp add: getOrCreateFromSubscribe_def demo_first_reg new_subscription_def)
    from registry_step.subsequent [OF this] show ?thesis by (simp add: demo_waiting_def demo_first_def new_sys_def)
  qed
  have 3: "registry_step demo_waiting demo_replaced"
  proof -
    have n: "nextForwarder demo_waiting = 1" by (simp add: demo_waiting_def demo_first_def)
    obtain ev f r where c: "createFromPublish 5 (nextForwarder demo_waiting) None 3 None 2 8 mk_topn_filter (reg demo_waiting) = (ev, f, r)"
      by (rule prod_cases3)
    have "demo_replaced = demo_waiting\<lparr>reg := r, nextForwarder := nextForwarder demo_waiting + 1\<rparr>"
      using c unfolding demo_replaced_def n by simp
    then show ?thesis using registry_step.published [OF c] by simp
  qed
  show "registry_step\<^sup>*\<^sup>* new_sys demo_waiting" using 1 2 by simp
  then show "registry_step\<^sup>*\<^sup>* new_sys demo_replaced" using 3 by simp
qed



subsection \<open>The activity target\<close>

lemma check_loop_writes:
  assumes "hm_find es p = Some e" "ext p = Some v"
  shows "WriteActivity a t \<in> set (fst (snd (check_loop (Some a) t b ext es)))"
  using assms(1)
proof (induction es)
  case (Cons x es)
  obtain q e' where x: "x = (q, e')" by force
  show ?case
  proof (cases "q = p")
    case True
    then show ?thesis using assms(2) by (simp add: x observe_value_def Let_def split: prod.splits)
  next
    case False
    then have "WriteActivity a t \<in> set (fst (snd (check_loop (Some a) t b ext es)))" using Cons by (simp add: x)
    then show ?thesis by (auto simp: x split: option.splits prod.splits)
  qed
qed simp

lemma checkProperties_writes:
  assumes "hm_find (tf_observers f) p = Some e" "ext p = Some v" "tf_activityTarget f = Some a"
  shows "WriteActivity a t \<in> set (snd (checkProperties t ext f))"
proof -
  have "tf_observers f \<noteq> []" using assms(1) by auto
  then show ?thesis using check_loop_writes [where ext = ext, OF assms(1) assms(2), of a t "throttle_allows t f"] assms(3)
    by (auto simp: checkProperties_def split: prod.splits)
qed



end
