(* ===== verification/Json_Writer.thy ===== *)
theory Json_Writer
  imports Prelude
begin

section \<open>The streaming JSON emitter\<close>

text \<open>
  admin/JsonWriter.h. The writer is the bytes appended so far and the comma flag. A JSON value is
  emitted by the call sequence \<open>write_json\<close>: begin and end of each container around its elements,
  a key before each member. \<open>parse_json\<close> is a reader of JSON texts without white space; its fuel
  bounds the nesting and the number of elements, and the length of the text is always enough.
  std::to_string of a double is the argument \<open>text\<close> of \<open>doubleVal\<close>.
\<close>

record writer =
  json_out :: string
  needsComma :: bool

definition new_writer :: writer where
  "new_writer = \<lparr>json_out = [], needsComma = False\<rparr>"

definition append :: "string \<Rightarrow> writer \<Rightarrow> writer" where
  "append s w = w\<lparr>json_out := json_out w @ s\<rparr>"

definition set_comma :: "bool \<Rightarrow> writer \<Rightarrow> writer" where
  "set_comma b w = w\<lparr>needsComma := b\<rparr>"

definition maybeComma :: "writer \<Rightarrow> writer" where
  "maybeComma w = (if needsComma w then append '','' w else w)"

abbreviation dquote :: char where "dquote \<equiv> CHR 0x22"
abbreviation backslash :: char where "backslash \<equiv> CHR 0x5C"

definition escape_char :: "char \<Rightarrow> string" where
  "escape_char c = (
     if c = dquote then [backslash, dquote]
     else if c = backslash then [backslash, backslash]
     else if c = CHR 0x0A then backslash # ''n''
     else if c = CHR 0x0D then backslash # ''r''
     else if c = CHR 0x09 then backslash # ''t''
     else if (of_char c :: nat) < 0x20 then backslash # ''u'' @ digits_of 16 4 (of_char c)
     else [c])"

definition escape :: "string \<Rightarrow> string" where
  "escape s = dquote # concat (map escape_char s) @ [dquote]"

definition writeString :: "string \<Rightarrow> writer \<Rightarrow> writer" where
  "writeString s w = append (escape s) w"

definition int_text :: "int \<Rightarrow> string" where
  "int_text v = (if v < 0 then CHR ''-'' # to_string (nat (- v)) else to_string (nat v))"

definition beginObject :: "writer \<Rightarrow> writer" where
  "beginObject w = set_comma False (append ''{'' (maybeComma w))"

definition endObject :: "writer \<Rightarrow> writer" where
  "endObject w = set_comma True (append ''}'' w)"

definition beginArray :: "writer \<Rightarrow> writer" where
  "beginArray w = set_comma False (append ''['' (maybeComma w))"

definition endArray :: "writer \<Rightarrow> writer" where
  "endArray w = set_comma True (append '']'' w)"

definition key :: "string \<Rightarrow> writer \<Rightarrow> writer" where
  "key k w = set_comma False (append '':'' (writeString k (maybeComma w)))"

definition strVal :: "string \<Rightarrow> writer \<Rightarrow> writer" where
  "strVal v w = set_comma True (writeString v (maybeComma w))"

definition boolVal :: "bool \<Rightarrow> writer \<Rightarrow> writer" where
  "boolVal v w = set_comma True (append (if v then ''true'' else ''false'') (maybeComma w))"

definition intVal :: "int \<Rightarrow> writer \<Rightarrow> writer" where
  "intVal v w = set_comma True (append (int_text v) (maybeComma w))"

definition uintVal :: "nat \<Rightarrow> writer \<Rightarrow> writer" where
  "uintVal v w = set_comma True (append (to_string v) (maybeComma w))"

definition doubleVal :: "('d \<Rightarrow> string) \<Rightarrow> 'd \<Rightarrow> writer \<Rightarrow> writer" where
  "doubleVal text v w = set_comma True (append (text v) (maybeComma w))"

definition nullVal :: "writer \<Rightarrow> writer" where
  "nullVal w = set_comma True (append ''null'' (maybeComma w))"

definition field_str :: "string \<Rightarrow> string \<Rightarrow> writer \<Rightarrow> writer" where
  "field_str k v w = strVal v (key k w)"

definition field_bool :: "string \<Rightarrow> bool \<Rightarrow> writer \<Rightarrow> writer" where
  "field_bool k v w = boolVal v (key k w)"

definition field_int :: "string \<Rightarrow> int \<Rightarrow> writer \<Rightarrow> writer" where
  "field_int k v w = intVal v (key k w)"

definition field_uint :: "string \<Rightarrow> nat \<Rightarrow> writer \<Rightarrow> writer" where
  "field_uint k v w = uintVal v (key k w)"

definition field_double :: "('d \<Rightarrow> string) \<Rightarrow> string \<Rightarrow> 'd \<Rightarrow> writer \<Rightarrow> writer" where
  "field_double text k v w = doubleVal text v (key k w)"

subsection \<open>Values and their texts\<close>

datatype json = JNull | JBool bool | JInt int | JUint nat | JStr string | JArr "json list" | JObj "(string \<times> json) list"

fun write_json :: "json \<Rightarrow> writer \<Rightarrow> writer" where
  "write_json JNull w = nullVal w"
| "write_json (JBool b) w = boolVal b w"
| "write_json (JInt i) w = intVal i w"
| "write_json (JUint n) w = uintVal n w"
| "write_json (JStr s) w = strVal s w"
| "write_json (JArr vs) w = endArray (fold write_json vs (beginArray w))"
| "write_json (JObj ms) w = endObject (fold (\<lambda>(k, v) w. write_json v (key k w)) ms (beginObject w))"

text \<open>The text of a value by the grammar: elements separated by commas.\<close>

fun commas :: "string list \<Rightarrow> string" where
  "commas [] = []"
| "commas [x] = x"
| "commas (x # y # xs) = x @ CHR '','' # commas (y # xs)"

fun json_text :: "json \<Rightarrow> string" where
  "json_text JNull = ''null''"
| "json_text (JBool b) = (if b then ''true'' else ''false'')"
| "json_text (JInt i) = int_text i"
| "json_text (JUint n) = to_string n"
| "json_text (JStr s) = escape s"
| "json_text (JArr vs) = CHR ''['' # commas (map json_text vs) @ '']''"
| "json_text (JObj ms) = CHR ''{'' # commas (map (\<lambda>(k, v). escape k @ CHR '':'' # json_text v) ms) @ ''}''"

lemmas writer_defs = append_def set_comma_def maybeComma_def beginObject_def endObject_def beginArray_def endArray_def
  key_def strVal_def boolVal_def intVal_def uintVal_def nullVal_def writeString_def

definition emitted :: "string \<Rightarrow> writer \<Rightarrow> writer" where
  "emitted s w = \<lparr>json_out = json_out w @ (if needsComma w then '','' else []) @ s, needsComma = True\<rparr>"

lemma fold_emitted:
  "(\<And>x w. x \<in> set xs \<Longrightarrow> wr x w = emitted (txt x) w) \<Longrightarrow> fold wr xs w =
     (if xs = [] then w else \<lparr>json_out = json_out w @ (if needsComma w then '','' else []) @ commas (map txt xs), needsComma = True\<rparr>)"
proof (induction xs arbitrary: w)
  case (Cons x xs)
  have "fold wr (x # xs) w = fold wr xs (emitted (txt x) w)" using Cons.prems by simp
  also have "\<dots> = (if xs = [] then emitted (txt x) w
      else \<lparr>json_out = json_out (emitted (txt x) w) @ '','' @ commas (map txt xs), needsComma = True\<rparr>)"
    using Cons.IH [of "emitted (txt x) w"] Cons.prems by (simp add: emitted_def)
  finally have f: "fold wr (x # xs) w = \<dots>" .
  show ?case unfolding f by (cases xs) (simp_all add: emitted_def)
qed simp

lemma write_json_text: "write_json v w = emitted (json_text v) w"
proof (induction v arbitrary: w)
  case (JArr vs)
  show ?case
    using fold_emitted [of vs write_json json_text "beginArray w"] JArr
    by (simp add: writer_defs emitted_def)
next
  case (JObj ms)
  have "(case x of (k, v) \<Rightarrow> write_json v (key k w)) = emitted (case x of (k, v) \<Rightarrow> escape k @ CHR '':'' # json_text v) w"
    if "x \<in> set ms" for x w
  proof -
    obtain k v where x: "x = (k, v)" by force
    have "write_json v (key k w) = emitted (json_text v) (key k w)"
      using JObj [of x v "key k w"] that by (simp add: x)
    then show ?thesis by (simp add: x emitted_def writer_defs)
  qed
  from fold_emitted [of ms "\<lambda>(k, v) w. write_json v (key k w)" "\<lambda>(k, v). escape k @ CHR '':'' # json_text v" "beginObject w"] this
  show ?case by (auto simp: writer_defs emitted_def case_prod_beta)
qed (simp_all add: emitted_def writer_defs)


subsection \<open>A reader\<close>

text \<open>The characters of a string up to its closing quote.\<close>

fun parse_chars :: "string \<Rightarrow> (string \<times> string) option" where
  "parse_chars [] = None"
| "parse_chars (c # cs) = (
     if c = dquote then Some ([], cs)
     else if c \<noteq> backslash then
       (if (of_char c :: nat) < 0x20 then None else map_option (\<lambda>(s, r). (c # s, r)) (parse_chars cs))
     else (case cs of
       [] \<Rightarrow> None
     | d # ds \<Rightarrow>
         if d = dquote then map_option (\<lambda>(s, r). (dquote # s, r)) (parse_chars ds)
         else if d = backslash then map_option (\<lambda>(s, r). (backslash # s, r)) (parse_chars ds)
         else if d = CHR ''n'' then map_option (\<lambda>(s, r). (CHR 0x0A # s, r)) (parse_chars ds)
         else if d = CHR ''r'' then map_option (\<lambda>(s, r). (CHR 0x0D # s, r)) (parse_chars ds)
         else if d = CHR ''t'' then map_option (\<lambda>(s, r). (CHR 0x09 # s, r)) (parse_chars ds)
         else if d = CHR ''u'' then (case ds of
             h1 # h2 # h3 # h4 # r0 \<Rightarrow>
               map_option (\<lambda>(s, r). (char_of (number_of_digits 16 [h1, h2, h3, h4]) # s, r)) (parse_chars r0)
           | _ \<Rightarrow> None)
         else None))"

definition is_digit :: "char \<Rightarrow> bool" where
  "is_digit c \<longleftrightarrow> 48 \<le> (of_char c :: nat) \<and> (of_char c :: nat) < 58"

definition parse_number :: "string \<Rightarrow> (json \<times> string) option" where
  "parse_number s = (case s of
     c # cs \<Rightarrow> if c = CHR ''-''
       then (if takeWhile is_digit cs = [] then None
         else Some (JInt (- int (number_of_digits 10 (takeWhile is_digit cs))), dropWhile is_digit cs))
       else (if takeWhile is_digit s = [] then None
         else Some (JInt (int (number_of_digits 10 (takeWhile is_digit s))), dropWhile is_digit s))
   | [] \<Rightarrow> None)"

fun parse_value :: "nat \<Rightarrow> string \<Rightarrow> (json \<times> string) option"
and parse_elements :: "nat \<Rightarrow> string \<Rightarrow> (json list \<times> string) option"
and parse_members :: "nat \<Rightarrow> string \<Rightarrow> ((string \<times> json) list \<times> string) option" where
  "parse_value 0 s = None"
| "parse_value (Suc n) s = (case s of
     [] \<Rightarrow> None
   | c # cs \<Rightarrow>
       if c = CHR ''n'' then (if take 3 cs = ''ull'' then Some (JNull, drop 3 cs) else None)
       else if c = CHR ''t'' then (if take 3 cs = ''rue'' then Some (JBool True, drop 3 cs) else None)
       else if c = CHR ''f'' then (if take 4 cs = ''alse'' then Some (JBool False, drop 4 cs) else None)
       else if c = dquote then map_option (\<lambda>(t, r). (JStr t, r)) (parse_chars cs)
       else if c = CHR ''['' then
         (if take 1 cs = '']'' then Some (JArr [], tl cs) else map_option (\<lambda>(vs, r). (JArr vs, r)) (parse_elements n cs))
       else if c = CHR ''{'' then
         (if take 1 cs = ''}'' then Some (JObj [], tl cs) else map_option (\<lambda>(ms, r). (JObj ms, r)) (parse_members n cs))
       else parse_number s)"
| "parse_elements 0 s = None"
| "parse_elements (Suc n) s = (case parse_value n s of
     None \<Rightarrow> None
   | Some (v, r) \<Rightarrow> (case r of
       c # r' \<Rightarrow> if c = CHR '']'' then Some ([v], r')
         else if c = CHR '','' then map_option (\<lambda>(vs, q). (v # vs, q)) (parse_elements n r') else None
     | [] \<Rightarrow> None))"
| "parse_members 0 s = None"
| "parse_members (Suc n) s = (case s of
     c # cs \<Rightarrow> if c \<noteq> dquote then None else (case parse_chars cs of
       Some (k, d # r0) \<Rightarrow> if d \<noteq> CHR '':'' then None else (case parse_value n r0 of
           None \<Rightarrow> None
         | Some (v, r) \<Rightarrow> (case r of
             e # r' \<Rightarrow> if e = CHR ''}'' then Some ([(k, v)], r')
               else if e = CHR '','' then map_option (\<lambda>(ms, q). ((k, v) # ms, q)) (parse_members n r') else None
           | [] \<Rightarrow> None))
     | _ \<Rightarrow> None)
   | [] \<Rightarrow> None)"

definition parse_json :: "string \<Rightarrow> json option" where
  "parse_json s = (case parse_value (length s) s of Some (v, []) \<Rightarrow> Some v | _ \<Rightarrow> None)"

text \<open>Signed and unsigned numbers have the same texts.\<close>

fun norm :: "json \<Rightarrow> json" where
  "norm (JUint n) = JInt (int n)"
| "norm (JArr vs) = JArr (map norm vs)"
| "norm (JObj ms) = JObj (map (\<lambda>(k, v). (k, norm v)) ms)"
| "norm v = v"

subsection \<open>Reading back\<close>

lemma length_4: "length xs = 4 \<Longrightarrow> \<exists>a b c d. xs = [a, b, c, d]"
  by (auto simp: length_Suc_conv numeral_eq_Suc)

lemma hex_escape:
  assumes "(of_char c :: nat) < 32"
  shows "\<exists>h1 h2 h3 h4. digits_of 16 4 (of_char c) = [h1, h2, h3, h4] \<and> char_of (number_of_digits 16 [h1, h2, h3, h4]) = c"
proof -
  have l: "length (digits_of 16 4 (of_char c)) = 4" by (rule digits_of_length)
  then obtain h1 h2 h3 h4 where h: "digits_of 16 4 (of_char c) = [h1, h2, h3, h4]"
    using length_4 by blast
  have "number_of_digits 16 (digits_of 16 4 (of_char c)) = of_char c"
    using assms by (subst number_of_digits_of) simp_all
  then show ?thesis using h by (simp add: h)
qed

lemma parse_escape: "parse_chars (concat (map escape_char s) @ dquote # r) = Some (s, r)"
proof (induction s)
  case (Cons c s)
  consider "c = dquote" | "c = backslash" | "c = CHR 0x0A" | "c = CHR 0x0D" | "c = CHR 0x09"
    | "c \<noteq> dquote" "c \<noteq> backslash" "c \<noteq> CHR 0x0A" "c \<noteq> CHR 0x0D" "c \<noteq> CHR 0x09" by blast
  then show ?case
  proof cases
    case 6
    show ?thesis
    proof (cases "(of_char c :: nat) < 0x20")
      case True
      then obtain h1 h2 h3 h4 where h: "digits_of 16 4 (of_char c) = [h1, h2, h3, h4]"
        "char_of (number_of_digits 16 [h1, h2, h3, h4]) = c" using hex_escape by force
      have e: "escape_char c = backslash # CHR ''u'' # [h1, h2, h3, h4]" using 6 True h(1) by (simp add: escape_char_def)
      show ?thesis using Cons h(2) by (simp add: e)
    next
      case False
      then have e: "escape_char c = [c]" using 6 by (simp add: escape_char_def)
      show ?thesis using Cons 6 False by (simp add: e)
    qed
  qed (use Cons in \<open>simp_all add: escape_char_def\<close>)
qed simp


definition no_digit :: "string \<Rightarrow> bool" where
  "no_digit r \<longleftrightarrow> (case r of [] \<Rightarrow> True | c # _ \<Rightarrow> \<not> is_digit c)"

lemma digit_char_is_digit: "d < 10 \<Longrightarrow> is_digit (digit_char d)"
  by (simp add: digit_char_def is_digit_def)

lemma to_string_digits: "\<forall>c\<in>set (to_string n). is_digit c"
  using to_string_chars digit_char_is_digit by blast

lemma to_string_Cons: obtains c cs where "to_string n = c # cs" "is_digit c"
proof -
  have "to_string n \<noteq> []" by (subst to_string.simps) simp
  then obtain c cs where "to_string n = c # cs" by (cases "to_string n") auto
  then show ?thesis using to_string_digits [of n] that by auto
qed

lemma split_digits:
  assumes "no_digit r"
  shows "takeWhile is_digit (to_string n @ r) = to_string n" "dropWhile is_digit (to_string n @ r) = r"
proof -
  have "takeWhile is_digit r = []" "dropWhile is_digit r = r"
    using assms by (auto simp: no_digit_def split: list.splits)
  then show "takeWhile is_digit (to_string n @ r) = to_string n" "dropWhile is_digit (to_string n @ r) = r"
    using to_string_digits [of n] by (simp_all add: takeWhile_append dropWhile_append)
qed

lemma parse_number_unsigned:
  assumes "no_digit r"
  shows "parse_number (to_string n @ r) = Some (JInt (int n), r)"
proof -
  obtain c cs where c: "to_string n = c # cs" "is_digit c" by (rule to_string_Cons)
  have "c \<noteq> CHR ''-''" using c(2) by (auto simp: is_digit_def)
  moreover note split_digits [OF assms, of n]
  ultimately show ?thesis
    unfolding parse_number_def using number_of_to_string [of n] by (simp add: c(1))
qed

lemma parse_number_signed:
  assumes "no_digit r"
  shows "parse_number (int_text i @ r) = Some (JInt i, r)"
proof (cases "i < 0")
  case True
  let ?ds = "to_string (nat (- i))"
  have "?ds \<noteq> []" by (metis list.distinct(1) to_string_Cons)
  then have "parse_number (CHR ''-'' # ?ds @ r) = Some (JInt (- int (nat (- i))), r)"
    unfolding parse_number_def using split_digits [OF assms, of "nat (- i)"] by simp
  then show ?thesis using True by (simp add: int_text_def)
next
  case False
  then show ?thesis using parse_number_unsigned [OF assms, of "nat i"] by (simp add: int_text_def)
qed

lemma parse_value_number:
  assumes "s = c # cs" "is_digit c \<or> c = CHR ''-''"
  shows "parse_value (Suc n) s = parse_number s"
proof -
  have "c \<notin> set (dquote # ''ntf[{'')" using assms(2) by (auto simp: is_digit_def)
  then show ?thesis unfolding assms(1) by simp
qed

lemma int_text_Cons: obtains c cs where "int_text i = c # cs" "is_digit c \<or> c = CHR ''-''"
  by (metis int_text_def to_string_Cons)

text \<open>Every value's text starts with a character that closes no container.\<close>

lemma json_text_Cons: obtains c cs where "json_text v = c # cs" "c \<noteq> CHR '']''"
proof (cases v)
  case (JInt i)
  obtain c cs where c: "int_text i = c # cs" "is_digit c \<or> c = CHR ''-''" by (rule int_text_Cons)
  then have "c \<noteq> CHR '']''" by (auto simp: is_digit_def)
  with c JInt show ?thesis by (intro that) simp_all
next
  case (JUint n)
  obtain c cs where c: "to_string n = c # cs" "is_digit c" by (rule to_string_Cons)
  then have "c \<noteq> CHR '']''" by (auto simp: is_digit_def)
  with c JUint show ?thesis by (intro that) simp_all
next
  case (JBool b)
  show ?thesis by (cases b) (rule that, simp add: JBool, simp)+
qed (use that in \<open>auto simp: escape_def split: if_splits\<close>)

fun need :: "json \<Rightarrow> nat" where
  "need (JArr vs) = Suc (sum_list (map (\<lambda>v. Suc (need v)) vs))"
| "need (JObj ms) = Suc (sum_list (map (\<lambda>(k, v). Suc (need v)) ms))"
| "need v = 1"

lemma commas_Cons: "xs \<noteq> [] \<Longrightarrow> commas (x # xs) = x @ CHR '','' # commas xs"
  by (cases xs) simp_all

lemma parse_elements_text:
  assumes "\<And>v r n. v \<in> set vs \<Longrightarrow> need v \<le> n \<Longrightarrow> no_digit r \<Longrightarrow> parse_value n (json_text v @ r) = Some (norm v, r)"
    "vs \<noteq> []" "sum_list (map (\<lambda>v. Suc (need v)) vs) \<le> n"
  shows "parse_elements n (commas (map json_text vs) @ CHR '']'' # r) = Some (map norm vs, r)"
  using assms
proof (induction vs arbitrary: n)
  case (Cons v vs)
  then obtain m where n: "n = Suc m" by (cases n) auto
  have m: "need v \<le> m" "sum_list (map (\<lambda>v. Suc (need v)) vs) \<le> m" using Cons.prems(3) by (simp_all add: n)
  show ?case
  proof (cases "vs = []")
    case True
    have "parse_value m (json_text v @ CHR '']'' # r) = Some (norm v, CHR '']'' # r)"
      using Cons.prems(1) [of v m "CHR '']'' # r"] m by (simp add: no_digit_def is_digit_def)
    then show ?thesis by (simp add: True n)
  next
    case False
    let ?rest = "CHR '','' # commas (map json_text vs) @ CHR '']'' # r"
    have "parse_value m (json_text v @ ?rest) = Some (norm v, ?rest)"
      using Cons.prems(1) [of v m ?rest] m by (simp add: no_digit_def is_digit_def)
    moreover have "parse_elements m (commas (map json_text vs) @ CHR '']'' # r) = Some (map norm vs, r)"
      using Cons.IH [OF _ False m(2)] Cons.prems(1) by simp
    ultimately show ?thesis using False by (simp add: n commas_Cons)
  qed
qed simp

lemma parse_members_text:
  assumes "\<And>k v r n. (k, v) \<in> set ms \<Longrightarrow> need v \<le> n \<Longrightarrow> no_digit r \<Longrightarrow> parse_value n (json_text v @ r) = Some (norm v, r)"
    "ms \<noteq> []" "sum_list (map (\<lambda>(k, v). Suc (need v)) ms) \<le> n"
  shows "parse_members n (commas (map (\<lambda>(k, v). escape k @ CHR '':'' # json_text v) ms) @ CHR ''}'' # r)
    = Some (map (\<lambda>(k, v). (k, norm v)) ms, r)"
  using assms
proof (induction ms arbitrary: n)
  case (Cons x ms)
  obtain k v where x: "x = (k, v)" by force
  from Cons obtain m where n: "n = Suc m" by (cases n) (auto simp: x)
  let ?f = "\<lambda>(k, v). escape k @ CHR '':'' # json_text v"
  have m: "need v \<le> m" "sum_list (map (\<lambda>(k, v). Suc (need v)) ms) \<le> m" using Cons.prems(3) by (simp_all add: n x)
  have e: "escape k @ s = dquote # (concat (map escape_char k) @ dquote # s)" for s by (simp add: escape_def)
  show ?case
  proof (cases "ms = []")
    case True
    have "parse_value m (json_text v @ CHR ''}'' # r) = Some (norm v, CHR ''}'' # r)"
      using Cons.prems(1) [of k v m "CHR ''}'' # r"] m by (simp add: x no_digit_def is_digit_def)
    then show ?thesis by (simp add: True n x e parse_escape)
  next
    case False
    let ?rest = "CHR '','' # commas (map ?f ms) @ CHR ''}'' # r"
    have "parse_value m (json_text v @ ?rest) = Some (norm v, ?rest)"
      using Cons.prems(1) [of k v m ?rest] m by (simp add: x no_digit_def is_digit_def)
    moreover have "parse_members m (commas (map ?f ms) @ CHR ''}'' # r) = Some (map (\<lambda>(k, v). (k, norm v)) ms, r)"
    proof (rule Cons.IH [OF _ False m(2)])
      fix k v r n assume "(k, v) \<in> set ms" "need v \<le> n" "no_digit r"
      then show "parse_value n (json_text v @ r) = Some (norm v, r)" using Cons.prems(1) [of k v n r] by simp
    qed
    ultimately show ?thesis using False by (simp add: n x commas_Cons e parse_escape)
  qed
qed simp

lemma parse_value_text: "need v \<le> n \<Longrightarrow> no_digit r \<Longrightarrow> parse_value n (json_text v @ r) = Some (norm v, r)"
proof (induction v arbitrary: n r)
  case (JInt i)
  obtain m where n: "n = Suc m" using JInt.prems by (cases n) auto
  obtain c cs where "int_text i = c # cs" "is_digit c \<or> c = CHR ''-''" by (rule int_text_Cons)
  then have "parse_value (Suc m) (int_text i @ r) = parse_number (int_text i @ r)"
    by (intro parse_value_number [of _ c "cs @ r"]) simp_all
  then show ?case by (simp only: n json_text.simps norm.simps parse_number_signed [OF JInt.prems(2)])
next
  case (JUint k)
  obtain m where n: "n = Suc m" using JUint.prems by (cases n) auto
  obtain c cs where "to_string k = c # cs" "is_digit c" by (rule to_string_Cons)
  then have "parse_value (Suc m) (to_string k @ r) = parse_number (to_string k @ r)"
    by (intro parse_value_number [of _ c "cs @ r"]) simp_all
  then show ?case by (simp only: n json_text.simps norm.simps parse_number_unsigned [OF JUint.prems(2)])
next
  case (JArr vs)
  obtain m where n: "n = Suc m" using JArr.prems by (cases n) auto
  show ?case
  proof (cases "vs = []")
    case True
    then show ?thesis by (simp add: n)
  next
    case False
    then obtain v ws where vs: "vs = v # ws" by (cases vs) auto
    obtain c cs where c: "json_text v = c # cs" "c \<noteq> CHR '']''" by (rule json_text_Cons)
    have "parse_elements m (commas (map json_text vs) @ CHR '']'' # r) = Some (map norm vs, r)"
      using JArr by (intro parse_elements_text False) (simp_all add: n)
    moreover have "take 1 (commas (map json_text vs) @ CHR '']'' # r) \<noteq> '']''"
      using c by (cases ws) (simp_all add: vs)
    ultimately show ?thesis by (simp add: n)
  qed
next
  case (JObj ms)
  obtain m where n: "n = Suc m" using JObj.prems by (cases n) auto
  show ?case
  proof (cases "ms = []")
    case True
    then show ?thesis by (simp add: n)
  next
    case False
    then obtain x ws where ms: "ms = x # ws" by (cases ms) auto
    have "parse_members m (commas (map (\<lambda>(k, v). escape k @ CHR '':'' # json_text v) ms) @ CHR ''}'' # r)
        = Some (map (\<lambda>(k, v). (k, norm v)) ms, r)"
      using JObj by (intro parse_members_text False) (auto simp: n)
    moreover have "take 1 (commas (map (\<lambda>(k, v). escape k @ CHR '':'' # json_text v) ms) @ CHR ''}'' # r) \<noteq> ''}''"
      by (cases ws) (simp_all add: ms escape_def case_prod_beta)
    ultimately show ?thesis by (simp add: n)
  qed
next
  case (JStr s)
  then show ?case by (cases n) (simp_all add: escape_def parse_escape)
next
  case (JBool b)
  then show ?case by (cases n) simp_all
next
  case JNull
  then show ?case by (cases n) simp_all
qed

lemma length_commas: "xs \<noteq> [] \<Longrightarrow> length (commas xs) + 1 = sum_list (map (\<lambda>x. Suc (length x)) xs)"
  by (induction xs rule: commas.induct) simp_all

lemma need_le_length: "need v \<le> length (json_text v)"
proof (induction v)
  case (JInt i)
  obtain c cs where "int_text i = c # cs" by (rule int_text_Cons)
  then show ?case by simp
next
  case (JUint n)
  obtain c cs where "to_string n = c # cs" by (rule to_string_Cons)
  then show ?case by simp
next
  case (JArr vs)
  have "sum_list (map (\<lambda>v. Suc (need v)) vs) \<le> sum_list (map (\<lambda>x. Suc (length x)) (map json_text vs))"
    unfolding map_map comp_def using JArr by (intro sum_list_mono) simp
  then show ?case using length_commas [of "map json_text vs"] by (cases "vs = []") simp_all
next
  case (JObj ms)
  let ?f = "\<lambda>(k, v). escape k @ CHR '':'' # json_text v"
  have "sum_list (map (\<lambda>(k, v). Suc (need v)) ms) \<le> sum_list (map (\<lambda>x. Suc (length x)) (map ?f ms))"
    unfolding map_map comp_def
  proof (intro sum_list_mono)
    fix x assume "x \<in> set ms"
    then have "need (snd x) \<le> length (json_text (snd x))" using JObj [of x "snd x"] by (metis snds.intros)
    then show "(case x of (k, v) \<Rightarrow> Suc (need v)) \<le> Suc (length (case x of (k, v) \<Rightarrow> escape k @ CHR '':'' # json_text v))"
      by (simp add: case_prod_beta)
  qed
  then show ?case using length_commas [of "map ?f ms"] by (cases "ms = []") simp_all
qed (simp_all add: escape_def)


end
