(* ===== verification/Reuseport_Steering.thy ===== *)
theory Reuseport_Steering
  imports Prelude
begin

section \<open>Socket steering in classic BPF\<close>

text \<open>
  bpf/QuicReuseportSteering.cpp. The filter is a program for the classic BPF machine: accumulator A and index
  register X of 32 bits, loads from the packet (the offset is from the UDP header; a load beyond
  the packet ends the program with 0), ALU operations and forward jumps. The instructions the
  filter uses are modelled; the machine runs on a program counter with the length of the
  program as fuel, which is enough because jumps only go forward. The kernel attaches the
  filter to a socket group and takes the result modulo the number of sockets.
\<close>

unbundle bit_operations_syntax

type_synonym packet = "8 word list"

datatype instr = LD_B_ABS nat | LD_H_ABS nat | AND_K "32 word" | LSH_K nat | RSH_K nat | OR_X | TAX
  | JEQ_K "32 word" nat nat | RET_A

definition kFilter :: "instr list" where
  "kFilter = [LD_B_ABS 8, AND_K 0x80, JEQ_K 0x00 2 0,
     LD_H_ABS 0, RET_A,
     LD_B_ABS 11, LSH_K 2, TAX, LD_B_ABS 12, RSH_K 6, OR_X, RET_A]"

definition load_byte :: "packet \<Rightarrow> nat \<Rightarrow> 32 word option" where
  "load_byte p k = (if k < length p then Some (ucast (p ! k)) else None)"

definition load_half :: "packet \<Rightarrow> nat \<Rightarrow> 32 word option" where
  "load_half p k = (if k + 1 < length p then Some (push_bit 8 (ucast (p ! k)) OR ucast (p ! (k + 1))) else None)"

fun bpf_run :: "nat \<Rightarrow> instr list \<Rightarrow> packet \<Rightarrow> nat \<Rightarrow> 32 word \<Rightarrow> 32 word \<Rightarrow> 32 word option" where
  "bpf_run 0 prog p pc a x = None"
| "bpf_run (Suc fuel) prog p pc a x = (if pc \<ge> length prog then None else case prog ! pc of
     LD_B_ABS k \<Rightarrow> (case load_byte p k of None \<Rightarrow> Some 0 | Some v \<Rightarrow> bpf_run fuel prog p (pc + 1) v x)
   | LD_H_ABS k \<Rightarrow> (case load_half p k of None \<Rightarrow> Some 0 | Some v \<Rightarrow> bpf_run fuel prog p (pc + 1) v x)
   | AND_K k \<Rightarrow> bpf_run fuel prog p (pc + 1) (a AND k) x
   | LSH_K n \<Rightarrow> bpf_run fuel prog p (pc + 1) (push_bit n a) x
   | RSH_K n \<Rightarrow> bpf_run fuel prog p (pc + 1) (drop_bit n a) x
   | OR_X \<Rightarrow> bpf_run fuel prog p (pc + 1) (a OR x) x
   | TAX \<Rightarrow> bpf_run fuel prog p (pc + 1) a a
   | JEQ_K k jt jf \<Rightarrow> bpf_run fuel prog p (pc + 1 + (if a = k then jt else jf)) a x
   | RET_A \<Rightarrow> Some a)"

text \<open>kProg: the program with its length.\<close>

definition kProg :: "nat \<times> instr list" where
  "kProg = (length kFilter, kFilter)"

definition steer :: "packet \<Rightarrow> 32 word option" where
  "steer p = bpf_run (fst kProg) (snd kProg) p 0 0 0"

text \<open>mvfst_hook_on_socket_create: what it does with a new socket. \<open>attach\<close> is the result of setsockopt.\<close>

datatype hook_outcome = NotAttached | Attached | AttachFailed

definition quicReuseportSetEnabled :: "bool \<Rightarrow> bool \<Rightarrow> bool" where
  "quicReuseportSetEnabled enabled gEnabled = enabled"

definition mvfst_hook_on_socket_create :: "bool \<Rightarrow> bool \<Rightarrow> hook_outcome" where
  "mvfst_hook_on_socket_create gEnabled attach = (if \<not> gEnabled then NotAttached else if attach then Attached else AttachFailed)"

subsection \<open>What the filter computes\<close>

text \<open>The reference: source port for a long header, the two identifier bytes for a short one.\<close>

definition long_header :: "packet \<Rightarrow> bool" where
  "long_header p \<longleftrightarrow> bit (p ! 8) 7"

definition source_port :: "packet \<Rightarrow> nat" where
  "source_port p = 256 * unat (p ! 0) + unat (p ! 1)"

definition worker_bits :: "packet \<Rightarrow> nat" where
  "worker_bits p = 4 * unat (p ! 11) + unat (p ! 12) div 64"

lemma unat_byte: "unat (b :: 8 word) < 256"
  using unsigned_less [of b] by simp

lemma ucast_byte: "unat (ucast (b :: 8 word) :: 32 word) = unat b"
  using unat_byte [of b] by (simp add: unsigned_ucast_eq take_bit_nat_eq_self)

lemma top_bit_zero: "((ucast (b :: 8 word) :: 32 word) AND 0x80 = 0) \<longleftrightarrow> \<not> bit b 7"
proof -
  have "(0x80 :: 32 word) = 2 ^ 7" by simp
  moreover have "bit (ucast b :: 32 word) 7 = bit b 7" by (simp add: bit_unsigned_iff)
  ultimately show ?thesis by (simp only: and_exp_eq_0_iff_not_bit)
qed

lemma or_disjoint:
  fixes x y :: nat
  assumes "y < 2 ^ n"
  shows "push_bit n x OR y = 2 ^ n * x + y"
proof -
  have "y = take_bit n y" using assms by (simp add: take_bit_nat_eq_self)
  then have "\<not> bit (push_bit n x) i \<or> \<not> bit y i" for i
    by (metis bit_push_bit_iff bit_take_bit_iff not_le)
  then have "push_bit n x + y = push_bit n x OR y" by (rule disjunctive_add)
  then show ?thesis by (simp add: push_bit_eq_mult mult.commute)
qed

lemma shift_or:
  fixes v w :: "32 word"
  assumes "unat w < 2 ^ n" "unat v < 256" "n \<le> 8"
  shows "unat (push_bit n v OR w) = 2 ^ n * unat v + unat w"
proof -
  have "2 ^ n * unat v < 2 ^ 8 * 256"
    using assms(2) power_increasing [OF assms(3), of "2 :: nat"] by (intro mult_le_less_imp_less) auto
  then have "take_bit 32 (push_bit n (unat v)) = push_bit n (unat v)"
    by (intro take_bit_nat_eq_self) (simp add: push_bit_eq_mult mult.commute)
  then show ?thesis
    using or_disjoint [OF assms(1)] by (simp add: unsigned_or_eq unsigned_push_bit_eq)
qed

lemma half_value: "unat (push_bit 8 (ucast (a :: 8 word)) OR ucast (b :: 8 word) :: 32 word) = 256 * unat a + unat b"
  using shift_or [of "ucast b" 8 "ucast a"] unat_byte [of a] unat_byte [of b] by (simp add: ucast_byte)

lemma id_value:
  "unat (drop_bit 6 (ucast (b :: 8 word)) OR push_bit 2 (ucast (a :: 8 word)) :: 32 word) = 4 * unat a + unat b div 64"
proof -
  have w: "unat (drop_bit 6 (ucast b) :: 32 word) = unat b div 64"
    unfolding drop_bit_eq_div unat_div_distrib ucast_byte by simp
  have "unat b div 64 < 4" using unat_byte [of b] by auto
  then show ?thesis
    using shift_or [of "drop_bit 6 (ucast b)" 2 "ucast a"] unat_byte [of a]
    by (simp only: w ucast_byte or.commute) simp
qed

text \<open>One rewrite per instruction, so that a run is a chain of rewrites.\<close>

lemma kFilter_length: "length kFilter = 12"
  by (simp add: kFilter_def)

lemma kFilter_at:
  "kFilter ! 0 = LD_B_ABS 8" "kFilter ! 1 = AND_K 0x80" "kFilter ! 2 = JEQ_K 0 2 0" "kFilter ! 3 = LD_H_ABS 0"
  "kFilter ! 4 = RET_A" "kFilter ! 5 = LD_B_ABS 11" "kFilter ! 6 = LSH_K 2" "kFilter ! 7 = TAX"
  "kFilter ! 8 = LD_B_ABS 12" "kFilter ! 9 = RSH_K 6" "kFilter ! 10 = OR_X" "kFilter ! 11 = RET_A"
  by (simp_all add: kFilter_def)

lemma kFilter_steps:
  "bpf_run (Suc k) kFilter p 0 a x = (case load_byte p 8 of None \<Rightarrow> Some 0 | Some v \<Rightarrow> bpf_run k kFilter p 1 v x)"
  "bpf_run (Suc k) kFilter p 1 a x = bpf_run k kFilter p 2 (a AND 0x80) x"
  "bpf_run (Suc k) kFilter p 2 a x = (if a = 0 then bpf_run k kFilter p 5 a x else bpf_run k kFilter p 3 a x)"
  "bpf_run (Suc k) kFilter p 3 a x = (case load_half p 0 of None \<Rightarrow> Some 0 | Some v \<Rightarrow> bpf_run k kFilter p 4 v x)"
  "bpf_run (Suc k) kFilter p 4 a x = Some a"
  "bpf_run (Suc k) kFilter p 5 a x = (case load_byte p 11 of None \<Rightarrow> Some 0 | Some v \<Rightarrow> bpf_run k kFilter p 6 v x)"
  "bpf_run (Suc k) kFilter p 6 a x = bpf_run k kFilter p 7 (push_bit 2 a) x"
  "bpf_run (Suc k) kFilter p 7 a x = bpf_run k kFilter p 8 a a"
  "bpf_run (Suc k) kFilter p 8 a x = (case load_byte p 12 of None \<Rightarrow> Some 0 | Some v \<Rightarrow> bpf_run k kFilter p 9 v x)"
  "bpf_run (Suc k) kFilter p 9 a x = bpf_run k kFilter p 10 (drop_bit 6 a) x"
  "bpf_run (Suc k) kFilter p 10 a x = bpf_run k kFilter p 11 (a OR x) x"
  "bpf_run (Suc k) kFilter p 11 a x = Some a"
  unfolding bpf_run.simps kFilter_length kFilter_at by (simp_all add: eval_nat_numeral split: option.split)

text \<open>Jumps only go forward, so twelve steps always suffice.\<close>

lemma steer_unrolled:
  "steer p = Some (case load_byte p 8 of None \<Rightarrow> 0 | Some first \<Rightarrow>
     if first AND 0x80 = 0
     then (case load_byte p 11 of None \<Rightarrow> 0 | Some c2 \<Rightarrow>
             case load_byte p 12 of None \<Rightarrow> 0 | Some c3 \<Rightarrow> drop_bit 6 c3 OR push_bit 2 c2)
     else (case load_half p 0 of None \<Rightarrow> 0 | Some port \<Rightarrow> port))"
proof -
  have "steer p = bpf_run (Suc (Suc (Suc (Suc (Suc (Suc (Suc (Suc (Suc (Suc (Suc (Suc 0)))))))))))) kFilter p 0 0 0"
    unfolding steer_def kProg_def by (simp add: kFilter_length eval_nat_numeral)
  then show ?thesis by (simp only: kFilter_steps split: option.split if_split) auto
qed

text \<open>The whole filter on every packet, truncated ones included.\<close>

definition steer_ref :: "packet \<Rightarrow> nat" where
  "steer_ref p = (if length p < 9 then 0
     else if long_header p then source_port p
     else if length p < 13 then 0 else worker_bits p)"

text \<open>C27: The BPF filter, run instruction by instruction on the 32-bit machine, always returns within its
  twelve steps and computes for every packet exactly the steering rule: the UDP source port for a long header, and for
  a short header the ten bits (CID[2] << 2) | (CID[3] >> 6); a packet too short for the bytes it
  needs gives 0. All eight bits of CID[2] take part, not the six the comment names.
\<close>

theorem steering_filter_exact:
  "map_option unat (steer p) = Some (steer_ref p)"
proof (cases "length p < 9")
  case True
  then show ?thesis by (simp add: steer_unrolled steer_ref_def load_byte_def)
next
  case False
  then have "load_byte p 8 = Some (ucast (p ! 8))" "load_half p 0 = Some (push_bit 8 (ucast (p ! 0)) OR ucast (p ! 1))"
    by (simp_all add: load_byte_def load_half_def)
  note l = this
  show ?thesis
  proof (cases "bit (p ! 8) 7")
    case True
    then show ?thesis
      using False half_value [of "p ! 0" "p ! 1"]
      by (simp only: steer_unrolled l option.case top_bit_zero steer_ref_def long_header_def source_port_def) simp
  next
    case short: False
    have "load_byte p 11 = None \<or> load_byte p 12 = None \<longleftrightarrow> length p < 13" by (auto simp: load_byte_def)
    then show ?thesis
      using False short id_value [of "p ! 12" "p ! 11"]
      by (simp only: steer_unrolled l option.case top_bit_zero steer_ref_def long_header_def worker_bits_def)
        (auto simp: load_byte_def split: option.split)
  qed
qed

lemma worker_bits_bound: "worker_bits p < 1024"
  using unat_byte [of "p ! 11"] unat_byte [of "p ! 12"] by (simp add: worker_bits_def)

end
