(* ===== verification/Upstream_Provider.thy ===== *)
theory Upstream_Provider
  imports Prelude
begin

section \<open>The connection to an upstream relay\<close>

text \<open>
  UpstreamProvider.h and UpstreamProvider.cpp. The provider owns one client and one session, a shared promise
  that gates callers while a connection is being made, and a reconnect loop with exponential
  backoff. Its coroutines all run on one executor, so what happens between two suspension
  points is one function; a suspended coroutine is a task whose stage is the await it stands
  at. Sessions, clients and promises are numbers. \<open>up_callback\<close> is the session that has the
  provider as its close callback, \<open>up_promises\<close> the state of every promise ever made,
  \<open>up_results\<close> what the forwarding calls got, and \<open>up_crashed\<close> that a null pointer was used or a
  CHECK failed. The parameter \<open>notifies\<close> says whether destroying a client with an open session calls the
  close callback of that session at once, which a comment of resetSession says.
\<close>

datatype conn_state = Disconnected | Connecting | Connected

datatype promise_state = PPending | PValue | PException | PBroken

datatype task_owner = Loop | Forwarder

datatype stage = Starting | Sleeping | Waiting nat | InSetup nat | InHook

record 'u upstream =
  up_state :: conn_state
  up_client :: "(nat \<times> nat option) option"
  up_session :: "nat option"
  up_publishHandler :: bool
  up_subscribeHandler :: bool
  up_url :: 'u
  up_onConnect :: bool
  up_onDisconnect :: bool
  up_stopped :: bool
  up_connectPromise :: "nat option"
  up_backoff :: nat
  up_callback :: "nat option"
  up_promises :: "promise_state list"
  up_nclients :: nat
  up_disconnects :: nat
  up_ntasks :: nat
  up_tasks :: "(nat \<times> task_owner \<times> stage) list"
  up_results :: "(nat \<times> nat option) list"
  up_crashed :: bool

definition new_provider :: "'u \<Rightarrow> bool \<Rightarrow> bool \<Rightarrow> 'u upstream" where
  "new_provider url onConnect onDisconnect = \<lparr>up_state = Disconnected, up_client = None, up_session = None,
     up_publishHandler = True, up_subscribeHandler = True, up_url = url, up_onConnect = onConnect,
     up_onDisconnect = onDisconnect, up_stopped = False, up_connectPromise = None, up_backoff = 0,
     up_callback = None, up_promises = [], up_nclients = 0, up_disconnects = 0, up_ntasks = 0,
     up_tasks = [], up_results = [], up_crashed = False\<rparr>"

subsection \<open>Peering token\<close>

record request_param =
  rp_key :: nat
  rp_tokenType :: nat
  rp_tokenValue :: string

record sub_ns =
  sn_prefix :: "string list"
  sn_both :: bool
  sn_forward :: bool
  sn_params :: "request_param list"

definition kRelayAuthTokenType :: nat where
  "kRelayAuthTokenType = 0x1B2C3D4E5F6A7B8C"

fun peer_param :: "nat \<Rightarrow> request_param list \<Rightarrow> string option" where
  "peer_param authKey [] = None"
| "peer_param authKey (p # ps) = (if rp_key p = authKey \<and> rp_tokenType p = kRelayAuthTokenType
     then Some (rp_tokenValue p) else peer_param authKey ps)"

definition getPeerRelayID :: "nat \<Rightarrow> sub_ns \<Rightarrow> string option" where
  "getPeerRelayID authKey subNs = peer_param authKey (sn_params subNs)"

definition makePeerSubNs :: "(request_param \<Rightarrow> request_param list \<Rightarrow> request_param list) \<Rightarrow> nat \<Rightarrow> string option \<Rightarrow> sub_ns" where
  "makePeerSubNs insertParam authKey relayID =
    (let subNs = \<lparr>sn_prefix = [], sn_both = True, sn_forward = False, sn_params = []\<rparr>
     in case relayID of None \<Rightarrow> subNs
        | Some rid \<Rightarrow> subNs\<lparr>sn_params := insertParam
            \<lparr>rp_key = authKey, rp_tokenType = kRelayAuthTokenType, rp_tokenValue = rid\<rparr> (sn_params subNs)\<rparr>)"

subsection \<open>Session bookkeeping\<close>

definition crash :: "'u upstream \<Rightarrow> 'u upstream" where
  "crash s = s\<lparr>up_crashed := True\<rparr>"

definition push_task :: "nat \<Rightarrow> task_owner \<Rightarrow> stage \<Rightarrow> 'u upstream \<Rightarrow> 'u upstream" where
  "push_task tid owner stage s = s\<lparr>up_tasks := up_tasks s @ [(tid, owner, stage)]\<rparr>"

definition getSession :: "'u upstream \<Rightarrow> nat option" where
  "getSession s = (if \<not> up_stopped s \<and> up_state s = Connected then up_session s else None)"

definition stateString :: "'u upstream \<Rightarrow> string" where
  "stateString s = (case up_state s of Disconnected \<Rightarrow> ''disconnected'' | Connecting \<Rightarrow> ''connecting'' | Connected \<Rightarrow> ''connected'')"

definition resetSession :: "'u upstream \<Rightarrow> 'u upstream" where
  "resetSession s =
    (let s1 = (case up_session s of None \<Rightarrow> s
       | Some x \<Rightarrow> s\<lparr>up_callback := (if up_callback s = Some x then None else up_callback s),
                     up_disconnects := up_disconnects s + (if up_onDisconnect s then 1 else 0)\<rparr>)
     in s1\<lparr>up_session := None, up_state := Disconnected\<rparr>)"

text \<open>A new reconnect loop is handed to the executor and begins to run later.\<close>

definition spawn_loop :: "'u upstream \<Rightarrow> 'u upstream" where
  "spawn_loop s = push_task (up_ntasks s) Loop Starting (s\<lparr>up_ntasks := Suc (up_ntasks s)\<rparr>)"

definition onMoQSessionClosed :: "'u upstream \<Rightarrow> 'u upstream" where
  "onMoQSessionClosed s = (let s1 = resetSession s
     in if up_stopped s1 then s1 else spawn_loop (s1\<lparr>up_backoff := 0\<rparr>))"

definition goaway :: "'u option \<Rightarrow> 'u upstream \<Rightarrow> 'u upstream" where
  "goaway newSessionUri s =
    (let s0 = (case newSessionUri of None \<Rightarrow> s | Some u \<Rightarrow> s\<lparr>up_url := u\<rparr>);
         s1 = resetSession s0
     in if up_stopped s1 then s1 else spawn_loop (s1\<lparr>up_backoff := 0\<rparr>))"

text \<open>\<open>client_ = ...\<close> and \<open>client_.reset()\<close>: the pointer changes first, then the old client is destroyed.\<close>

definition replace_client :: "bool \<Rightarrow> (nat \<times> nat option) option \<Rightarrow> 'u upstream \<Rightarrow> 'u upstream" where
  "replace_client notifies new s =
    (let s1 = s\<lparr>up_client := new\<rparr>
     in case up_client s of
          Some (c, Some x) \<Rightarrow> if notifies \<and> up_callback s = Some x then onMoQSessionClosed s1 else s1
        | _ \<Rightarrow> s1)"

definition close :: "bool \<Rightarrow> 'u upstream \<Rightarrow> 'u upstream" where
  "close notifies s = (replace_client notifies None (s\<lparr>up_session := None\<rparr>))\<lparr>up_state := Disconnected\<rparr>"

text \<open>
  stop: cancellation ends the loops that sleep or wait; a loop in the middle of connecting is
  resumed with a failure. close runs later on the executor: the event Close, possible once stopped.
\<close>

definition cancelled :: "nat \<times> task_owner \<times> stage \<Rightarrow> bool" where
  "cancelled t = (case t of (_, Loop, Sleeping) \<Rightarrow> True | (_, Loop, Waiting _) \<Rightarrow> True | _ \<Rightarrow> False)"

definition stop :: "'u upstream \<Rightarrow> 'u upstream" where
  "stop s = s\<lparr>up_stopped := True, up_tasks := filter (\<lambda>t. \<not> cancelled t) (up_tasks s),
     up_publishHandler := False, up_subscribeHandler := False, up_onConnect := False, up_onDisconnect := False\<rparr>"

subsection \<open>Connecting\<close>

text \<open>How a call of getOrConnectSession leaves: with an exception, with a session, or suspended.\<close>

datatype goc = GThrow | GRet "nat option" | GSuspend stage

definition emplace_promise :: "'u upstream \<Rightarrow> 'u upstream" where
  "emplace_promise s =
    (let ps = (case up_connectPromise s of
                 Some p \<Rightarrow> if up_promises s ! p = PPending then (up_promises s)[p := PBroken] else up_promises s
               | None \<Rightarrow> up_promises s)
     in s\<lparr>up_promises := ps @ [PPending], up_connectPromise := Some (length ps)\<rparr>)"

text \<open>doConnect up to the handshake, and after it.\<close>

definition doConnect_begin :: "bool \<Rightarrow> 'u upstream \<Rightarrow> goc \<times> 'u upstream" where
  "doConnect_begin notifies s =
    (let c = up_nclients s
     in (GSuspend (InSetup c), replace_client notifies (Some (c, None)) (s\<lparr>up_nclients := Suc c\<rparr>)))"

definition goc_fail :: "bool \<Rightarrow> 'u upstream \<Rightarrow> goc \<times> 'u upstream" where
  "goc_fail notifies s =
    (let s1 = replace_client notifies None (s\<lparr>up_state := Disconnected\<rparr>)
     in case up_connectPromise s1 of
          None \<Rightarrow> (GThrow, crash s1)
        | Some p \<Rightarrow>
            if up_promises s1 ! p = PPending
            then (GThrow, s1\<lparr>up_promises := (up_promises s1)[p := PException], up_connectPromise := None\<rparr>)
            else (GThrow, s1))"

definition goc_finish :: "bool \<Rightarrow> 'u upstream \<Rightarrow> goc \<times> 'u upstream" where
  "goc_finish notifies s =
    (let s1 = s\<lparr>up_state := Connected\<rparr>
     in case up_connectPromise s1 of
          None \<Rightarrow> (GThrow, crash s1)
        | Some p \<Rightarrow>
            if up_promises s1 ! p = PPending
            then (GRet (up_session s1), s1\<lparr>up_promises := (up_promises s1)[p := PValue]\<rparr>)
            else goc_fail notifies s1)"

definition doConnect_session :: "bool \<Rightarrow> nat \<Rightarrow> nat \<Rightarrow> 'u upstream \<Rightarrow> goc \<times> 'u upstream" where
  "doConnect_session notifies c x s =
    (case up_client s of
       Some (c', _) \<Rightarrow>
         if c' \<noteq> c then (GThrow, crash s)
         else let s1 = s\<lparr>up_client := Some (c, Some x), up_session := Some x, up_callback := Some x\<rparr>
              in if up_onConnect s1 then (GSuspend InHook, s1) else goc_finish notifies s1
     | None \<Rightarrow> (GThrow, crash s))"

definition getOrConnectSession :: "bool \<Rightarrow> 'u upstream \<Rightarrow> goc \<times> 'u upstream" where
  "getOrConnectSession notifies s =
    (if up_stopped s then (GThrow, s)
     else if up_state s = Connected \<and> up_session s \<noteq> None then (GRet (up_session s), s)
     else if up_state s = Connecting then
       (case up_connectPromise s of None \<Rightarrow> (GThrow, crash s) | Some p \<Rightarrow> (GSuspend (Waiting p), s))
     else doConnect_begin notifies (emplace_promise (s\<lparr>up_state := Connecting\<rparr>)))"

definition goc_waited :: "nat \<Rightarrow> 'u upstream \<Rightarrow> goc" where
  "goc_waited p s = (case up_promises s ! p of
       PPending \<Rightarrow> GSuspend (Waiting p)
     | PValue \<Rightarrow> if up_session s = None then GThrow else GRet (up_session s)
     | _ \<Rightarrow> GThrow)"

subsection \<open>The reconnect loop and the forwarding calls\<close>

definition kInitialReconnectBackoff :: nat where
  "kInitialReconnectBackoff = 1000"

definition kMaxReconnectBackoff :: nat where
  "kMaxReconnectBackoff = 60000"

definition next_backoff :: "nat \<Rightarrow> nat" where
  "next_backoff b = (if b = 0 then kInitialReconnectBackoff else min (b * 2) kMaxReconnectBackoff)"

text \<open>What the loop does with the end of getOrConnectSession. After a failure the backoff is positive and it sleeps.\<close>

definition loop_settle :: "nat \<Rightarrow> goc \<Rightarrow> 'u upstream \<Rightarrow> 'u upstream" where
  "loop_settle tid r s = (case r of
       GRet _ \<Rightarrow> s\<lparr>up_backoff := 0\<rparr>
     | GThrow \<Rightarrow> if up_stopped s then s
                 else push_task tid Loop Sleeping (s\<lparr>up_backoff := next_backoff (up_backoff s)\<rparr>)
     | GSuspend st \<Rightarrow> push_task tid Loop st s)"

definition loop_connect :: "bool \<Rightarrow> nat \<Rightarrow> 'u upstream \<Rightarrow> 'u upstream" where
  "loop_connect notifies tid s = (if up_stopped s then s
     else let (r, s1) = getOrConnectSession notifies s in loop_settle tid r s1)"

definition reconnectLoop :: "bool \<Rightarrow> nat \<Rightarrow> 'u upstream \<Rightarrow> 'u upstream" where
  "reconnectLoop notifies tid s = (if up_stopped s then s
     else if up_backoff s > 0 then push_task tid Loop Sleeping s
     else loop_connect notifies tid s)"

text \<open>A forwarding call uses the session it gets; a null session is dereferenced.\<close>

definition forward_settle :: "nat \<Rightarrow> goc \<Rightarrow> 'u upstream \<Rightarrow> 'u upstream" where
  "forward_settle tid r s = (case r of
       GRet None \<Rightarrow> crash s
     | GRet (Some x) \<Rightarrow> s\<lparr>up_results := up_results s @ [(tid, Some x)]\<rparr>
     | GThrow \<Rightarrow> s\<lparr>up_results := up_results s @ [(tid, None)]\<rparr>
     | GSuspend st \<Rightarrow> push_task tid Forwarder st s)"

definition settle :: "nat \<Rightarrow> task_owner \<Rightarrow> goc \<Rightarrow> 'u upstream \<Rightarrow> 'u upstream" where
  "settle tid owner r s = (case owner of Loop \<Rightarrow> loop_settle tid r s | Forwarder \<Rightarrow> forward_settle tid r s)"

text \<open>subscribe, fetch, trackStatus, subscribeNamespace and publishNamespace with their co-routines.\<close>

definition forward_call :: "bool \<Rightarrow> 'u upstream \<Rightarrow> 'u upstream" where
  "forward_call notifies s0 =
    (let tid = up_ntasks s0; s = s0\<lparr>up_ntasks := Suc tid\<rparr>
     in case getSession s of
          Some x \<Rightarrow> s\<lparr>up_results := up_results s @ [(tid, Some x)]\<rparr>
        | None \<Rightarrow> (let (r, s1) = getOrConnectSession notifies s in forward_settle tid r s1))"

definition publish :: "bool \<Rightarrow> 'u upstream \<Rightarrow> 'u upstream" where
  "publish notifies s0 =
    (let tid = up_ntasks s0; s = s0\<lparr>up_ntasks := Suc tid\<rparr>
     in if up_stopped s then s\<lparr>up_results := up_results s @ [(tid, None)]\<rparr>
        else if up_state s = Connected \<and> up_session s \<noteq> None
        then s\<lparr>up_results := up_results s @ [(tid, up_session s)]\<rparr>
        else (let (r, s1) = getOrConnectSession notifies s in forward_settle tid r s1))"

text \<open>The promise waitForConnected waits for, if it waits at all.\<close>

definition waitForConnected :: "'u upstream \<Rightarrow> nat option" where
  "waitForConnected s = (if up_stopped s \<or> (up_state s = Connected \<and> up_session s \<noteq> None) then None
     else up_connectPromise s)"

subsection \<open>Steps of the whole system\<close>

datatype outcome = Ok nat | Fail

fun pop_task :: "nat \<Rightarrow> (nat \<times> task_owner \<times> stage) list \<Rightarrow> ((task_owner \<times> stage) \<times> (nat \<times> task_owner \<times> stage) list) option" where
  "pop_task tid [] = None"
| "pop_task tid (t # ts) = (if fst t = tid then Some (snd t, ts)
     else case pop_task tid ts of None \<Rightarrow> None | Some (x, rest) \<Rightarrow> Some (x, t # rest))"

definition resume :: "bool \<Rightarrow> nat \<Rightarrow> task_owner \<Rightarrow> stage \<Rightarrow> outcome \<Rightarrow> 'u upstream \<Rightarrow> 'u upstream" where
  "resume notifies tid owner stage out s = (case stage of
       Starting \<Rightarrow> reconnectLoop notifies tid s
     | Sleeping \<Rightarrow> loop_connect notifies tid s
     | Waiting p \<Rightarrow> settle tid owner (goc_waited p s) s
     | InSetup c \<Rightarrow> (let (r, s1) = (case out of Ok x \<Rightarrow> doConnect_session notifies c x s | Fail \<Rightarrow> goc_fail notifies s)
                     in settle tid owner r s1)
     | InHook \<Rightarrow> (let (r, s1) = (case out of Ok _ \<Rightarrow> goc_finish notifies s | Fail \<Rightarrow> goc_fail notifies s)
                  in settle tid owner r s1))"

datatype 'u uevent = Forward | Publish | Start | Run nat outcome | SessionClosed | GoawayRcvd "'u option" | Stop | Close

definition ustep :: "bool \<Rightarrow> 'u uevent \<Rightarrow> 'u upstream \<Rightarrow> 'u upstream" where
  "ustep notifies e s = (if up_crashed s then s else case e of
       Forward \<Rightarrow> forward_call notifies s
     | Publish \<Rightarrow> publish notifies s
     | Start \<Rightarrow> spawn_loop s
     | Run tid out \<Rightarrow> (case pop_task tid (up_tasks s) of None \<Rightarrow> s
         | Some ((owner, stage), ts) \<Rightarrow> resume notifies tid owner stage out (s\<lparr>up_tasks := ts\<rparr>))
     | SessionClosed \<Rightarrow> onMoQSessionClosed s
     | GoawayRcvd u \<Rightarrow> goaway u s
     | Stop \<Rightarrow> stop s
     | Close \<Rightarrow> if up_stopped s then close notifies s else s)"

definition urun :: "bool \<Rightarrow> 'u uevent list \<Rightarrow> 'u upstream \<Rightarrow> 'u upstream" where
  "urun notifies es s = fold (ustep notifies) es s"


subsection \<open>Invariant\<close>

text \<open>
  The attempt in flight is the one task that connects, or, while its segment runs, no task
  (flag \<open>r\<close>). There is at most one; it owns the pending promise, and every other promise is resolved.
\<close>

fun is_connecting :: "nat \<times> task_owner \<times> stage \<Rightarrow> bool" where
  "is_connecting (_, _, InSetup _) = True"
| "is_connecting (_, _, InHook) = True"
| "is_connecting _ = False"

definition attempts :: "'u upstream \<Rightarrow> nat" where
  "attempts s = length (filter is_connecting (up_tasks s))"

fun stage_ok :: "'u upstream \<Rightarrow> stage \<Rightarrow> bool" where
  "stage_ok s (Waiting p) = (p < length (up_promises s))"
| "stage_ok s (InSetup c) = (up_stopped s \<or> (\<exists>m. up_client s = Some (c, m)))"
| "stage_ok s InHook = (up_stopped s \<or> up_session s \<noteq> None)"
| "stage_ok s _ = True"

definition promises_ok :: "bool \<Rightarrow> 'u upstream \<Rightarrow> bool" where
  "promises_ok fl s \<longleftrightarrow>
     (\<forall>p. up_connectPromise s = Some p \<longrightarrow> p < length (up_promises s)) \<and>
     (\<forall>p<length (up_promises s). up_promises s ! p \<noteq> PBroken \<and>
        (up_promises s ! p = PPending \<longrightarrow> fl \<and> up_connectPromise s = Some p)) \<and>
     (fl \<longrightarrow> (\<exists>p. up_connectPromise s = Some p \<and> up_promises s ! p = PPending))"

text \<open>Only the current session calls back, and a client left behind does not.\<close>

definition callback_ok :: "'u upstream \<Rightarrow> bool" where
  "callback_ok s \<longleftrightarrow> up_stopped s \<or>
     ((\<forall>x. up_callback s = Some x \<longrightarrow> up_session s = Some x) \<and>
      (up_state s = Disconnected \<longrightarrow> (\<forall>c x. up_client s = Some (c, Some x) \<longrightarrow> up_callback s \<noteq> Some x)))"

definition upstream_inv :: "bool \<Rightarrow> 'u upstream \<Rightarrow> bool" where
  "upstream_inv r s \<longleftrightarrow> \<not> up_crashed s \<and>
     attempts s + (if r then 1 else 0) \<le> 1 \<and>
     (up_state s = Connected \<longrightarrow> up_session s \<noteq> None) \<and>
     (up_state s = Connecting \<longrightarrow> r \<or> attempts s > 0) \<and>
     (r \<or> attempts s > 0 \<longrightarrow> up_state s = Connecting \<or> up_stopped s \<and> up_state s = Disconnected) \<and>
     promises_ok (r \<or> attempts s > 0) s \<and> callback_ok s \<and>
     (\<forall>t\<in>set (up_tasks s). stage_ok s (snd (snd t)))"

text \<open>Without an attempt among the tasks, only the waiting ones need anything.\<close>

definition quiet :: "'u upstream \<Rightarrow> bool" where
  "quiet s \<longleftrightarrow> attempts s = 0 \<and> (\<forall>t\<in>set (up_tasks s). \<forall>p. snd (snd t) = Waiting p \<longrightarrow> p < length (up_promises s))"

lemma quiet_stage_ok:
  "quiet s \<longleftrightarrow> attempts s = 0 \<and> (\<forall>t\<in>set (up_tasks s). stage_ok s (snd (snd t)))"
proof -
  have "(\<forall>p. st = Waiting p \<longrightarrow> p < length (up_promises s)) \<longleftrightarrow> stage_ok s st"
    if "(tid, ow, st) \<in> set (up_tasks s)" "attempts s = 0" for tid ow st
  proof (cases st)
    case (InSetup c)
    then have "(tid, ow, st) \<in> set (filter is_connecting (up_tasks s))" using that(1) by simp
    then show ?thesis using that(2) by (auto simp: attempts_def filter_empty_conv)
  next
    case InHook
    then have "(tid, ow, st) \<in> set (filter is_connecting (up_tasks s))" using that(1) by simp
    then show ?thesis using that(2) by (auto simp: attempts_def filter_empty_conv)
  qed auto
  then show ?thesis unfolding quiet_def by auto
qed

lemma inv_False_quiet:
  "attempts s = 0 \<Longrightarrow> upstream_inv False s \<longleftrightarrow> \<not> up_crashed s \<and> (up_state s = Connected \<longrightarrow> up_session s \<noteq> None) \<and>
     up_state s \<noteq> Connecting \<and> promises_ok False s \<and> callback_ok s \<and> quiet s"
  by (auto simp: upstream_inv_def quiet_stage_ok)

lemma inv_True_quiet:
  "upstream_inv True s \<longleftrightarrow> \<not> up_crashed s \<and>
     (up_state s = Connecting \<or> up_stopped s \<and> up_state s = Disconnected) \<and> promises_ok True s \<and> callback_ok s \<and> quiet s"
  by (auto simp: upstream_inv_def quiet_stage_ok)

lemma attempts_push [simp]:
  "attempts (push_task t ow st s) = attempts s + (if is_connecting (t, ow, st) then 1 else 0)"
  by (simp add: attempts_def push_task_def)

lemma stage_ok_push [simp]: "stage_ok (push_task t ow st s) st' = stage_ok s st'"
  by (cases st') (simp_all add: push_task_def)

lemma promises_ok_push [simp]: "promises_ok fl (push_task t ow st s) = promises_ok fl s"
  by (simp add: promises_ok_def push_task_def)

lemma callback_ok_push [simp]: "callback_ok (push_task t ow st s) = callback_ok s"
  by (simp add: callback_ok_def push_task_def)

lemma push_fields [simp]:
  "up_crashed (push_task t ow st s) = up_crashed s" "up_state (push_task t ow st s) = up_state s"
  "up_session (push_task t ow st s) = up_session s" "up_stopped (push_task t ow st s) = up_stopped s"
  "up_tasks (push_task t ow st s) = up_tasks s @ [(t, ow, st)]"
  by (simp_all add: push_task_def)

lemma inv_push_idle:
  "upstream_inv r s \<Longrightarrow> \<not> is_connecting (t, ow, st) \<Longrightarrow> stage_ok s st \<Longrightarrow> upstream_inv r (push_task t ow st s)"
  by (simp add: upstream_inv_def)

lemma inv_push_connecting:
  "upstream_inv True s \<Longrightarrow> is_connecting (t, ow, st) \<Longrightarrow> stage_ok s st \<Longrightarrow> upstream_inv False (push_task t ow st s)"
  by (simp add: upstream_inv_def)

text \<open>Fields the parts of the invariant do not read.\<close>

lemma promises_ok_congs [simp]:
  "promises_ok fl (s\<lparr>up_state := v0\<rparr>) = promises_ok fl s"
  "promises_ok fl (s\<lparr>up_client := v1\<rparr>) = promises_ok fl s"
  "promises_ok fl (s\<lparr>up_session := v2\<rparr>) = promises_ok fl s"
  "promises_ok fl (s\<lparr>up_callback := v3\<rparr>) = promises_ok fl s"
  "promises_ok fl (s\<lparr>up_stopped := v4\<rparr>) = promises_ok fl s"
  "promises_ok fl (s\<lparr>up_tasks := v5\<rparr>) = promises_ok fl s"
  "promises_ok fl (s\<lparr>up_nclients := v6\<rparr>) = promises_ok fl s"
  "promises_ok fl (s\<lparr>up_onConnect := v7\<rparr>) = promises_ok fl s"
  "promises_ok fl (s\<lparr>up_onDisconnect := v8\<rparr>) = promises_ok fl s"
  "promises_ok fl (s\<lparr>up_publishHandler := v9\<rparr>) = promises_ok fl s"
  "promises_ok fl (s\<lparr>up_subscribeHandler := v10\<rparr>) = promises_ok fl s"
  by (simp_all add: promises_ok_def)

lemma quiet_congs [simp]:
  "quiet (s\<lparr>up_state := v0\<rparr>) = quiet s"
  "quiet (s\<lparr>up_client := v1\<rparr>) = quiet s"
  "quiet (s\<lparr>up_session := v2\<rparr>) = quiet s"
  "quiet (s\<lparr>up_callback := v3\<rparr>) = quiet s"
  "quiet (s\<lparr>up_stopped := v4\<rparr>) = quiet s"
  "quiet (s\<lparr>up_nclients := v6\<rparr>) = quiet s"
  "quiet (s\<lparr>up_onConnect := v7\<rparr>) = quiet s"
  "quiet (s\<lparr>up_onDisconnect := v8\<rparr>) = quiet s"
  "quiet (s\<lparr>up_publishHandler := v9\<rparr>) = quiet s"
  "quiet (s\<lparr>up_subscribeHandler := v10\<rparr>) = quiet s"
  "quiet (s\<lparr>up_connectPromise := w\<rparr>) = quiet s"
  by (simp_all add: quiet_def attempts_def)

lemma callback_ok_congs [simp]:
  "callback_ok (s\<lparr>up_tasks := v5\<rparr>) = callback_ok s"
  "callback_ok (s\<lparr>up_nclients := v6\<rparr>) = callback_ok s"
  "callback_ok (s\<lparr>up_onConnect := v7\<rparr>) = callback_ok s"
  "callback_ok (s\<lparr>up_onDisconnect := v8\<rparr>) = callback_ok s"
  "callback_ok (s\<lparr>up_publishHandler := v9\<rparr>) = callback_ok s"
  "callback_ok (s\<lparr>up_subscribeHandler := v10\<rparr>) = callback_ok s"
  "callback_ok (s\<lparr>up_connectPromise := w\<rparr>) = callback_ok s"
  "callback_ok (s\<lparr>up_promises := ps\<rparr>) = callback_ok s"
  by (simp_all add: callback_ok_def)

lemma stage_ok_congs [simp]:
  "stage_ok (s\<lparr>up_backoff := b\<rparr>) st = stage_ok s st"
  "stage_ok (s\<lparr>up_ntasks := n\<rparr>) st = stage_ok s st"
  "stage_ok (s\<lparr>up_results := rs\<rparr>) st = stage_ok s st"
  "stage_ok (s\<lparr>up_url := u\<rparr>) st = stage_ok s st"
  "stage_ok (s\<lparr>up_tasks := ts\<rparr>) st = stage_ok s st"
  by (cases st; simp)+

lemma inv_congs [simp]:
  "upstream_inv r (s\<lparr>up_backoff := b\<rparr>) = upstream_inv r s"
  "upstream_inv r (s\<lparr>up_ntasks := n\<rparr>) = upstream_inv r s"
  "upstream_inv r (s\<lparr>up_results := rs\<rparr>) = upstream_inv r s"
  "upstream_inv r (s\<lparr>up_url := u\<rparr>) = upstream_inv r s"
  by (simp_all add: upstream_inv_def attempts_def promises_ok_def callback_ok_def)

lemma inv_spawn [simp]: "upstream_inv r s \<Longrightarrow> upstream_inv r (spawn_loop s)"
  unfolding spawn_loop_def by (rule inv_push_idle) simp_all

text \<open>Losing a session when no attempt is in flight.\<close>

lemma callback_reset: "callback_ok s \<Longrightarrow> callback_ok (resetSession s)"
  by (cases "up_callback s") (auto simp: resetSession_def callback_ok_def Let_def split: option.split)

lemma inv_reset: "upstream_inv False s \<Longrightarrow> attempts s = 0 \<Longrightarrow> upstream_inv False (resetSession s)"
proof -
  assume "upstream_inv False s" "attempts s = 0"
  then have i: "\<not> up_crashed s" "promises_ok False s" "quiet s" "callback_ok s" by (simp_all add: inv_False_quiet)
  have "attempts (resetSession s) = 0" using \<open>attempts s = 0\<close>
    by (simp add: resetSession_def attempts_def Let_def split: option.split)
  moreover have "quiet (resetSession s)" "promises_ok False (resetSession s)" "\<not> up_crashed (resetSession s)"
    using i by (simp_all add: resetSession_def quiet_def attempts_def promises_ok_def Let_def split: option.split)
  moreover have "callback_ok (resetSession s)"
    using i(4) by (rule callback_reset)
  moreover have "up_state (resetSession s) = Disconnected" by (simp add: resetSession_def Let_def split: option.split)
  ultimately show ?thesis by (simp add: inv_False_quiet)
qed

lemma inv_lost: "upstream_inv False s \<Longrightarrow> attempts s = 0 \<Longrightarrow> upstream_inv False (onMoQSessionClosed s)"
  using inv_reset [of s] by (simp add: onMoQSessionClosed_def Let_def)

lemma inv_goaway: "upstream_inv False s \<Longrightarrow> attempts s = 0 \<Longrightarrow> upstream_inv False (goaway u s)"
proof -
  assume i: "upstream_inv False s" "attempts s = 0"
  let ?s0 = "case u of None \<Rightarrow> s | Some v \<Rightarrow> s\<lparr>up_url := v\<rparr>"
  have "upstream_inv False ?s0" "attempts ?s0 = 0"
    using i by (simp_all add: attempts_def split: option.split)
  from inv_reset [OF this] show ?thesis by (simp add: goaway_def Let_def)
qed

text \<open>The end of an attempt.\<close>

lemma lost_fields [simp]:
  "quiet (onMoQSessionClosed s) = quiet s" "promises_ok fl (onMoQSessionClosed s) = promises_ok fl s"
  "up_crashed (onMoQSessionClosed s) = up_crashed s" "up_state (onMoQSessionClosed s) = Disconnected"
  "up_client (onMoQSessionClosed s) = up_client s" "up_connectPromise (onMoQSessionClosed s) = up_connectPromise s"
  "up_stopped (onMoQSessionClosed s) = up_stopped s" "up_promises (onMoQSessionClosed s) = up_promises s"
  by (auto simp: onMoQSessionClosed_def resetSession_def spawn_loop_def push_task_def quiet_def attempts_def
      promises_ok_def Let_def split: option.split)

lemma callback_lost: "callback_ok s \<Longrightarrow> callback_ok (onMoQSessionClosed s)"
  using callback_reset [of s] by (auto simp: onMoQSessionClosed_def callback_ok_def spawn_loop_def push_task_def Let_def)

lemma replace_client_cases:
  obtains "replace_client notifies new s = s\<lparr>up_client := new\<rparr>"
  | c x where "up_client s = Some (c, Some x)" "up_callback s = Some x"
      "replace_client notifies new s = onMoQSessionClosed (s\<lparr>up_client := new\<rparr>)"
proof -
  assume a: "replace_client notifies new s = s\<lparr>up_client := new\<rparr> \<Longrightarrow> thesis"
    "\<And>c x. up_client s = Some (c, Some x) \<Longrightarrow> up_callback s = Some x \<Longrightarrow>
       replace_client notifies new s = onMoQSessionClosed (s\<lparr>up_client := new\<rparr>) \<Longrightarrow> thesis"
  show thesis
  proof (cases "\<exists>c x. up_client s = Some (c, Some x) \<and> notifies \<and> up_callback s = Some x")
    case True
    then show thesis using a(2) by (auto simp: replace_client_def)
  next
    case False
    then show thesis using a(1) by (auto simp: replace_client_def Let_def split: option.splits)
  qed
qed

lemma promises_resolve:
  assumes ok: "promises_ok True s" and p: "up_connectPromise s = Some p" and v: "v \<noteq> PPending" "v \<noteq> PBroken"
    and s': "up_promises s' = (up_promises s)[p := v]" "\<And>q. up_connectPromise s' = Some q \<Longrightarrow> q = p"
  shows "promises_ok False s'"
proof -
  have len: "p < length (up_promises s)" using ok p by (simp add: promises_ok_def)
  have "up_promises s' ! q \<noteq> PBroken \<and> up_promises s' ! q \<noteq> PPending" if q: "q < length (up_promises s')" for q
  proof (cases "q = p")
    case True
    then show ?thesis using v len by (simp add: s'(1))
  next
    case False
    have "q < length (up_promises s)" using q by (simp add: s'(1))
    then have "up_promises s ! q \<noteq> PBroken" "up_promises s ! q = PPending \<Longrightarrow> up_connectPromise s = Some q"
      using ok unfolding promises_ok_def by blast+
    then have "up_promises s ! q \<noteq> PBroken" "up_promises s ! q \<noteq> PPending" using False p by auto
    then show ?thesis using False by (simp add: s'(1))
  qed
  moreover have "q < length (up_promises s')" if "up_connectPromise s' = Some q" for q
    using s'(2) [OF that] len by (simp add: s'(1))
  ultimately show ?thesis unfolding promises_ok_def by blast
qed

lemma goc_fail_inv:
  assumes "upstream_inv True s"
  shows "fst (goc_fail notifies s) = GThrow" "upstream_inv False (snd (goc_fail notifies s))"
    "attempts (snd (goc_fail notifies s)) = 0" "up_stopped (snd (goc_fail notifies s)) = up_stopped s"
proof -
  from assms have i: "\<not> up_crashed s" "promises_ok True s" "callback_ok s" "quiet s" by (simp_all add: inv_True_quiet)
  define t where "t = s\<lparr>up_state := Disconnected, up_client := None\<rparr>"
  define s1 where "s1 = replace_client notifies None (s\<lparr>up_state := Disconnected\<rparr>)"
  have cb: "callback_ok t" using i(3) by (auto simp: t_def callback_ok_def)
  have t: "\<not> up_crashed t" "promises_ok True t" "quiet t" "up_state t = Disconnected" "up_client t = None"
    "up_stopped t = up_stopped s"
    using i(1,2,4) by (simp_all add: t_def)
  have "s1 = t \<or> s1 = onMoQSessionClosed t"
    unfolding s1_def t_def by (rule replace_client_cases [of notifies None "s\<lparr>up_state := Disconnected\<rparr>"]) simp_all
  then have s1: "\<not> up_crashed s1" "promises_ok True s1" "callback_ok s1" "quiet s1" "up_state s1 = Disconnected"
    "up_client s1 = None" "up_stopped s1 = up_stopped s"
    using t cb callback_lost [OF cb] by (elim disjE; simp)+
  from s1(2) obtain p where p: "up_connectPromise s1 = Some p" "up_promises s1 ! p = PPending" "p < length (up_promises s1)"
    unfolding promises_ok_def by blast
  define s2 where "s2 = s1\<lparr>up_promises := (up_promises s1)[p := PException], up_connectPromise := None\<rparr>"
  have e: "goc_fail notifies s = (GThrow, s2)"
    by (simp add: goc_fail_def Let_def s1_def [symmetric] p s2_def)
  have "promises_ok False s2"
    by (rule promises_resolve [OF s1(2) p(1), where v = PException]) (simp_all add: s2_def)
  moreover have "quiet s2" using s1(4) by (simp add: s2_def quiet_def attempts_def)
  moreover have "callback_ok s2" "\<not> up_crashed s2" "up_state s2 = Disconnected" "up_stopped s2 = up_stopped s"
    using s1(1,3,5,7) by (simp_all add: s2_def)
  moreover from \<open>quiet s2\<close> have "attempts s2 = 0" by (simp add: quiet_def)
  ultimately show "fst (goc_fail notifies s) = GThrow" "upstream_inv False (snd (goc_fail notifies s))"
    "attempts (snd (goc_fail notifies s)) = 0" "up_stopped (snd (goc_fail notifies s)) = up_stopped s"
    by (simp_all add: e inv_False_quiet)
qed

lemma goc_finish_inv:
  assumes "upstream_inv True s" "up_session s = Some x"
  shows "fst (goc_finish notifies s) = GRet (Some x)" "upstream_inv False (snd (goc_finish notifies s))"
proof -
  from assms(1) have i: "\<not> up_crashed s" "promises_ok True s" "callback_ok s" "quiet s" by (simp_all add: inv_True_quiet)
  from i(2) obtain p where p: "up_connectPromise s = Some p" "up_promises s ! p = PPending" "p < length (up_promises s)"
    unfolding promises_ok_def by blast
  define s2 where "s2 = s\<lparr>up_state := Connected, up_promises := (up_promises s)[p := PValue]\<rparr>"
  have e: "goc_finish notifies s = (GRet (Some x), s2)"
    by (simp add: goc_finish_def Let_def p s2_def assms(2))
  have "promises_ok False s2"
    by (rule promises_resolve [OF i(2) p(1), where v = PValue]) (simp_all add: s2_def p(1))
  moreover have "quiet s2" using i(4) by (simp add: s2_def quiet_def attempts_def)
  moreover have "callback_ok s2" using i(3) by (auto simp: s2_def callback_ok_def)
  moreover have "\<not> up_crashed s2" "up_session s2 = Some x" "up_state s2 = Connected"
    using i(1) assms(2) by (simp_all add: s2_def)
  moreover from \<open>quiet s2\<close> have "attempts s2 = 0" by (simp add: quiet_def)
  ultimately show "fst (goc_finish notifies s) = GRet (Some x)" "upstream_inv False (snd (goc_finish notifies s))"
    by (simp_all add: e inv_False_quiet)
qed

text \<open>What a caller does with the end of an attempt keeps the invariant.\<close>

lemma settle_throw: "upstream_inv False s \<Longrightarrow> upstream_inv False (settle tid ow GThrow s)"
  by (cases ow) (simp_all add: settle_def loop_settle_def forward_settle_def inv_push_idle)

lemma settle_ret: "upstream_inv False s \<Longrightarrow> upstream_inv False (settle tid ow (GRet (Some x)) s)"
  by (cases ow) (simp_all add: settle_def loop_settle_def forward_settle_def)

lemma settle_waiting:
  "upstream_inv False s \<Longrightarrow> p < length (up_promises s) \<Longrightarrow> upstream_inv False (settle tid ow (GSuspend (Waiting p)) s)"
  by (cases ow) (simp_all add: settle_def loop_settle_def forward_settle_def inv_push_idle)

lemma settle_connecting:
  assumes "upstream_inv True s" "\<And>t ow. is_connecting (t, ow, st)" "stage_ok s st"
  shows "upstream_inv False (settle tid ow (GSuspend st) s)"
  using inv_push_connecting [OF assms(1) assms(2) assms(3)]
  by (cases ow) (simp_all add: settle_def loop_settle_def forward_settle_def)

lemma promises_emplace:
  assumes "promises_ok False s"
  shows "promises_ok True (emplace_promise s)"
    "up_promises (emplace_promise s) = up_promises s @ [PPending]"
proof -
  have "up_promises s ! p \<noteq> PPending" if "up_connectPromise s = Some p" for p
    using assms that unfolding promises_ok_def by blast
  then have e: "emplace_promise s = s\<lparr>up_promises := up_promises s @ [PPending], up_connectPromise := Some (length (up_promises s))\<rparr>"
    by (simp add: emplace_promise_def Let_def split: option.split)
  have "up_promises s ! p \<noteq> PBroken" "up_promises s ! p \<noteq> PPending" if "p < length (up_promises s)" for p
    using assms that unfolding promises_ok_def by blast+
  then show "promises_ok True (emplace_promise s)" "up_promises (emplace_promise s) = up_promises s @ [PPending]"
    unfolding e promises_ok_def by (simp_all add: nth_append less_Suc_eq)
qed

lemma emplace_fields [simp]:
  "up_state (emplace_promise s) = up_state s" "up_session (emplace_promise s) = up_session s"
  "up_client (emplace_promise s) = up_client s" "up_callback (emplace_promise s) = up_callback s"
  "up_stopped (emplace_promise s) = up_stopped s" "up_crashed (emplace_promise s) = up_crashed s"
  "up_tasks (emplace_promise s) = up_tasks s" "up_nclients (emplace_promise s) = up_nclients s"
  by (simp_all add: emplace_promise_def Let_def split: option.split)

lemma doConnect_begin_inv:
  fixes notifies :: bool
  assumes i: "upstream_inv False s" and s: "\<not> up_stopped s" "up_state s = Disconnected"
  defines "g \<equiv> doConnect_begin notifies (emplace_promise (s\<lparr>up_state := Connecting\<rparr>))"
  shows "upstream_inv False (settle tid ow (fst g) (snd g))"
proof -
  have a: "attempts s = 0" using i s by (auto simp: upstream_inv_def)
  then have q: "\<not> up_crashed s" "promises_ok False s" "callback_ok s" "quiet s" using i by (simp_all add: inv_False_quiet)
  define e where "e = emplace_promise (s\<lparr>up_state := Connecting\<rparr>)"
  define c where "c = up_nclients s"
  define s' where "s' = e\<lparr>up_nclients := Suc c, up_client := Some (c, None)\<rparr>"
  have pe: "promises_ok True e" "up_promises e = up_promises s @ [PPending]"
    unfolding e_def using promises_emplace [of "s\<lparr>up_state := Connecting\<rparr>"] q(2) by simp_all
  have no: "\<not> (\<exists>d x. up_client s = Some (d, Some x) \<and> up_callback s = Some x)"
    using q(3) s by (auto simp: callback_ok_def)
  have "replace_client notifies (Some (c, None)) (e\<lparr>up_nclients := Suc c\<rparr>) = s'"
    by (rule replace_client_cases [of notifies "Some (c, None)" "e\<lparr>up_nclients := Suc c\<rparr>"]) (use no in \<open>auto simp: s'_def e_def\<close>)
  then have g: "g = (GSuspend (InSetup c), s')"
    by (simp add: g_def e_def [symmetric] doConnect_begin_def Let_def) (simp add: e_def c_def)
  have "quiet s'" using q(4) pe(2) by (auto simp: s'_def quiet_def attempts_def e_def)
  moreover have "callback_ok s'" using q(3) s by (auto simp: s'_def callback_ok_def e_def)
  moreover have "promises_ok True s'" using pe(1) by (simp add: s'_def)
  moreover have "\<not> up_crashed s'" "up_state s' = Connecting" using q(1) by (simp_all add: s'_def e_def)
  ultimately have "upstream_inv True s'" by (simp add: inv_True_quiet)
  then show ?thesis unfolding g fst_conv snd_conv by (rule settle_connecting) (simp_all add: s'_def)
qed

lemma getOrConnectSession_inv:
  fixes notifies :: bool
  assumes i: "upstream_inv False s"
  defines "g \<equiv> getOrConnectSession notifies s"
  shows "upstream_inv False (settle tid ow (fst g) (snd g))"
proof (cases "up_stopped s")
  case True
  then show ?thesis using settle_throw [OF i] by (simp add: g_def getOrConnectSession_def)
next
  case ns: False
  show ?thesis
  proof (cases "up_state s")
    case Connected
    then obtain x where "up_session s = Some x" using i by (auto simp: upstream_inv_def)
    then show ?thesis using settle_ret [OF i] ns Connected by (simp add: g_def getOrConnectSession_def)
  next
    case Connecting
    then have "promises_ok True s" using i by (auto simp: upstream_inv_def)
    then obtain p where "up_connectPromise s = Some p" "p < length (up_promises s)" unfolding promises_ok_def by blast
    then show ?thesis using settle_waiting [OF i] ns Connecting by (simp add: g_def getOrConnectSession_def)
  next
    case Disconnected
    then show ?thesis using doConnect_begin_inv [OF i ns] ns by (simp add: g_def getOrConnectSession_def)
  qed
qed

text \<open>Taking a task from the list.\<close>

lemma pop_task_filter:
  "pop_task tid ts = Some ((ow, st), rest) \<Longrightarrow>
   set ts = insert (tid, ow, st) (set rest) \<and>
   length (filter P ts) = length (filter P rest) + (if P (tid, ow, st) then 1 else 0)"
  by (induction ts arbitrary: rest) (auto split: if_splits option.splits)

lemma pop_stage: "upstream_inv r s \<Longrightarrow> pop_task tid (up_tasks s) = Some ((ow, st), rest) \<Longrightarrow> stage_ok s st"
  using pop_task_filter [of tid "up_tasks s" ow st rest] by (simp add: upstream_inv_def)

lemma pop_idle:
  assumes "upstream_inv False s" "pop_task tid (up_tasks s) = Some ((ow, st), rest)" "\<not> is_connecting (tid, ow, st)"
  shows "upstream_inv False (s\<lparr>up_tasks := rest\<rparr>)"
proof -
  note p = pop_task_filter [OF assms(2)]
  from p [of is_connecting] assms(3) have "attempts (s\<lparr>up_tasks := rest\<rparr>) = attempts s" by (simp add: attempts_def)
  then show ?thesis using assms(1) p by (simp add: upstream_inv_def)
qed

lemma pop_connecting:
  assumes "upstream_inv False s" "pop_task tid (up_tasks s) = Some ((ow, st), rest)" "is_connecting (tid, ow, st)"
  shows "upstream_inv True (s\<lparr>up_tasks := rest\<rparr>)"
proof -
  note p = pop_task_filter [OF assms(2)]
  from p [of is_connecting] assms(3) have "attempts s = Suc (attempts (s\<lparr>up_tasks := rest\<rparr>))" by (simp add: attempts_def)
  then show ?thesis using assms(1) p by (simp add: upstream_inv_def)
qed

subsection \<open>Orderly runs\<close>

text \<open>
  A run is orderly when the session is closed or told to go away only while connected, never in the middle of an
  attempt, and no attempt succeeds after stop.
\<close>

fun orderly :: "'u uevent \<Rightarrow> 'u upstream \<Rightarrow> bool" where
  "orderly (Run tid (Ok x)) s = (\<not> up_stopped s)"
| "orderly SessionClosed s = (up_state s = Connected)"
| "orderly (GoawayRcvd u) s = (up_state s = Connected)"
| "orderly _ s = True"

inductive orderly_reach :: "bool \<Rightarrow> 'u upstream \<Rightarrow> bool" where
  init: "orderly_reach notifies (new_provider url onConnect onDisconnect)"
| step: "orderly_reach notifies s \<Longrightarrow> orderly e s \<Longrightarrow> orderly_reach notifies (ustep notifies e s)"

lemma Connected_quiet: "upstream_inv False s \<Longrightarrow> up_state s = Connected \<Longrightarrow> attempts s = 0"
  by (auto simp: upstream_inv_def)

lemma loop_connect_inv: "upstream_inv False s \<Longrightarrow> upstream_inv False (loop_connect notifies tid s)"
  using getOrConnectSession_inv [of s tid Loop notifies]
  by (simp add: loop_connect_def settle_def case_prod_beta Let_def)

lemma reconnectLoop_inv: "upstream_inv False s \<Longrightarrow> upstream_inv False (reconnectLoop notifies tid s)"
  by (simp add: reconnectLoop_def loop_connect_inv inv_push_idle)

lemma forward_inv:
  assumes "upstream_inv False s"
  shows "upstream_inv False (forward_call notifies s)" "upstream_inv False (publish notifies s)"
proof -
  define t where "t = s\<lparr>up_ntasks := Suc (up_ntasks s)\<rparr>"
  have "upstream_inv False t" using assms by (simp add: t_def)
  from this getOrConnectSession_inv [OF this, of "up_ntasks s" Forwarder notifies]
  show "upstream_inv False (forward_call notifies s)" "upstream_inv False (publish notifies s)"
    unfolding forward_call_def publish_def Let_def t_def [symmetric]
    by (simp_all add: settle_def case_prod_beta split: option.split)
qed

lemma doConnect_session_inv:
  fixes notifies :: bool and x :: nat
  assumes i: "upstream_inv True s" and c: "up_client s = Some (c, m)" and ns: "\<not> up_stopped s"
  defines "g \<equiv> doConnect_session notifies c x s"
  shows "upstream_inv False (settle tid ow (fst g) (snd g))"
proof -
  define s1 where "s1 = s\<lparr>up_client := Some (c, Some x), up_session := Some x, up_callback := Some x\<rparr>"
  have "callback_ok s1" "quiet s1" "promises_ok True s1" "\<not> up_crashed s1" "up_state s1 = Connecting"
    using i ns by (simp_all add: inv_True_quiet s1_def callback_ok_def)
  then have i1: "upstream_inv True s1" by (simp add: inv_True_quiet)
  show ?thesis
  proof (cases "up_onConnect s1")
    case True
    then have "g = (GSuspend InHook, s1)" by (simp add: g_def doConnect_session_def c Let_def s1_def)
    then show ?thesis using settle_connecting [OF i1, of InHook] by (simp add: s1_def)
  next
    case False
    then have g: "g = goc_finish notifies s1" by (simp add: g_def doConnect_session_def c Let_def s1_def)
    have "up_session s1 = Some x" by (simp add: s1_def)
    from goc_finish_inv [OF i1 this, of notifies] show ?thesis unfolding g by (simp add: settle_ret)
  qed
qed

lemma resume_inv:
  assumes i: "upstream_inv False s" and p: "pop_task tid (up_tasks s) = Some ((ow, st), rest)"
    and o: "\<And>x. out = Ok x \<Longrightarrow> \<not> up_stopped s"
  shows "upstream_inv False (resume notifies tid ow st out (s\<lparr>up_tasks := rest\<rparr>))"
proof -
  let ?t = "s\<lparr>up_tasks := rest\<rparr>"
  have ok: "stage_ok s st" using i p by (rule pop_stage)
  show ?thesis
  proof (cases st)
    case Starting
    then show ?thesis using reconnectLoop_inv pop_idle [OF i p] by (simp add: resume_def)
  next
    case Sleeping
    then show ?thesis using loop_connect_inv pop_idle [OF i p] by (simp add: resume_def)
  next
    case (Waiting q)
    then have t: "upstream_inv False ?t" "q < length (up_promises ?t)" using pop_idle [OF i p] ok by simp_all
    then show ?thesis using Waiting settle_throw [OF t(1)] settle_ret [OF t(1)] settle_waiting [OF t]
      by (auto simp: resume_def goc_waited_def split: promise_state.split)
  next
    case (InSetup c)
    then have t: "upstream_inv True ?t" using pop_connecting [OF i p] by simp
    show ?thesis
    proof (cases out)
      case (Ok x)
      then have ns: "\<not> up_stopped ?t" using o by simp
      then obtain m where "up_client ?t = Some (c, m)" using ok InSetup by auto
      from doConnect_session_inv [OF t this ns] show ?thesis by (simp add: resume_def InSetup Ok case_prod_beta)
    next
      case Fail
      then show ?thesis using goc_fail_inv [OF t] by (simp add: resume_def InSetup case_prod_beta settle_throw)
    qed
  next
    case InHook
    then have t: "upstream_inv True ?t" using pop_connecting [OF i p] by simp
    show ?thesis
    proof (cases out)
      case (Ok x)
      then obtain y where "up_session ?t = Some y" using o ok InHook by auto
      from goc_finish_inv [OF t this] show ?thesis by (simp add: resume_def InHook Ok case_prod_beta settle_ret)
    next
      case Fail
      then show ?thesis using goc_fail_inv [OF t] by (simp add: resume_def InHook case_prod_beta settle_throw)
    qed
  qed
qed

lemma cancelled_idle: "cancelled t \<Longrightarrow> \<not> is_connecting t"
  by (cases t rule: is_connecting.cases) (auto simp: cancelled_def split: task_owner.splits)

lemma stop_inv: "upstream_inv False s \<Longrightarrow> upstream_inv False (stop s)"
proof -
  assume i: "upstream_inv False s"
  have "filter is_connecting (filter (\<lambda>t. \<not> cancelled t) ts) = filter is_connecting ts" for ts
    using cancelled_idle by (induction ts) auto
  then have a: "attempts (stop s) = attempts s" by (simp add: attempts_def stop_def)
  have "stage_ok s st \<Longrightarrow> stage_ok (stop s) st" for st by (cases st) (simp_all add: stop_def)
  moreover have "promises_ok fl (stop s) = promises_ok fl s" for fl by (simp add: stop_def)
  moreover have "callback_ok (stop s)" "up_crashed (stop s) = up_crashed s" "up_state (stop s) = up_state s"
    "up_session (stop s) = up_session s" "set (up_tasks (stop s)) \<subseteq> set (up_tasks s)" "up_stopped (stop s)"
    by (auto simp: stop_def callback_ok_def)
  ultimately show ?thesis using i a unfolding upstream_inv_def by auto
qed

lemma close_inv: "upstream_inv False s \<Longrightarrow> up_stopped s \<Longrightarrow> upstream_inv False (close notifies s)"
proof -
  assume i: "upstream_inv False s" and st: "up_stopped s"
  define t where "t = s\<lparr>up_session := None, up_client := None, up_state := Disconnected\<rparr>"
  have "replace_client notifies None (s\<lparr>up_session := None\<rparr>) = s\<lparr>up_session := None, up_client := None\<rparr> \<or>
    replace_client notifies None (s\<lparr>up_session := None\<rparr>) = onMoQSessionClosed (s\<lparr>up_session := None, up_client := None\<rparr>)"
    by (rule replace_client_cases [of notifies None "s\<lparr>up_session := None\<rparr>"]) auto
  then have "close notifies s = t"
    using st by (auto simp: close_def t_def onMoQSessionClosed_def resetSession_def Let_def)
  moreover have "attempts t = attempts s" "callback_ok t" "up_stopped t" "up_state t = Disconnected" "up_tasks t = up_tasks s"
    "up_crashed t = up_crashed s"
    using st by (simp_all add: t_def attempts_def callback_ok_def)
  moreover have "stage_ok s g \<Longrightarrow> stage_ok t g" for g using st by (cases g) (simp_all add: t_def)
  moreover have "promises_ok fl t = promises_ok fl s" for fl by (simp add: t_def)
  ultimately show ?thesis using i unfolding upstream_inv_def by auto
qed

lemma ustep_inv:
  assumes i: "upstream_inv False s" and o: "orderly e s"
  shows "upstream_inv False (ustep notifies e s)"
proof (cases e)
  case (Run tid out)
  have "\<And>x. out = Ok x \<Longrightarrow> \<not> up_stopped s" using o Run by auto
  then show ?thesis using i resume_inv [OF i] Run by (auto simp: ustep_def split: option.split)
next
  case SessionClosed
  then show ?thesis using i o inv_lost [OF i Connected_quiet [OF i]] by (simp add: ustep_def)
next
  case (GoawayRcvd u)
  then show ?thesis using i o inv_goaway [OF i Connected_quiet [OF i]] by (simp add: ustep_def)
qed (use i forward_inv [OF i] stop_inv [OF i] close_inv [OF i] in \<open>simp_all add: ustep_def\<close>)

lemma new_provider_inv: "upstream_inv False (new_provider url onc ond)"
  by (simp add: upstream_inv_def new_provider_def attempts_def promises_ok_def callback_ok_def)

lemma reach_inv: "orderly_reach notifies s \<Longrightarrow> upstream_inv False s"
  by (induction rule: orderly_reach.induct) (simp_all add: new_provider_inv ustep_inv)

fun orderly_run :: "bool \<Rightarrow> 'u uevent list \<Rightarrow> 'u upstream \<Rightarrow> bool" where
  "orderly_run notifies [] s = True"
| "orderly_run notifies (e # es) s = (orderly e s \<and> orderly_run notifies es (ustep notifies e s))"

lemma orderly_run_reach: "orderly_reach notifies s \<Longrightarrow> orderly_run notifies es s \<Longrightarrow> orderly_reach notifies (urun notifies es s)"
  by (induction es arbitrary: s) (simp_all add: urun_def orderly_reach.step)

lemmas upstream_eval = urun_def ustep_def resume_def reconnectLoop_def loop_connect_def getOrConnectSession_def
  doConnect_begin_def replace_client_def loop_settle_def forward_settle_def settle_def emplace_promise_def
  doConnect_session_def goc_finish_def goc_fail_def forward_call_def publish_def getSession_def spawn_loop_def
  push_task_def new_provider_def onMoQSessionClosed_def resetSession_def goc_waited_def crash_def Let_def

text \<open>C29: On every orderly run the provider never uses a null session or a missing promise, a
  connected provider has a session, at most one attempt to connect is in flight, and no caller is stranded: whoever waits for a
  connection waits for a promise that is resolved, or that belongs to the one attempt in flight, which resolves
  it when it ends either way.\<close>

theorem upstream_no_stranded_caller:
  assumes "orderly_reach notifies s"
  shows "\<not> up_crashed s \<and> attempts s \<le> 1 \<and> (up_state s = Connected \<longrightarrow> up_session s \<noteq> None) \<and>
    (\<forall>tid ow p. (tid, ow, Waiting p) \<in> set (up_tasks s) \<longrightarrow>
       up_promises s ! p \<in> {PValue, PException} \<or>
       attempts s = 1 \<and> up_connectPromise s = Some p \<and> up_promises s ! p = PPending)"
proof -
  from assms have i: "upstream_inv False s" by (rule reach_inv)
  have "up_promises s ! p \<in> {PValue, PException} \<or>
       attempts s = 1 \<and> up_connectPromise s = Some p \<and> up_promises s ! p = PPending"
    if "(tid, ow, Waiting p) \<in> set (up_tasks s)" for tid ow p
  proof -
    have l: "p < length (up_promises s)" using i that unfolding upstream_inv_def by force
    have a: "promises_ok (attempts s > 0) s" "attempts s \<le> 1" using i by (simp_all add: upstream_inv_def)
    have "up_promises s ! p \<noteq> PBroken" "up_promises s ! p = PPending \<Longrightarrow> attempts s > 0 \<and> up_connectPromise s = Some p"
      using a(1) l unfolding promises_ok_def by blast+
    then show ?thesis using a(2) by (cases "up_promises s ! p") simp_all
  qed
  then show ?thesis using i by (auto simp: upstream_inv_def)
qed

theorem upstream_no_stranded_caller_witness:
  "let s = urun True [Start, Run 0 Fail, Forward, Run 0 (Ok 5), Publish] (new_provider () True True)
   in \<not> up_crashed s \<and> up_tasks s = [(1, Forwarder, Waiting 0), (0, Loop, InHook), (2, Forwarder, Waiting 0)] \<and>
      up_connectPromise s = Some 0 \<and> up_promises s = [PPending] \<and> up_session s = Some 5"
proof -
  define s where "s = urun True [Start, Run 0 Fail, Forward, Run 0 (Ok 5), Publish] (new_provider () True True)"
  have "orderly_run True [Start, Run 0 Fail, Forward, Run 0 (Ok 5), Publish] (new_provider () True True)"
    by (simp add: upstream_eval)
  with orderly_reach.init have "orderly_reach True s" unfolding s_def by (rule orderly_run_reach)
  from upstream_no_stranded_caller [OF this] have "\<not> up_crashed s" by simp
  moreover have "up_tasks s = [(1, Forwarder, Waiting 0), (0, Loop, InHook), (2, Forwarder, Waiting 0)] \<and>
      up_connectPromise s = Some 0 \<and> up_promises s = [PPending] \<and> up_session s = Some 5"
    unfolding s_def by (simp add: upstream_eval)
  ultimately show ?thesis unfolding s_def [symmetric] by simp
qed

subsection \<open>Backoff\<close>

text \<open>A single loop that is connecting, with the backoff \<open>b\<close> it slept last.\<close>

definition retrying :: "nat \<Rightarrow> 'u upstream \<Rightarrow> bool" where
  "retrying b s \<longleftrightarrow> (\<exists>c. up_tasks s = [(0, Loop, InSetup c)] \<and> up_client s = Some (c, None)) \<and> up_state s = Connecting \<and>
     \<not> up_stopped s \<and> \<not> up_crashed s \<and> up_backoff s = b \<and>
     (\<exists>p. up_connectPromise s = Some p \<and> up_promises s ! p = PPending)"

lemma emplace_pending:
  "\<exists>p. up_connectPromise (emplace_promise s) = Some p \<and> up_promises (emplace_promise s) ! p = PPending"
  by (simp add: emplace_promise_def Let_def)

lemma emplace_backoff [simp]: "up_backoff (emplace_promise s) = up_backoff s"
  by (simp add: emplace_promise_def Let_def)

lemma retry_again:
  assumes "up_tasks s = [(0, Loop, st)]" "st = Sleeping \<or> st = Starting \<and> up_backoff s = 0" "up_state s = Disconnected"
    "up_client s = None" "\<not> up_stopped s" "\<not> up_crashed s"
  shows "retrying (up_backoff s) (ustep notifies (Run 0 Fail) s)"
proof -
  define e where "e = emplace_promise (s\<lparr>up_tasks := [], up_state := Connecting\<rparr>)"
  have "ustep notifies (Run 0 Fail) s = push_task 0 Loop (InSetup (up_nclients s)) (e\<lparr>up_nclients := Suc (up_nclients s), up_client := Some (up_nclients s, None)\<rparr>)"
    using assms by (auto simp: ustep_def resume_def reconnectLoop_def loop_connect_def getOrConnectSession_def
        doConnect_begin_def replace_client_def loop_settle_def e_def Let_def)
  then show ?thesis using assms emplace_pending [of "s\<lparr>up_tasks := [], up_state := Connecting\<rparr>"]
    by (auto simp: retrying_def push_task_def e_def)
qed

lemma retrying_round:
  assumes "retrying b s"
  shows "retrying (next_backoff b) (ustep notifies (Run 0 Fail) (ustep notifies (Run 0 Fail) s))"
proof -
  from assms obtain c p where s: "up_tasks s = [(0, Loop, InSetup c)]" "up_client s = Some (c, None)" "up_state s = Connecting"
    "\<not> up_stopped s" "\<not> up_crashed s" "up_backoff s = b" "up_connectPromise s = Some p" "up_promises s ! p = PPending"
    unfolding retrying_def by blast
  define t where "t = ustep notifies (Run 0 Fail) s"
  have "t = push_task 0 Loop Sleeping (s\<lparr>up_tasks := [], up_state := Disconnected, up_client := None,
       up_promises := (up_promises s)[p := PException], up_connectPromise := None, up_backoff := next_backoff b\<rparr>)"
    using s by (simp add: t_def ustep_def resume_def goc_fail_def replace_client_def settle_def loop_settle_def)
  then have "up_tasks t = [(0, Loop, Sleeping)]" "up_state t = Disconnected" "up_client t = None" "\<not> up_stopped t" "\<not> up_crashed t"
    "up_backoff t = next_backoff b"
    using s by (simp_all add: push_task_def)
  from retry_again [OF this(1) _ this(2,3,4,5), of notifies] this(6) show ?thesis unfolding t_def by simp
qed

lemma backoff_closed: "(next_backoff ^^ k) 0 = (if k = 0 then 0 else min 60000 (1000 * 2 ^ (k - 1)))"
proof (induction k)
  case (Suc k)
  then show ?case by (cases k) (auto simp: next_backoff_def kInitialReconnectBackoff_def kMaxReconnectBackoff_def min_def)
qed simp

text \<open>C30: While the upstream cannot be reached the reconnect loop keeps trying, and after \<open>k\<close> failed attempts in a
  row it has slept one second before the second attempt and twice as long before each further one, at most sixty
  seconds: attempt \<open>k\<close> is under way after a pause of min(60000, 1000 * 2^(k-1)) milliseconds.\<close>

theorem reconnect_backoff:
  "retrying (if k = 0 then 0 else min 60000 (1000 * 2 ^ (k - 1)))
     (urun notifies (Start # Run 0 Fail # concat (replicate k [Run 0 Fail, Run 0 Fail])) (new_provider url onConnect onDisconnect))"
proof -
  let ?s = "new_provider url onConnect onDisconnect"
  define s1 where "s1 = ustep notifies Start ?s"
  have "up_tasks s1 = [(0, Loop, Starting)]" "up_state s1 = Disconnected" "up_client s1 = None" "\<not> up_stopped s1" "\<not> up_crashed s1"
    "up_backoff s1 = 0"
    by (simp_all add: s1_def ustep_def spawn_loop_def push_task_def new_provider_def)
  from retry_again [OF this(1) _ this(2,3,4,5), of notifies] this(6)
  have r0: "retrying 0 (ustep notifies (Run 0 Fail) s1)" by simp
  have "retrying ((next_backoff ^^ k) b) (fold (ustep notifies) (concat (replicate k [Run 0 Fail, Run 0 Fail])) s)"
    if "retrying b s" for b and s :: "'a upstream"
    using that
  proof (induction k arbitrary: b s)
    case (Suc k)
    from Suc.IH [OF retrying_round [OF Suc.prems, of notifies]] show ?case
      by (simp add: funpow_swap1)
  qed simp
  from this [OF r0] show ?thesis unfolding backoff_closed by (simp add: urun_def s1_def)
qed

subsection \<open>When a session closes during an attempt\<close>


text \<open>An attempt of a forwarding call is not cancelled by stop; when its handshake succeeds after close, it uses the client that is gone.\<close>

lemma stop_during_forward_attempt:
  "up_crashed (urun notifies [Forward, Stop, Close, Run 0 (Ok 1)] (new_provider url onConnect onDisconnect))"
  by (simp add: upstream_eval stop_def close_def cancelled_def)

text \<open>
  When the hook throws and destroying the client reports the session closed, that report starts another reconnect loop
  while the one that failed goes on: every failing hook adds a loop.
\<close>

lemma failing_hook_adds_loops:
  "let s = urun True [Start, Run 0 Fail, Run 0 (Ok 1), Run 0 Fail, Run 1 Fail, Run 0 Fail, Run 0 (Ok 2), Run 0 Fail] (new_provider url True onDisconnect)
   in up_tasks s = [(1, Loop, Sleeping), (2, Loop, Starting), (0, Loop, Sleeping)]"
  by (simp add: upstream_eval next_backoff_def kInitialReconnectBackoff_def)

subsection \<open>Peering token\<close>

lemma kRelayAuthTokenType_varint: "kRelayAuthTokenType < 2 ^ 62"
  by (simp add: kRelayAuthTokenType_def)

lemma getPeerRelayID_makePeerSubNs:
  assumes "\<And>p. insertParam p [] = [p]"
  shows "getPeerRelayID authKey (makePeerSubNs insertParam authKey relayID) = relayID"
  by (simp add: getPeerRelayID_def makePeerSubNs_def Let_def assms split: option.split)

end
