(* ===== verification/Fetch_Ranges.thy ===== *)
theory Fetch_Ranges
  imports Prelude "HOL-Library.Product_Lexorder"
begin

section \<open>Ranges of a fetch\<close>

text \<open>
  The first part of MoqxCache.cpp and its class FetchRangeIterator: how a fetch walks over the positions of
  a track, in which ranges it marks positions as missing and which ranges it asks upstream for.
  A position is a group and an object number, ordered lexicographically. Its successor and
  predecessor functions and the interval set are library code (AbsoluteLocation,
  LocationIntervalSet) and are parameters, records of functions \<open>loc_ops\<close> and \<open>lis_ops\<close>, with their documented
  behaviour as the hypotheses \<open>loc_laws\<close> and \<open>lis_laws\<close>. A fetch is ascending, or
  descending (newest group first, objects of a group still ascending).
\<close>

type_synonym loc = "nat \<times> nat"

record loc_ops =
  nextGroup :: "loc \<Rightarrow> loc option"
  prevGroup :: "loc \<Rightarrow> loc option"
  nextInGroup :: "loc \<Rightarrow> loc option"
  prevInGroup :: "loc \<Rightarrow> loc option"
  next_loc :: "loc \<Rightarrow> loc option"
  prev_loc :: "loc \<Rightarrow> loc option"
  prevGroupEnd :: "loc \<Rightarrow> loc option"
  kLocationMax :: loc

record 'is lis_ops =
  lis_contains :: "'is \<Rightarrow> loc \<Rightarrow> bool"
  lis_insert :: "'is \<Rightarrow> loc \<Rightarrow> loc \<Rightarrow> 'is"
  lis_remove :: "'is \<Rightarrow> loc \<Rightarrow> loc \<Rightarrow> 'is"
  findInterval :: "'is \<Rightarrow> loc \<Rightarrow> (loc \<times> loc) option"
  findNextInterval :: "'is \<Rightarrow> loc \<Rightarrow> (loc \<times> loc) option"
  findPrevInterval :: "'is \<Rightarrow> loc \<Rightarrow> (loc \<times> loc) option"
  findIntervalEnd :: "'is \<Rightarrow> loc \<Rightarrow> loc option"

subsection \<open>Free functions\<close>

definition computeDescendingAfterGap :: "loc_ops \<Rightarrow> loc \<Rightarrow> loc \<Rightarrow> loc \<Rightarrow> loc option" where
  "computeDescendingAfterGap L current gapStart minLocation =
    (if snd gapStart > 0 \<and> fst gapStart \<noteq> fst current then
       (let afterGap = (fst gapStart, 0)
        in Some (if fst afterGap = fst minLocation then (fst afterGap, snd minLocation) else afterGap))
     else case prevGroup L gapStart of None \<Rightarrow> None
       | Some afterGap \<Rightarrow> Some (if fst afterGap = fst minLocation then (fst afterGap, snd minLocation) else afterGap))"

definition value_or :: "'a option \<Rightarrow> 'a \<Rightarrow> 'a" where
  "value_or v d = (case v of None \<Rightarrow> d | Some x \<Rightarrow> x)"

definition getFetchIntervals :: "loc_ops \<Rightarrow> loc \<Rightarrow> loc \<Rightarrow> loc \<Rightarrow> loc \<Rightarrow> bool \<Rightarrow> bool \<Rightarrow> (loc \<times> loc) list" where
  "getFetchIntervals L start end' miss hit desc isTail =
    (if \<not> desc then (if \<not> isTail then [(miss, hit)] else [(miss, end')])
     else if fst miss = fst hit then
       (if \<not> isTail then [(miss, hit)] else [(miss, value_or (nextGroup L miss) end')])
     else
       let intervalEnd = (if fst miss = fst end' then end' else value_or (nextGroup L miss) end');
           num = sub64 (sub64 (fst miss) (fst hit)) 1;
           upper = (if num > 0 then
                      (if snd miss = 0 then [(max start (sub64 (fst miss) num, 0), intervalEnd)]
                       else let intStart = (add64 (fst hit) 1, 0)
                            in [(miss, intervalEnd),
                                (if fst start = fst intStart then (fst intStart, snd start) else intStart, (fst miss, 0))])
                    else [(miss, intervalEnd)]);
           lastStart = (if fst start = fst hit then start else (fst hit, 0))
       in upper @ (if snd hit \<noteq> 0 \<and> lastStart < hit then [(lastStart, hit)] else []))"

text \<open>\<open>None\<close> stands for an XCHECK that fails or an empty optional that is dereferenced.\<close>

definition getGapRanges :: "loc_ops \<Rightarrow> loc \<Rightarrow> loc \<Rightarrow> bool \<Rightarrow> loc \<Rightarrow> loc \<Rightarrow> (loc \<times> loc) list option" where
  "getGapRanges L start end' desc fetchStart fetchEnd =
    (let isEmpty = (if \<not> desc then start \<ge> end'
                    else fst start < fst end' \<or> (fst start = fst end' \<and> snd start \<ge> snd end'))
     in if isEmpty then Some []
        else if fst start = fst end' then
          (case prevInGroup L end' of Some p \<Rightarrow> Some [(start, p)] | None \<Rightarrow> Some [])
        else if \<not> desc then
          (case prev_loc L end' of Some g \<Rightarrow> Some [(start, g)] | None \<Rightarrow> None)
        else
          case (if fst start = fst fetchEnd then prevInGroup L fetchEnd else Some (fst start, snd (kLocationMax L))) of
            None \<Rightarrow> None
          | Some startGroupEnd \<Rightarrow>
              (case (nextGroup L end', prevGroupEnd L start) of
                 (Some endNext, Some startPrev) \<Rightarrow>
                   let mid = (if fst startPrev \<ge> fst endNext then [(endNext, startPrev)] else []);
                       endGroupStart = (if fst end' = fst fetchStart then fetchStart else (fst end', 0))
                   in if endGroupStart < end'
                      then (case prevInGroup L end' of Some p \<Rightarrow> Some ((start, startGroupEnd) # mid @ [(endGroupStart, p)]) | None \<Rightarrow> None)
                      else Some ((start, startGroupEnd) # mid)
               | _ \<Rightarrow> None))"

definition isGroupNonExistent :: "'is lis_ops \<Rightarrow> loc_ops \<Rightarrow> 'is \<Rightarrow> nat \<Rightarrow> bool" where
  "isGroupNonExistent I L gaps groupID = (case findIntervalEnd I gaps (groupID, 0) of None \<Rightarrow> False
     | Some e \<Rightarrow> fst e > groupID \<or> (fst e = groupID \<and> snd e = snd (kLocationMax L)))"

subsection \<open>The iterator\<close>

text \<open>
  What the iterator sees of a track: its gaps and cached positions, the addresses of its groups, whether the
  end of a group is known and its largest cached object, and the end of the track. The
  iterator keeps the address of the group it looked up last.
\<close>

record 'is track_view =
  tv_gaps :: 'is
  tv_cachedContent :: 'is
  tv_groups :: "nat \<Rightarrow> nat option"
  tv_endOfGroup :: "nat \<Rightarrow> bool"
  tv_maxCachedObject :: "nat \<Rightarrow> nat"
  tv_endOfTrack :: bool
  tv_largest :: "loc option"

record fetch_it =
  minLocation :: loc
  maxLocation :: loc
  it_desc :: bool
  it_current :: loc
  it_end :: loc
  it_valid :: bool
  cachedGroupId :: nat
  cachedGroupPtr :: "nat option"
  cachedEndGroupId :: nat
  cachedEndGroupPtr :: "nat option"

definition invalidate :: "fetch_it \<Rightarrow> fetch_it" where
  "invalidate it = it\<lparr>it_current := maxLocation it, it_valid := False\<rparr>"

text \<open>findGroupEndMaybe with the cached group it was given; it also returns the cached group afterwards.\<close>

definition findGroupEndMaybe :: "loc_ops \<Rightarrow> 'is track_view \<Rightarrow> fetch_it \<Rightarrow> nat \<Rightarrow> nat \<times> nat option \<Rightarrow> nat option \<times> (nat \<times> nat option)" where
  "findGroupEndMaybe L tv it currGroup cached =
    (let isFirst = (currGroup = fst (minLocation it)); isLast = (currGroup = fst (maxLocation it))
     in if isLast then
          (Some (if it_desc it \<and> \<not> isFirst then sub64 (snd (maxLocation it)) 1 else snd (maxLocation it)), cached)
        else let (cid, ptr) = (if fst cached \<noteq> currGroup then (currGroup, tv_groups tv currGroup) else cached)
             in case ptr of None \<Rightarrow> (None, (cid, ptr))
                | Some a \<Rightarrow>
                    let isEndKnown = tv_endOfGroup tv a; m = tv_maxCachedObject tv a; M = snd (kLocationMax L);
                        endIncl = (if m < M then m + 1 else m);
                        firstUncached = (if endIncl < M then endIncl + 1 else endIncl)
                    in (Some (if isFirst \<and> it_desc it then (if isEndKnown then endIncl else firstUncached)
                              else (if isEndKnown then m else endIncl)), (cid, ptr)))"

definition advanceOne :: "loc_ops \<Rightarrow> 'is track_view \<Rightarrow> fetch_it \<Rightarrow> fetch_it" where
  "advanceOne L tv it =
    (if \<not> it_valid it then it else if it_current it = it_end it then it
     else let (ge, cid, ptr) = findGroupEndMaybe L tv it (fst (it_current it)) (cachedGroupId it, cachedGroupPtr it);
              it1 = it\<lparr>cachedGroupId := cid, cachedGroupPtr := ptr\<rparr>;
              (g, obj) = it_current it1
          in if (case ge of Some e \<Rightarrow> obj < e | None \<Rightarrow> False) then it1\<lparr>it_current := (g, obj + 1)\<rparr>
             else if it_desc it1 then
               (if g = 0 then it1\<lparr>it_valid := False\<rparr>
                else it1\<lparr>it_current := (g - 1, if g - 1 = fst (minLocation it1) then snd (minLocation it1) else 0)\<rparr>)
             else (if g = fst (maxLocation it1) then it1\<lparr>it_current := it_end it1\<rparr>
                   else it1\<lparr>it_current := (g + 1, 0)\<rparr>))"

text \<open>One pass of the loop of skipGaps; the flag says whether it returns.\<close>

definition skipGaps_body :: "loc_ops \<Rightarrow> 'is lis_ops \<Rightarrow> 'is track_view \<Rightarrow> fetch_it \<Rightarrow> bool \<times> fetch_it" where
  "skipGaps_body L I tv it = (case findInterval I (tv_gaps tv) (it_current it) of
       None \<Rightarrow> (False, advanceOne L tv it)
     | Some (gapStart, gapEnd) \<Rightarrow>
         (case (if \<not> it_desc it then next_loc L gapEnd else computeDescendingAfterGap L (it_current it) gapStart (minLocation it)) of
            None \<Rightarrow> (True, it\<lparr>it_current := it_end it\<rparr>)
          | Some afterGap \<Rightarrow>
              if (if \<not> it_desc it then afterGap < it_end it else afterGap \<ge> minLocation it)
              then (False, it\<lparr>it_current := afterGap\<rparr>)
              else (True, it\<lparr>it_current := it_end it\<rparr>)))"

partial_function (option) skipGaps :: "loc_ops \<Rightarrow> 'is lis_ops \<Rightarrow> 'is track_view \<Rightarrow> fetch_it \<Rightarrow> fetch_it option" where
  "skipGaps L I tv it =
    (if it_valid it \<and> lis_contains I (tv_gaps tv) (it_current it)
     then (let (stop, it') = skipGaps_body L I tv it in if stop then Some it' else skipGaps L I tv it')
     else Some it)"

definition next_it :: "loc_ops \<Rightarrow> 'is lis_ops \<Rightarrow> 'is track_view \<Rightarrow> fetch_it \<Rightarrow> fetch_it option" where
  "next_it L I tv it = (if \<not> it_valid it then Some it else skipGaps L I tv (advanceOne L tv it))"

definition advanceTo :: "loc_ops \<Rightarrow> 'is lis_ops \<Rightarrow> 'is track_view \<Rightarrow> loc \<Rightarrow> fetch_it \<Rightarrow> fetch_it option" where
  "advanceTo L I tv p it =
    (let it1 = it\<lparr>it_current := p\<rparr>
     in if (if \<not> it_desc it then p > maxLocation it else p < minLocation it)
        then Some (it1\<lparr>it_valid := False\<rparr>) else skipGaps L I tv it1)"

text \<open>The result \<open>Inr\<close> is the position, \<open>Inl ()\<close> a failed XCHECK.\<close>

definition findPrevGroupCachedPosition :: "loc_ops \<Rightarrow> 'is lis_ops \<Rightarrow> 'is track_view \<Rightarrow> fetch_it \<Rightarrow> unit + loc option" where
  "findPrevGroupCachedPosition L I tv it = (case prevGroupEnd L (it_current it) of None \<Rightarrow> Inr None
     | Some prevGE \<Rightarrow>
         (case (case findInterval I (tv_cachedContent tv) prevGE of Some i \<Rightarrow> Some i
                | None \<Rightarrow> findPrevInterval I (tv_cachedContent tv) prevGE) of
            None \<Rightarrow> Inr None
          | Some prev \<Rightarrow>
              if snd prev < minLocation it then Inr None
              else let targetGroup = min (fst (snd prev)) (fst prevGE);
                       target = max (targetGroup, 0) (minLocation it)
                   in if lis_contains I (tv_cachedContent tv) target then Inr (Some target)
                      else (case findNextInterval I (tv_cachedContent tv) target of
                              Some n \<Rightarrow> if fst (fst n) = targetGroup then Inr (Some (fst n)) else Inl ()
                            | None \<Rightarrow> Inl ())))"

definition skipUncached :: "loc_ops \<Rightarrow> 'is lis_ops \<Rightarrow> 'is track_view \<Rightarrow> fetch_it \<Rightarrow> unit + fetch_it" where
  "skipUncached L I tv it =
    (if \<not> it_valid it \<or> it_current it = it_end it then Inr it
     else if lis_contains I (tv_cachedContent tv) (it_current it) then Inr it
     else let n = findNextInterval I (tv_cachedContent tv) (it_current it)
          in if \<not> it_desc it then
               (case n of None \<Rightarrow> Inr (it\<lparr>it_current := it_end it\<rparr>)
                | Some i \<Rightarrow> Inr (it\<lparr>it_current := (if fst i \<ge> it_end it then it_end it else fst i)\<rparr>))
             else if (case n of Some i \<Rightarrow> fst (fst i) = fst (it_current it) | None \<Rightarrow> False)
             then (case n of Some i \<Rightarrow> Inr (it\<lparr>it_current := fst i\<rparr>) | None \<Rightarrow> Inr it)
             else (case findPrevGroupCachedPosition L I tv it of
                     Inl e \<Rightarrow> Inl e
                   | Inr None \<Rightarrow> Inr (it\<lparr>it_current := (0, 0), it_valid := False\<rparr>)
                   | Inr (Some target) \<Rightarrow> Inr (it\<lparr>it_current := target\<rparr>)))"

definition end_it :: "loc_ops \<Rightarrow> 'is track_view \<Rightarrow> fetch_it \<Rightarrow> loc \<times> fetch_it" where
  "end_it L tv it =
    (if (tv_endOfTrack tv \<and> (case tv_largest tv of Some l \<Rightarrow> it_current it > l | None \<Rightarrow> False)) \<or> \<not> it_valid it
     then (it_current it, it\<lparr>it_end := it_current it\<rparr>)
     else if \<not> it_desc it then (it_end it, it)
     else let (ge, cid, ptr) = findGroupEndMaybe L tv it (fst (it_end it)) (cachedEndGroupId it, cachedEndGroupPtr it);
              it1 = it\<lparr>cachedEndGroupId := cid, cachedEndGroupPtr := ptr\<rparr>;
              it2 = (case ge of None \<Rightarrow> it1 | Some e \<Rightarrow> it1\<lparr>it_end := (fst (it_end it1), e)\<rparr>)
          in (it_end it2, it2))"

definition new_it :: "loc_ops \<Rightarrow> 'is lis_ops \<Rightarrow> 'is track_view \<Rightarrow> loc \<Rightarrow> loc \<Rightarrow> bool \<Rightarrow> fetch_it option" where
  "new_it L I tv start end' desc =
    (let it = \<lparr>minLocation = start, maxLocation = end', it_desc = desc, it_current = start, it_end = end', it_valid = True,
               cachedGroupId = fst (kLocationMax L), cachedGroupPtr = None,
               cachedEndGroupId = fst (kLocationMax L), cachedEndGroupPtr = None\<rparr>;
         cur = (if snd end' = 0 then let g = sub64 (fst end') 1 in (g, if g = fst start then snd start else 0)
                else (fst end', 0));
         M = snd (kLocationMax L);
         e = (case tv_groups tv (fst start) of None \<Rightarrow> M
              | Some a \<Rightarrow> if tv_endOfGroup tv a \<and> tv_maxCachedObject tv a < M then tv_maxCachedObject tv a + 1 else M)
     in skipGaps L I tv (if desc \<and> fst start \<noteq> fst end' then it\<lparr>it_current := cur, it_end := (fst start, e)\<rparr> else it))"

subsection \<open>What the library promises\<close>

definition valid_loc :: "loc_ops \<Rightarrow> loc \<Rightarrow> bool" where
  "valid_loc L p \<longleftrightarrow> fst p \<le> fst (kLocationMax L) \<and> snd p \<le> snd (kLocationMax L)"

definition loc_laws :: "loc_ops \<Rightarrow> bool" where
  "loc_laws L \<longleftrightarrow> (\<exists>G M. kLocationMax L = (G, M) \<and> G < 2 ^ 64 \<and> M < 2 ^ 64 \<and>
     (\<forall>g k. g \<le> G \<longrightarrow> k \<le> M \<longrightarrow>
        nextGroup L (g, k) = (if g < G then Some (g + 1, 0) else None) \<and>
        prevGroup L (g, k) = (if g > 0 then Some (g - 1, 0) else None) \<and>
        nextInGroup L (g, k) = (if k < M then Some (g, k + 1) else None) \<and>
        prevInGroup L (g, k) = (if k > 0 then Some (g, k - 1) else None) \<and>
        next_loc L (g, k) = (if k < M then Some (g, k + 1) else if g < G then Some (g + 1, 0) else None) \<and>
        prev_loc L (g, k) = (if k > 0 then Some (g, k - 1) else if g > 0 then Some (g - 1, M) else None) \<and>
        prevGroupEnd L (g, k) = (if g > 0 then Some (g - 1, M) else None)))"

text \<open>findInterval gives an interval of the set around the position, exactly when the set contains it.\<close>

definition lis_laws :: "loc_ops \<Rightarrow> 'is lis_ops \<Rightarrow> 'is \<Rightarrow> bool" where
  "lis_laws L I s \<longleftrightarrow> (\<forall>p. valid_loc L p \<longrightarrow>
     (lis_contains I s p \<longrightarrow> findInterval I s p \<noteq> None) \<and>
     (\<forall>a b. findInterval I s p = Some (a, b) \<longrightarrow> valid_loc L a \<and> valid_loc L b \<and> a \<le> p \<and> p \<le> b \<and>
        (\<forall>q. valid_loc L q \<longrightarrow> a \<le> q \<longrightarrow> q \<le> b \<longrightarrow> lis_contains I s q)))"

text \<open>An instance: positions below a bound, sets as lists of intervals.\<close>

definition std_loc :: "nat \<Rightarrow> nat \<Rightarrow> loc_ops" where
  "std_loc G M = \<lparr>nextGroup = (\<lambda>(g, k). if g < G then Some (g + 1, 0) else None),
     prevGroup = (\<lambda>(g, k). if g > 0 then Some (g - 1, 0) else None),
     nextInGroup = (\<lambda>(g, k). if k < M then Some (g, k + 1) else None),
     prevInGroup = (\<lambda>(g, k). if k > 0 then Some (g, k - 1) else None),
     next_loc = (\<lambda>(g, k). if k < M then Some (g, k + 1) else if g < G then Some (g + 1, 0) else None),
     prev_loc = (\<lambda>(g, k). if k > 0 then Some (g, k - 1) else if g > 0 then Some (g - 1, M) else None),
     prevGroupEnd = (\<lambda>(g, k). if g > 0 then Some (g - 1, M) else None),
     kLocationMax = (G, M)\<rparr>"

lemma std_loc_laws: "G < 2 ^ 64 \<Longrightarrow> M < 2 ^ 64 \<Longrightarrow> loc_laws (std_loc G M)"
  by (simp add: loc_laws_def std_loc_def)

definition in_iv :: "loc \<Rightarrow> loc \<times> loc \<Rightarrow> bool" where
  "in_iv p i \<longleftrightarrow> fst i \<le> p \<and> p \<le> snd i"

text \<open>What is left of an interval without the positions from \<open>a\<close> to \<open>b\<close>.\<close>

definition cut_iv :: "loc_ops \<Rightarrow> loc \<Rightarrow> loc \<Rightarrow> loc \<times> loc \<Rightarrow> (loc \<times> loc) list" where
  "cut_iv L a b i = (if b < fst i \<or> snd i < a then [i]
     else (case prev_loc L a of Some p \<Rightarrow> if fst i \<le> p then [(fst i, p)] else [] | None \<Rightarrow> []) @
          (case next_loc L b of Some n \<Rightarrow> if n \<le> snd i then [(n, snd i)] else [] | None \<Rightarrow> []))"

definition std_lis :: "loc_ops \<Rightarrow> (loc \<times> loc) list lis_ops" where
  "std_lis L = \<lparr>lis_contains = (\<lambda>s p. find (in_iv p) s \<noteq> None), lis_insert = (\<lambda>s a b. (a, b) # s),
     lis_remove = (\<lambda>s a b. concat (map (cut_iv L a b) s)), findInterval = (\<lambda>s p. find (in_iv p) s),
     findNextInterval = (\<lambda>s p. find (\<lambda>i. fst i > p) s), findPrevInterval = (\<lambda>s p. find (\<lambda>i. snd i < p) s),
     findIntervalEnd = (\<lambda>s p. map_option snd (find (in_iv p) s))\<rparr>"

lemma find_SomeE: "find P xs = Some x \<Longrightarrow> P x \<and> x \<in> set xs"
  by (induction xs) (auto split: if_splits)

lemma find_exists: "x \<in> set xs \<Longrightarrow> P x \<Longrightarrow> find P xs \<noteq> None"
  by (induction xs) auto

lemma std_lis_laws:
  assumes "\<forall>i\<in>set s. valid_loc L (fst i) \<and> valid_loc L (snd i)"
  shows "lis_laws L (std_lis L) s"
proof -
  have "valid_loc L a \<and> valid_loc L b \<and> a \<le> p \<and> p \<le> b \<and> (\<forall>q. valid_loc L q \<longrightarrow> a \<le> q \<longrightarrow> q \<le> b \<longrightarrow> find (in_iv q) s \<noteq> None)"
    if "find (in_iv p) s = Some (a, b)" for p a b
  proof -
    from find_SomeE [OF that] have m: "(a, b) \<in> set s" "a \<le> p" "p \<le> b" by (simp_all add: in_iv_def)
    have "find (in_iv q) s \<noteq> None" if "a \<le> q" "q \<le> b" for q
      by (rule find_exists [OF m(1)]) (simp add: in_iv_def that)
    then show ?thesis using m assms by force
  qed
  then show ?thesis by (simp add: lis_laws_def std_lis_def)
qed

subsection \<open>Positions in the order of a fetch\<close>

text \<open>\<open>p\<close> is visited from \<open>s\<close> before \<open>e\<close> by a fetch of the positions from \<open>lo\<close> up to, not including, \<open>hi\<close>.\<close>

definition visited :: "bool \<Rightarrow> loc \<Rightarrow> loc \<Rightarrow> loc \<Rightarrow> loc \<Rightarrow> loc \<Rightarrow> bool" where
  "visited desc lo hi s e p \<longleftrightarrow> (if \<not> desc then s \<le> p \<and> p < e
     else lo \<le> p \<and> p < hi \<and> (fst p < fst s \<or> fst p = fst s \<and> snd s \<le> snd p) \<and>
          (fst e < fst p \<or> fst p = fst e \<and> snd p < snd e))"

lemma loc_law:
  assumes "loc_laws L" "valid_loc L (g, k)"
  shows "nextGroup L (g, k) = (if g < fst (kLocationMax L) then Some (g + 1, 0) else None)"
    "prevGroup L (g, k) = (if g > 0 then Some (g - 1, 0) else None)"
    "prevInGroup L (g, k) = (if k > 0 then Some (g, k - 1) else None)"
    "next_loc L (g, k) = (if k < snd (kLocationMax L) then Some (g, k + 1)
       else if g < fst (kLocationMax L) then Some (g + 1, 0) else None)"
    "prev_loc L (g, k) = (if k > 0 then Some (g, k - 1) else if g > 0 then Some (g - 1, snd (kLocationMax L)) else None)"
    "prevGroupEnd L (g, k) = (if g > 0 then Some (g - 1, snd (kLocationMax L)) else None)"
  using assms unfolding loc_laws_def valid_loc_def by auto

lemma loc_max: "loc_laws L \<Longrightarrow> fst (kLocationMax L) < 2 ^ 64 \<and> snd (kLocationMax L) < 2 ^ 64"
  unfolding loc_laws_def by auto

definition covered :: "loc \<Rightarrow> (loc \<times> loc) list \<Rightarrow> bool" where
  "covered p rs \<longleftrightarrow> (\<exists>r\<in>set rs. fst r \<le> p \<and> p \<le> snd r)"

definition requested :: "loc \<Rightarrow> (loc \<times> loc) list \<Rightarrow> bool" where
  "requested p rs \<longleftrightarrow> (\<exists>r\<in>set rs. fst r \<le> p \<and> p < snd r)"

lemma gap_ranges_desc:
  assumes L: "loc_laws L" and v: "valid_loc L (sg, so)" "valid_loc L (eg, eo)" "valid_loc L (fg, fo)" "valid_loc L (hg, ho)" "valid_loc L (pg, po)"
    and r: "(fg, fo) \<le> (sg, so)" "(sg, so) < (hg, ho)" "(fg, fo) \<le> (eg, eo)" and lt: "eg < sg"
  shows "\<exists>rs. getGapRanges L (sg, so) (eg, eo) True (fg, fo) (hg, ho) = Some rs \<and>
    (covered (pg, po) rs \<longleftrightarrow> visited True (fg, fo) (hg, ho) (sg, so) (eg, eo) (pg, po))"
proof -
  define G M where "G = fst (kLocationMax L)" and "M = snd (kLocationMax L)"
  note k = G_def [symmetric] M_def [symmetric]
  note n = loc_law [OF L v(1), unfolded k] loc_law [OF L v(2), unfolded k] loc_law [OF L v(4), unfolded k]
  have b: "sg \<le> G" "so \<le> M" "eg \<le> G" "eo \<le> M" "hg \<le> G" "ho \<le> M" "po \<le> M" using v by (simp_all add: valid_loc_def k)
  define sge where "sge = (if sg = hg then (hg, ho - 1) else (sg, M))"
  define mid :: "(loc \<times> loc) list" where "mid = (if sg - 1 \<ge> eg + 1 then [((eg + 1, 0), (sg - 1, M))] else [])"
  define es where "es = (if eg = fg then (fg, fo) else (eg, 0))"
  define low where "low = (if es < (eg, eo) then [(es, (eg, eo - 1))] else [])"
  have h: "sg = hg \<Longrightarrow> 0 < ho" using r(2) by auto
  have lo: "es < (eg, eo) \<Longrightarrow> 0 < eo" by (auto simp: es_def split: if_splits)
  have e1: "hg = sg \<Longrightarrow> prevInGroup L (sg, ho) = Some sge" using n(15) h by (auto simp: sge_def)
  have e2: "nextGroup L (eg, eo) = Some (eg + 1, 0)" using n(7) b lt by simp
  have e3: "prevGroupEnd L (sg, so) = Some (sg - 1, M)" using n(6) lt by simp
  have e4: "0 < eo \<Longrightarrow> prevInGroup L (eg, eo) = Some (eg, eo - 1)" using n(9) by simp
  have low: "(if es < (eg, eo) then case prevInGroup L (eg, eo) of None \<Rightarrow> None | Some p \<Rightarrow> Some (x # mid @ [(es, p)]) else Some (x # mid))
      = Some (x # mid @ low)" for x
    using lo e4 by (simp add: low_def)
  have desc: "getGapRanges L (sg, so) (eg, eo) True (fg, fo) (hg, ho) =
     (case (if sg = hg then prevInGroup L (hg, ho) else Some (sg, M)) of None \<Rightarrow> None
      | Some u \<Rightarrow> (if es < (eg, eo) then case prevInGroup L (eg, eo) of None \<Rightarrow> None | Some p \<Rightarrow> Some (((sg, so), u) # mid @ [(es, p)])
                   else Some (((sg, so), u) # mid)))"
    using lt unfolding getGapRanges_def Let_def fst_conv snd_conv k e2 e3 prod.case option.case es_def [symmetric] mid_def [symmetric]
    by (simp only: not_True_eq_False if_False) simp
  have "getGapRanges L (sg, so) (eg, eo) True (fg, fo) (hg, ho) = Some (((sg, so), sge) # mid @ low)"
  proof (cases "hg = sg")
    case True
    then show ?thesis unfolding desc low using e1 by simp
  next
    case False
    then show ?thesis unfolding desc low by (simp add: sge_def)
  qed
  moreover have "covered (pg, po) [((sg, so), sge)] \<longleftrightarrow> pg = sg \<and> so \<le> po \<and> (pg, po) < (hg, ho)"
    using r(2) h b by (auto simp: covered_def sge_def)
  moreover have "covered (pg, po) mid \<longleftrightarrow> eg < pg \<and> pg < sg" using b lt by (auto simp: covered_def mid_def)
  moreover have "covered (pg, po) low \<longleftrightarrow> pg = eg \<and> po < eo \<and> (fg, fo) \<le> (pg, po)"
    using r(3) by (auto simp: covered_def low_def es_def)
  moreover have "covered (pg, po) (((sg, so), sge) # mid @ low) \<longleftrightarrow>
      covered (pg, po) [((sg, so), sge)] \<or> covered (pg, po) mid \<or> covered (pg, po) low"
    by (auto simp: covered_def)
  moreover have "visited True (fg, fo) (hg, ho) (sg, so) (eg, eo) (pg, po) \<longleftrightarrow> (pg = sg \<and> so \<le> po \<and> (pg, po) < (hg, ho)) \<or>
      (eg < pg \<and> pg < sg) \<or> (pg = eg \<and> po < eo \<and> (fg, fo) \<le> (pg, po))"
    using r lt by (auto simp: visited_def)
  ultimately show ?thesis by blast
qed


lemma prev_loc_le:
  assumes "loc_laws L" "valid_loc L e" "valid_loc L p" "prev_loc L e = Some q"
  shows "p \<le> q \<longleftrightarrow> p < e"
  using assms(2,3,4) loc_law(5) [OF assms(1), of "fst e" "snd e"]
  by (cases e; cases p) (auto simp: valid_loc_def split: if_splits)

lemma prev_loc_exists: "loc_laws L \<Longrightarrow> valid_loc L e \<Longrightarrow> s < e \<Longrightarrow> \<exists>q. prev_loc L e = Some q"
  using loc_law(5) [of L "fst e" "snd e"] by (cases e; cases s) auto

text \<open>C32: When a fetch reports that everything between the current position and the next one received does
  not exist, the ranges marked are exactly the positions the fetch would have visited in between, for both orders: none is
  forgotten, and none outside the range of the fetch or already passed is marked. No internal check fails.\<close>

theorem getGapRanges_exact:
  assumes "loc_laws L" "valid_loc L s" "valid_loc L e" "valid_loc L lo" "valid_loc L hi"
    and "lo \<le> s" "s < hi" "lo \<le> e" "e \<le> hi"
  shows "\<exists>rs. getGapRanges L s e desc lo hi = Some rs \<and>
    (\<forall>p. valid_loc L p \<longrightarrow> (covered p rs \<longleftrightarrow> visited desc lo hi s e p))"
proof (cases desc)
  case False
  show ?thesis
  proof (cases "s < e")
    case True
    then obtain q where q: "prev_loc L e = Some q" using prev_loc_exists assms(1,3) by blast
    have "prevInGroup L e = Some q" if "fst s = fst e"
      using that True loc_law(3,5) [OF assms(1), of "fst e" "snd e"] assms(3) q by (cases s; cases e) auto
    then have "getGapRanges L s e desc lo hi = Some [(s, q)]"
      using True False q by (auto simp: getGapRanges_def Let_def)
    moreover have "covered p [(s, q)] \<longleftrightarrow> visited desc lo hi s e p" if "valid_loc L p" for p
      using prev_loc_le [OF assms(1,3) that q] False by (simp add: covered_def visited_def)
    ultimately show ?thesis by blast
  next
    case n: False
    then have "getGapRanges L s e desc lo hi = Some []" using False by (simp add: getGapRanges_def not_less)
    moreover have "\<not> visited desc lo hi s e p" for p using n False by (auto simp: visited_def)
    ultimately show ?thesis by (auto simp: covered_def)
  qed
next
  case True
  consider (empty) "fst s < fst e \<or> fst s = fst e \<and> snd e \<le> snd s" | (same) "fst s = fst e" "snd s < snd e" | (lower) "fst e < fst s"
    by linarith
  then show ?thesis
  proof cases
    case empty
    then have "getGapRanges L s e desc lo hi = Some []" using True by (auto simp: getGapRanges_def)
    moreover have "\<not> visited desc lo hi s e p" for p using empty True by (auto simp: visited_def)
    ultimately show ?thesis by (auto simp: covered_def)
  next
    case same
    then have "prevInGroup L e = Some (fst e, snd e - 1)" using loc_law(3) [OF assms(1), of "fst e" "snd e"] assms(3) by simp
    then have "getGapRanges L s e desc lo hi = Some [(s, (fst e, snd e - 1))]" using True same by (simp add: getGapRanges_def)
    moreover have "covered p [(s, (fst e, snd e - 1))] \<longleftrightarrow> visited desc lo hi s e p" for p
      using True same assms(6,9) by (cases s; cases e; cases p; cases lo; cases hi) (auto simp: covered_def visited_def)
    ultimately show ?thesis by blast
  next
    case lower
    have "\<exists>rs. getGapRanges L s e desc lo hi = Some rs \<and> (covered p rs \<longleftrightarrow> visited desc lo hi s e p)" if "valid_loc L p" for p
      using gap_ranges_desc [OF assms(1), of "fst s" "snd s" "fst e" "snd e" "fst lo" "snd lo" "fst hi" "snd hi" "fst p" "snd p"]
        assms(2-8) lower True that by simp
    then show ?thesis using assms(2) by (metis option.inject)
  qed
qed

theorem getGapRanges_exact_witness:
  "getGapRanges (std_loc 9 9) (5, 2) (3, 4) True (3, 1) (5, 7) = Some [((5, 2), (5, 6)), ((4, 0), (4, 9)), ((3, 1), (3, 3))] \<and>
   (\<exists>rs. getGapRanges (std_loc 9 9) (5, 2) (3, 4) True (3, 1) (5, 7) = Some rs \<and> covered (4, 8) rs \<and> \<not> covered (5, 7) rs)"
proof -
  have v: "valid_loc (std_loc 9 9) (5, 2)" "valid_loc (std_loc 9 9) (3, 4)" "valid_loc (std_loc 9 9) (3, 1)" "valid_loc (std_loc 9 9) (5, 7)"
    "valid_loc (std_loc 9 9) (4, 8)"
    by (simp_all add: valid_loc_def std_loc_def)
  have L: "loc_laws (std_loc 9 9)" by (rule std_loc_laws) simp_all
  obtain rs where rs: "getGapRanges (std_loc 9 9) (5, 2) (3, 4) True (3, 1) (5, 7) = Some rs"
    "\<forall>p. valid_loc (std_loc 9 9) p \<longrightarrow> (covered p rs \<longleftrightarrow> visited True (3, 1) (5, 7) (5, 2) (3, 4) p)"
    using getGapRanges_exact [OF L v(1,2,3,4), where desc = True] by auto
  have "visited True (3, 1) (5, 7) (5, 2) (3, 4) (4, 8)" "\<not> visited True (3, 1) (5, 7) (5, 2) (3, 4) (5, 7)"
    by (simp_all add: visited_def)
  then have "covered (4, 8) rs \<and> \<not> covered (5, 7) rs" using rs(2) v by blast
  moreover have "getGapRanges (std_loc 9 9) (5, 2) (3, 4) True (3, 1) (5, 7) = Some [((5, 2), (5, 6)), ((4, 0), (4, 9)), ((3, 1), (3, 3))]"
    by (simp add: getGapRanges_def std_loc_def Let_def)
  ultimately show ?thesis using rs(1) by blast
qed

text \<open>The upstream requests of a miss.\<close>

lemma requested_Cons: "requested p (r # r' # rs) \<longleftrightarrow> requested p [r] \<or> requested p (r' # rs)"
  by (simp add: requested_def)

lemma fetch_intervals_desc:
  assumes L: "loc_laws L" and v: "valid_loc L (mg, mo)" "valid_loc L (hg, ho)" "valid_loc L (lg, lo)" "valid_loc L (ug, uo)" "valid_loc L (pg, po)"
    and r: "(lg, lo) \<le> (mg, mo)" "(mg, mo) < (ug, uo)" "(lg, lo) \<le> (hg, ho)" and lt: "hg < mg"
  shows "requested (pg, po) (getFetchIntervals L (lg, lo) (ug, uo) (mg, mo) (hg, ho) True False) \<longleftrightarrow>
    visited True (lg, lo) (ug, uo) (mg, mo) (hg, ho) (pg, po)"
proof -
  define top where "top = (if mg = ug then (ug, uo) else value_or (nextGroup L (mg, mo)) (ug, uo))"
  define low :: "(loc \<times> loc) list" where "low = (let b = (if lg = hg then (lg, lo) else (hg, 0)) in if ho \<noteq> 0 \<and> b < (hg, ho) then [(b, (hg, ho))] else [])"
  define upper :: "(loc \<times> loc) list" where "upper = (if hg + 1 < mg then
      (if mo = 0 then [((hg + 1, 0), top)] else [((mg, mo), top), ((hg + 1, 0), (mg, 0))]) else [((mg, mo), top)])"
  have b: "mg < 2 ^ 64" using v(1) loc_max [OF L] by (simp add: valid_loc_def)
  have n: "sub64 (sub64 mg hg) 1 = mg - hg - 1" using b lt by (simp add: sub64_exact)
  have lg: "lg \<le> hg" using r(3) by auto
  have "mg - (mg - hg - 1) = hg + 1" using lt by simp
  then have m: "sub64 mg (mg - hg - 1) = hg + 1" "add64 hg 1 = hg + 1" using b lt by (simp_all add: sub64_exact add64_exact)
  have x: "max (lg, lo) (hg + 1, 0) = (hg + 1, 0)" using lg by (auto simp: max_def)
  have e: "getFetchIntervals L (lg, lo) (ug, uo) (mg, mo) (hg, ho) True False = upper @ low"
    unfolding getFetchIntervals_def fst_conv snd_conv Let_def n m x top_def [symmetric] upper_def low_def
    using lt lg by auto
  have top: "requested (pg, po) [((g, k), top)] \<longleftrightarrow> (g, k) \<le> (pg, po) \<and> (pg, po) < (ug, uo) \<and> pg \<le> mg" for g k
  proof (cases "mg = ug")
    case True
    then show ?thesis by (auto simp: requested_def top_def)
  next
    case False
    then have u: "mg < ug" using r(2) by auto
    then have "top = (mg + 1, 0)" using loc_law(1) [OF L v(1)] v(4) by (simp add: top_def value_or_def valid_loc_def)
    then show ?thesis using u by (auto simp: requested_def)
  qed
  have "requested (pg, po) upper \<longleftrightarrow> (pg, po) < (ug, uo) \<and> (pg = mg \<and> mo \<le> po \<or> hg < pg \<and> pg < mg)"
  proof -
    have t: "requested (pg, po) [((hg + 1, 0), top)] \<longleftrightarrow> hg < pg \<and> pg \<le> mg \<and> (pg, po) < (ug, uo)"
      unfolding top by auto
    have m: "requested (pg, po) [((mg, mo), top)] \<longleftrightarrow> pg = mg \<and> mo \<le> po \<and> (pg, po) < (ug, uo)"
      unfolding top by auto
    have i: "requested (pg, po) [((hg + 1, 0), (mg, 0))] \<longleftrightarrow> hg < pg \<and> pg < mg"
      by (auto simp: requested_def)
    have z: "hg < pg \<and> pg < mg \<Longrightarrow> (pg, po) < (ug, uo)" using r(2) by auto
    consider "hg + 1 < mg" "mo = 0" | "hg + 1 < mg" "mo \<noteq> 0" | "mg = hg + 1" using lt by linarith
    then show ?thesis
    proof cases
      case 1
      then have "requested (pg, po) upper \<longleftrightarrow> requested (pg, po) [((hg + 1, 0), top)]" by (simp add: upper_def)
      then show ?thesis unfolding t using 1 by auto
    next
      case 2
      then have "requested (pg, po) upper \<longleftrightarrow> requested (pg, po) [((mg, mo), top)] \<or> requested (pg, po) [((hg + 1, 0), (mg, 0))]"
        by (simp add: upper_def requested_Cons)
      then show ?thesis unfolding m i using z by blast
    next
      case 3
      then have "requested (pg, po) upper \<longleftrightarrow> requested (pg, po) [((mg, mo), top)]" by (simp add: upper_def)
      then show ?thesis unfolding m using 3 by auto
    qed
  qed
  moreover have "requested (pg, po) low \<longleftrightarrow> pg = hg \<and> po < ho \<and> (lg, lo) \<le> (pg, po)"
    using lg by (auto simp: requested_def low_def Let_def)
  moreover have "requested (pg, po) (upper @ low) \<longleftrightarrow> requested (pg, po) upper \<or> requested (pg, po) low"
    by (auto simp: requested_def)
  moreover have "visited True (lg, lo) (ug, uo) (mg, mo) (hg, ho) (pg, po) \<longleftrightarrow>
      (pg, po) < (ug, uo) \<and> (pg = mg \<and> mo \<le> po \<or> hg < pg \<and> pg < mg) \<or> pg = hg \<and> po < ho \<and> (lg, lo) \<le> (pg, po)"
    using r lt lg by (auto simp: visited_def)
  ultimately show ?thesis unfolding e by blast
qed






subsection \<open>Skipping gaps\<close>

lemma next_loc_le:
  assumes "loc_laws L" "valid_loc L b" "valid_loc L p" "next_loc L b = Some n"
  shows "p < n \<longleftrightarrow> p \<le> b" "valid_loc L n" "b < n"
  using assms(2,3,4) loc_law(4) [OF assms(1), of "fst b" "snd b"]
  by (cases b; cases p; auto simp: valid_loc_def split: if_splits)+

lemma next_loc_None:
  assumes "loc_laws L" "valid_loc L b" "valid_loc L p" "next_loc L b = None"
  shows "p \<le> b"
  using assms(2,3,4) loc_law(4) [OF assms(1), of "fst b" "snd b"]
  by (cases b; cases p) (auto simp: valid_loc_def split: if_splits)

lemma descending_after_gap:
  assumes "loc_laws L" "valid_loc L a" "valid_loc L m" "a \<le> c" "computeDescendingAfterGap L c a m = Some n"
  shows "valid_loc L n" "fst n < fst c"
  using assms(2-5) loc_law(2) [OF assms(1), of "fst a" "snd a"]
  by (cases a; cases c; cases m; auto simp: computeDescendingAfterGap_def valid_loc_def Let_def split: if_splits)+

definition skip_measure :: "loc_ops \<Rightarrow> (fetch_it \<times> fetch_it) set" where
  "skip_measure L = measures [\<lambda>it. if it_desc it then fst (it_current it) else fst (kLocationMax L) - fst (it_current it),
     \<lambda>it. snd (kLocationMax L) - snd (it_current it)]"

lemma skip_measure_asc:
  "\<not> it_desc it \<Longrightarrow> it_current it < n \<Longrightarrow> valid_loc L n \<Longrightarrow> (it\<lparr>it_current := n\<rparr>, it) \<in> skip_measure L"
  by (cases "it_current it"; cases n) (auto simp: skip_measure_def valid_loc_def)

lemma skip_measure_desc:
  "it_desc it \<Longrightarrow> fst n < fst (it_current it) \<Longrightarrow> (it\<lparr>it_current := n\<rparr>, it) \<in> skip_measure L"
  by (simp add: skip_measure_def)

lemma wf_skip_measure: "wf (skip_measure L)"
  by (simp add: skip_measure_def)

text \<open>What a call of skipGaps must deliver.\<close>

definition skip_post :: "loc_ops \<Rightarrow> 'is lis_ops \<Rightarrow> 'is track_view \<Rightarrow> fetch_it \<Rightarrow> fetch_it \<Rightarrow> bool" where
  "skip_post L I tv it it' \<longleftrightarrow>
    (it_valid it \<longrightarrow> it_current it' = it_end it \<or> \<not> lis_contains I (tv_gaps tv) (it_current it')) \<and>
    it'\<lparr>it_current := it_current it\<rparr> = it \<and>
    (\<not> it_desc it \<longrightarrow> (\<forall>p. valid_loc L p \<longrightarrow> it_current it \<le> p \<longrightarrow> p < it_current it' \<longrightarrow> p < it_end it \<longrightarrow>
       lis_contains I (tv_gaps tv) p))"

lemma skip_post_stop: "skip_post L I tv it it" if "\<not> (it_valid it \<and> lis_contains I (tv_gaps tv) (it_current it))"
  using that by (auto simp: skip_post_def)

text \<open>One pass in ascending order either ends the loop at the end of the range or moves past the gap.\<close>

lemma skip_body_asc:
  assumes L: "loc_laws L" and I: "lis_laws L I (tv_gaps tv)" and v: "valid_loc L (it_current it)"
    and a: "\<not> it_desc it" "it_valid it" "lis_contains I (tv_gaps tv) (it_current it)"
  obtains (clamp) "skipGaps_body L I tv it = (True, it\<lparr>it_current := it_end it\<rparr>)" "skip_post L I tv it (it\<lparr>it_current := it_end it\<rparr>)"
  | (move) n where "skipGaps_body L I tv it = (False, it\<lparr>it_current := n\<rparr>)" "it_current it < n" "valid_loc L n"
      "\<And>p. valid_loc L p \<Longrightarrow> it_current it \<le> p \<Longrightarrow> p < n \<Longrightarrow> lis_contains I (tv_gaps tv) p"
proof -
  obtain gs ge where i: "findInterval I (tv_gaps tv) (it_current it) = Some (gs, ge)"
    using I v a(3) unfolding lis_laws_def by fast
  then have g: "valid_loc L ge" "gs \<le> it_current it" "it_current it \<le> ge"
    "\<And>q. valid_loc L q \<Longrightarrow> gs \<le> q \<Longrightarrow> q \<le> ge \<Longrightarrow> lis_contains I (tv_gaps tv) q"
    using I v unfolding lis_laws_def by blast+
  have cov: "lis_contains I (tv_gaps tv) p" if "valid_loc L p" "it_current it \<le> p" "p \<le> ge" for p
    using g(2,4) that by (meson order_trans)
  show thesis
  proof (cases "next_loc L ge")
    case None
    show thesis
    proof (rule clamp)
      show "skipGaps_body L I tv it = (True, it\<lparr>it_current := it_end it\<rparr>)" using i a(1) None by (simp add: skipGaps_body_def)
      show "skip_post L I tv it (it\<lparr>it_current := it_end it\<rparr>)"
        using cov next_loc_None [OF L g(1) _ None] by (auto simp: skip_post_def)
    qed
  next
    case (Some n)
    note n = next_loc_le [OF L g(1) _ Some]
    show thesis
    proof (cases "n < it_end it")
      case True
      show thesis
      proof (rule move)
        show "skipGaps_body L I tv it = (False, it\<lparr>it_current := n\<rparr>)" using i a(1) Some True by (simp add: skipGaps_body_def)
        show "it_current it < n" using n(3) [OF g(1)] g(3) by (rule le_less_trans [rotated])
        show "valid_loc L n" using n(2) [OF g(1)] .
        show "lis_contains I (tv_gaps tv) p" if "valid_loc L p" "it_current it \<le> p" "p < n" for p
          using cov that n(1) [OF that(1)] by simp
      qed
    next
      case False
      show thesis
      proof (rule clamp)
        show "skipGaps_body L I tv it = (True, it\<lparr>it_current := it_end it\<rparr>)" using i a(1) Some False by (simp add: skipGaps_body_def)
        have "lis_contains I (tv_gaps tv) p" if "valid_loc L p" "it_current it \<le> p" "p < it_end it" for p
          using cov [OF that(1,2)] n(1) [OF that(1)] that(3) False by (meson not_less less_le_trans)
        then show "skip_post L I tv it (it\<lparr>it_current := it_end it\<rparr>)" by (auto simp: skip_post_def)
      qed
    qed
  qed
qed

lemma skip_body_desc:
  assumes L: "loc_laws L" and I: "lis_laws L I (tv_gaps tv)" and v: "valid_loc L (it_current it)" "valid_loc L (minLocation it)"
    and a: "it_desc it" "lis_contains I (tv_gaps tv) (it_current it)"
  obtains (clamp) "skipGaps_body L I tv it = (True, it\<lparr>it_current := it_end it\<rparr>)"
  | (move) n where "skipGaps_body L I tv it = (False, it\<lparr>it_current := n\<rparr>)" "fst n < fst (it_current it)" "valid_loc L n"
proof -
  obtain gs ge where i: "findInterval I (tv_gaps tv) (it_current it) = Some (gs, ge)"
    using I v a(2) unfolding lis_laws_def by fast
  then have g: "valid_loc L gs" "gs \<le> it_current it" using I v unfolding lis_laws_def by blast+
  show thesis
  proof (cases "computeDescendingAfterGap L (it_current it) gs (minLocation it)")
    case None
    then show thesis using clamp i a(1) by (simp add: skipGaps_body_def)
  next
    case (Some n)
    note n = descending_after_gap [OF L g(1) v(2) g(2) Some]
    show thesis
      using clamp move [OF _ n(2) n(1)] i a(1) Some by (cases "n \<ge> minLocation it") (simp_all add: skipGaps_body_def)
  qed
qed

text \<open>C34: The loop that skips gaps always ends. It leaves the iterator at the end of its range or at a position that
  is not in a gap, and changes nothing but the position; and in ascending order it only passes
  positions that are in a gap.\<close>

theorem skipGaps_terminates:
  assumes L: "loc_laws L" and I: "lis_laws L I (tv_gaps tv)" and "valid_loc L (it_current it)" "valid_loc L (minLocation it)"
  shows "\<exists>it'. skipGaps L I tv it = Some it' \<and> skip_post L I tv it it'"
  using assms(3,4)
proof (induction it rule: wf_induct_rule [OF wf_skip_measure [of L]])
  case (1 it)
  show ?case
  proof (cases "it_valid it \<and> lis_contains I (tv_gaps tv) (it_current it)")
    case False
    then show ?thesis using skip_post_stop by (subst skipGaps.simps) auto
  next
    case True
    then have s: "skipGaps L I tv it = (let (stop, it') = skipGaps_body L I tv it in if stop then Some it' else skipGaps L I tv it')"
      by (subst skipGaps.simps) simp
    show ?thesis
    proof (cases "it_desc it")
      case d: False
      from True have t: "it_valid it" "lis_contains I (tv_gaps tv) (it_current it)" by simp_all
      show ?thesis
      proof (rule skip_body_asc [OF L I "1.prems"(1) d t])
        assume "skipGaps_body L I tv it = (True, it\<lparr>it_current := it_end it\<rparr>)" "skip_post L I tv it (it\<lparr>it_current := it_end it\<rparr>)"
        then show ?thesis using s by simp
      next
        fix n
        assume n: "skipGaps_body L I tv it = (False, it\<lparr>it_current := n\<rparr>)" "it_current it < n" "valid_loc L n"
          "\<And>p. valid_loc L p \<Longrightarrow> it_current it \<le> p \<Longrightarrow> p < n \<Longrightarrow> lis_contains I (tv_gaps tv) p"
        obtain it' where it': "skipGaps L I tv (it\<lparr>it_current := n\<rparr>) = Some it'" "skip_post L I tv (it\<lparr>it_current := n\<rparr>) it'"
          using "1.IH" [OF skip_measure_asc [OF d n(2,3)]] n(3) "1.prems"(2) by auto
        have "lis_contains I (tv_gaps tv) p"
          if "valid_loc L p" "it_current it \<le> p" "p < it_current it'" "p < it_end it" for p
        proof (cases "p < n")
          case True
          then show ?thesis using n(4) that by blast
        next
          case False
          then have "n \<le> p" by (simp add: not_less)
          then show ?thesis using it'(2) that d unfolding skip_post_def by (cases p) simp
        qed
        moreover from it'(2) have "it'\<lparr>it_current := it_current it\<rparr> = it" by (cases it; cases it') (auto simp: skip_post_def)
        ultimately have "skip_post L I tv it it'" using it'(2) by (auto simp: skip_post_def)
        then show ?thesis using s n(1) it'(1) by simp
      qed
    next
      case d: True
      from True have t: "lis_contains I (tv_gaps tv) (it_current it)" by simp
      show ?thesis
      proof (rule skip_body_desc [OF L I "1.prems" d t])
        assume "skipGaps_body L I tv it = (True, it\<lparr>it_current := it_end it\<rparr>)"
        then show ?thesis using s d by (auto simp: skip_post_def)
      next
        fix n
        assume n: "skipGaps_body L I tv it = (False, it\<lparr>it_current := n\<rparr>)" "fst n < fst (it_current it)" "valid_loc L n"
        obtain it' where it': "skipGaps L I tv (it\<lparr>it_current := n\<rparr>) = Some it'" "skip_post L I tv (it\<lparr>it_current := n\<rparr>) it'"
          using "1.IH" [OF skip_measure_desc [OF d n(2)]] n(3) "1.prems"(2) by auto
        moreover from it'(2) have "it'\<lparr>it_current := it_current it\<rparr> = it" by (cases it; cases it') (auto simp: skip_post_def)
        ultimately have "skip_post L I tv it it'" using d by (auto simp: skip_post_def)
        then show ?thesis using s n(1) it'(1) by simp
      qed
    qed
  qed
qed

definition demo_view :: "(loc \<times> loc) list track_view" where
  "demo_view = \<lparr>tv_gaps = [((5, 2), (5, 4))], tv_cachedContent = [((5, 0), (5, 7))],
     tv_groups = (\<lambda>g. if g = 5 then Some 0 else None), tv_endOfGroup = (\<lambda>a. False), tv_maxCachedObject = (\<lambda>a. 7),
     tv_endOfTrack = False, tv_largest = Some (5, 7)\<rparr>"

definition demo_it :: "loc \<Rightarrow> bool \<Rightarrow> fetch_it" where
  "demo_it cur desc = \<lparr>minLocation = (3, 0), maxLocation = (6, 0), it_desc = desc, it_current = cur, it_end = (if desc then (3, 20) else (6, 0)),
     it_valid = True, cachedGroupId = 20, cachedGroupPtr = None, cachedEndGroupId = 20, cachedEndGroupPtr = None\<rparr>"

lemmas demo_defs = demo_view_def demo_it_def std_loc_def std_lis_def in_iv_def

theorem skipGaps_terminates_witness:
  "\<exists>it'. skipGaps (std_loc 20 20) (std_lis (std_loc 20 20)) demo_view (demo_it (5, 3) False) = Some it' \<and>
     it_current it' = (5, 5) \<and>
     skip_post (std_loc 20 20) (std_lis (std_loc 20 20)) demo_view (demo_it (5, 3) False) it'"
proof -
  let ?L = "std_loc 20 20" and ?I = "std_lis (std_loc 20 20)"
  have L: "loc_laws ?L" by (rule std_loc_laws) simp_all
  have I: "lis_laws ?L ?I (tv_gaps demo_view)"
    by (rule std_lis_laws) (simp add: demo_view_def valid_loc_def std_loc_def)
  have v: "valid_loc ?L (it_current (demo_it (5, 3) False))" "valid_loc ?L (minLocation (demo_it (5, 3) False))"
    by (simp_all add: demo_it_def valid_loc_def std_loc_def)
  obtain it' where it': "skipGaps ?L ?I demo_view (demo_it (5, 3) False) = Some it'" "skip_post ?L ?I demo_view (demo_it (5, 3) False) it'"
    using skipGaps_terminates [OF L I v] by blast
  have "skipGaps ?L ?I demo_view (demo_it (5, 3) False) = Some (demo_it (5, 5) False)"
    by (subst skipGaps.simps, subst skipGaps.simps) (simp add: skipGaps_body_def demo_defs)
  then have "it_current it' = (5, 5)" using it'(1) by (auto simp: demo_it_def)
  then show ?thesis using it' by blast
qed


end
