(* ===== verification/Object_Cache.thy ===== *)
theory Object_Cache
  imports Fetch_Ranges "HOL-Library.Monad_Syntax"
begin

section \<open>The object cache\<close>

text \<open>
  MoqxCache.h and MoqxCache.cpp: tracks, groups and objects with their sizes, the lists of least recently used tracks and groups,
  eviction, and the writebacks of a subscription that fill the cache. Tracks and groups are shared objects
  that writebacks keep alive after the cache has dropped them, so the state has a heap of tracks and
  one of groups, and the maps hold addresses. A std::list is a list of nodes with their values, newest first; an iterator is the
  number of a node, and erasing a node that is not in the list sets \<open>c_crashed\<close>, as does a failed XCHECK. The loops that evict are
  partial functions: \<open>None\<close> means that they never end. Sizes are natural numbers with the wrap-around
  of an unsigned subtraction written out; they count bytes held in memory. Library code is the record \<open>cache_env\<close>: positions, interval sets
  and the integer extensions of an object.
\<close>

datatype object_status = NORMAL | END_OF_GROUP | END_OF_TRACK

datatype publish_error = ObjectInKnownGap | GroupGapTooLarge | GroupGapMismatch | GroupGapCoversObject | ObjectGapTooLarge
  | ObjectGapCoversObject | InvalidStatusChange | PayloadMismatch | PreferenceMismatch | MalformedTrack

record ('x, 'is) cache_env =
  ev_loc :: loc_ops
  ev_lis :: "'is lis_ops"
  ev_priorGroupGap :: "'x \<Rightarrow> nat option"
  ev_priorObjectGap :: "'x \<Rightarrow> nat option"
  ev_maxCacheDuration :: "'x \<Rightarrow> nat option"
  ev_noExtensions :: 'x
  ev_emptySet :: 'is

record 'x cache_entry =
  ce_subgroup :: nat
  ce_status :: object_status
  ce_extensions :: 'x
  ce_payload :: "string option"
  ce_payloadSize :: nat
  ce_complete :: bool
  ce_datagram :: bool
  ce_cachedAt :: int

record 'x cache_group =
  cg_objects :: "(nat, 'x cache_entry) hmap"
  cg_maxCachedObject :: nat
  cg_endOfGroup :: bool
  cg_seenPriorGroupIdGap :: "nat option"
  cg_totalBytes :: nat
  cg_lru :: "nat option"
  cg_globalLru :: "nat option"

record ('x, 'is) cache_track =
  ct_groups :: "(nat, nat) hmap"
  ct_gaps :: 'is
  ct_cachedContent :: 'is
  ct_liveWritebackCount :: nat
  ct_endOfTrack :: bool
  ct_largest :: "loc option"
  ct_fetchesInProgress :: "(loc \<times> loc \<times> loc \<times> nat) list"
  ct_lru :: "nat option"
  ct_groupLRU :: "(nat \<times> nat) list"
  ct_maxCacheDuration :: "int option"
  ct_extensions :: 'x
  ct_evicted :: bool
  ct_lastWrite :: int

record ('f, 'x, 'is) cache =
  c_map :: "('f, nat) hmap"
  c_track :: "nat \<Rightarrow> ('x, 'is) cache_track"
  c_group :: "nat \<Rightarrow> 'x cache_group"
  c_trackLRU :: "(nat \<times> 'f) list"
  c_globalGroupLRU :: "(nat \<times> 'f \<times> nat) list"
  c_maxTracks :: nat
  c_maxGroups :: nat
  c_maxBytes :: nat
  c_minEvictionBytes :: nat
  c_total :: nat
  c_defaultDuration :: "int option"
  c_maxAllowedDuration :: "int option"
  c_now :: int
  c_next :: nat
  c_crashed :: bool

definition new_cache_group :: "'x cache_group" where
  "new_cache_group = \<lparr>cg_objects = [], cg_maxCachedObject = 0, cg_endOfGroup = False, cg_seenPriorGroupIdGap = None,
     cg_totalBytes = 0, cg_lru = None, cg_globalLru = None\<rparr>"

definition new_track :: "('x, 'is) cache_env \<Rightarrow> ('x, 'is) cache_track" where
  "new_track env = \<lparr>ct_groups = [], ct_gaps = ev_emptySet env, ct_cachedContent = ev_emptySet env, ct_liveWritebackCount = 0,
     ct_endOfTrack = False, ct_largest = None, ct_fetchesInProgress = [], ct_lru = None, ct_groupLRU = [],
     ct_maxCacheDuration = None, ct_extensions = ev_noExtensions env, ct_evicted = False, ct_lastWrite = - (2 ^ 63)\<rparr>"

definition new_cache :: "('x, 'is) cache_env \<Rightarrow> nat \<Rightarrow> nat \<Rightarrow> nat \<Rightarrow> nat \<Rightarrow> ('f, 'x, 'is) cache" where
  "new_cache env maxTracks maxGroups maxBytes minEviction = \<lparr>c_map = [], c_track = (\<lambda>_. new_track env), c_group = (\<lambda>_. new_cache_group),
     c_trackLRU = [], c_globalGroupLRU = [], c_maxTracks = maxTracks, c_maxGroups = maxGroups, c_maxBytes = maxBytes,
     c_minEvictionBytes = minEviction, c_total = 0, c_defaultDuration = None, c_maxAllowedDuration = None, c_now = 0, c_next = 0,
     c_crashed = False\<rparr>"

subsection \<open>Access\<close>

definition sub_size :: "nat \<Rightarrow> nat \<Rightarrow> nat" where
  "sub_size a b = (if b \<le> a then a - b else a + 2 ^ 64 - b)"

definition upd_track :: "nat \<Rightarrow> (('x, 'is) cache_track \<Rightarrow> ('x, 'is) cache_track) \<Rightarrow> ('f, 'x, 'is) cache \<Rightarrow> ('f, 'x, 'is) cache" where
  "upd_track ta f c = c\<lparr>c_track := (c_track c)(ta := f (c_track c ta))\<rparr>"

definition upd_group :: "nat \<Rightarrow> ('x cache_group \<Rightarrow> 'x cache_group) \<Rightarrow> ('f, 'x, 'is) cache \<Rightarrow> ('f, 'x, 'is) cache" where
  "upd_group ga f c = c\<lparr>c_group := (c_group c)(ga := f (c_group c ga))\<rparr>"

definition check :: "bool \<Rightarrow> ('f, 'x, 'is) cache \<Rightarrow> ('f, 'x, 'is) cache" where
  "check b c = (if b then c else c\<lparr>c_crashed := True\<rparr>)"

definition canEvict :: "('x, 'is) cache_track \<Rightarrow> bool" where
  "canEvict t \<longleftrightarrow> ct_liveWritebackCount t = 0 \<and> ct_fetchesInProgress t = []"

definition shouldSkipCaching :: "('x, 'is) cache_track \<Rightarrow> bool" where
  "shouldSkipCaching t \<longleftrightarrow> ct_evicted t \<or> ct_maxCacheDuration t = Some 0"

definition hasTrack :: "'f \<Rightarrow> ('f, 'x, 'is) cache \<Rightarrow> bool" where
  "hasTrack ftn c \<longleftrightarrow> hm_find (c_map c) ftn \<noteq> None"

definition insertGap :: "('x, 'is) cache_env \<Rightarrow> loc \<Rightarrow> loc \<Rightarrow> ('x, 'is) cache_track \<Rightarrow> ('x, 'is) cache_track" where
  "insertGap env a b t = t\<lparr>ct_gaps := lis_insert (ev_lis env) (ct_gaps t) a b,
     ct_cachedContent := lis_insert (ev_lis env) (ct_cachedContent t) a b\<rparr>"

text \<open>\<open>std::list::erase\<close> of the node an iterator denotes.\<close>

definition erase_node :: "nat \<Rightarrow> (nat \<times> 'v) list \<Rightarrow> (nat \<times> 'v) list" where
  "erase_node n xs = filter (\<lambda>x. fst x \<noteq> n) xs"

definition has_node :: "nat \<Rightarrow> (nat \<times> 'v) list \<Rightarrow> bool" where
  "has_node n xs \<longleftrightarrow> n \<in> set (map fst xs)"

subsection \<open>Lists of least recently used tracks and groups\<close>

definition addTrackToLRU :: "'f \<Rightarrow> nat \<Rightarrow> ('f, 'x, 'is) cache \<Rightarrow> ('f, 'x, 'is) cache" where
  "addTrackToLRU ftn ta c = (if ct_lru (c_track c ta) \<noteq> None then c
     else upd_track ta (\<lambda>t. t\<lparr>ct_lru := Some (c_next c)\<rparr>) (c\<lparr>c_trackLRU := (c_next c, ftn) # c_trackLRU c, c_next := c_next c + 1\<rparr>))"

definition removeTrackFromLRU :: "nat \<Rightarrow> ('f, 'x, 'is) cache \<Rightarrow> ('f, 'x, 'is) cache" where
  "removeTrackFromLRU ta c = (case ct_lru (c_track c ta) of None \<Rightarrow> c
     | Some n \<Rightarrow> upd_track ta (\<lambda>t. t\<lparr>ct_lru := None\<rparr>)
         ((check (has_node n (c_trackLRU c)) c)\<lparr>c_trackLRU := erase_node n (c_trackLRU c)\<rparr>))"

definition onTrackBecameEvictable :: "'f \<Rightarrow> ('f, 'x, 'is) cache \<Rightarrow> ('f, 'x, 'is) cache" where
  "onTrackBecameEvictable ftn c = (case hm_find (c_map c) ftn of None \<Rightarrow> c
     | Some ta \<Rightarrow> if canEvict (c_track c ta) then addTrackToLRU ftn ta c else c)"

definition addGroupToLRU :: "'f \<Rightarrow> nat \<Rightarrow> nat \<Rightarrow> nat \<Rightarrow> ('f, 'x, 'is) cache \<Rightarrow> ('f, 'x, 'is) cache" where
  "addGroupToLRU ftn gid ga ta c = (if cg_lru (c_group c ga) \<noteq> None then c
     else let n = c_next c; m = n + 1
          in upd_group ga (\<lambda>g. g\<lparr>cg_lru := Some n, cg_globalLru := Some m\<rparr>)
               (upd_track ta (\<lambda>t. t\<lparr>ct_groupLRU := (n, gid) # ct_groupLRU t\<rparr>)
                 (c\<lparr>c_globalGroupLRU := (m, ftn, gid) # c_globalGroupLRU c, c_next := m + 1\<rparr>)))"

definition removeGroupFromLRU :: "nat \<Rightarrow> nat \<Rightarrow> ('f, 'x, 'is) cache \<Rightarrow> ('f, 'x, 'is) cache" where
  "removeGroupFromLRU ga ta c = (case cg_lru (c_group c ga) of None \<Rightarrow> c
     | Some n \<Rightarrow>
         let c1 = upd_group ga (\<lambda>g. g\<lparr>cg_lru := None\<rparr>)
                    (upd_track ta (\<lambda>t. t\<lparr>ct_groupLRU := erase_node n (ct_groupLRU t)\<rparr>)
                      (check (has_node n (ct_groupLRU (c_track c ta))) c))
         in case cg_globalLru (c_group c ga) of None \<Rightarrow> c1
            | Some m \<Rightarrow> upd_group ga (\<lambda>g. g\<lparr>cg_globalLru := None\<rparr>)
                ((check (has_node m (c_globalGroupLRU c1)) c1)\<lparr>c_globalGroupLRU := erase_node m (c_globalGroupLRU c1)\<rparr>))"

subsection \<open>Eviction\<close>

definition evictGroup :: "('x, 'is) cache_env \<Rightarrow> nat \<Rightarrow> nat \<Rightarrow> ('f, 'x, 'is) cache \<Rightarrow> ('f, 'x, 'is) cache" where
  "evictGroup env ta gid c = (case hm_find (ct_groups (c_track c ta)) gid of None \<Rightarrow> c
     | Some ga \<Rightarrow>
         let g = c_group c ga;
             c1 = (case cg_lru g of None \<Rightarrow> c
                   | Some n \<Rightarrow> upd_track ta (\<lambda>t. t\<lparr>ct_groupLRU := erase_node n (ct_groupLRU t)\<rparr>)
                       (check (has_node n (ct_groupLRU (c_track c ta))) c));
             c2 = (case cg_globalLru g of None \<Rightarrow> c1
                   | Some m \<Rightarrow> (check (has_node m (c_globalGroupLRU c1)) c1)\<lparr>c_globalGroupLRU := erase_node m (c_globalGroupLRU c1)\<rparr>);
             c3 = upd_track ta (\<lambda>t. t\<lparr>ct_cachedContent :=
                    lis_remove (ev_lis env) (ct_cachedContent t) (gid, 0) (gid, snd (kLocationMax (ev_loc env)))\<rparr>) c2;
             c4 = (check (cg_totalBytes g \<le> c_total c3) c3)\<lparr>c_total := sub_size (c_total c3) (cg_totalBytes g)\<rparr>
         in upd_track ta (\<lambda>t. t\<lparr>ct_groups := hm_erase gid (ct_groups t)\<rparr>) c4)"

text \<open>The loop over \<open>begin()\<close> visits each group once, since evictGroup erases it.\<close>

definition evictTrack :: "('x, 'is) cache_env \<Rightarrow> 'f \<Rightarrow> ('f, 'x, 'is) cache \<Rightarrow> nat \<times> ('f, 'x, 'is) cache" where
  "evictTrack env ftn c = (case hm_find (c_map c) ftn of None \<Rightarrow> (0, c)
     | Some ta \<Rightarrow>
         let c1 = upd_track ta (\<lambda>t. t\<lparr>ct_evicted := True\<rparr>) c;
             c2 = (case ct_lru (c_track c1 ta) of None \<Rightarrow> c1
                   | Some n \<Rightarrow> (check (has_node n (c_trackLRU c1)) c1)\<lparr>c_trackLRU := erase_node n (c_trackLRU c1)\<rparr>);
             c3 = fold (evictGroup env ta) (hm_keys (ct_groups (c_track c2 ta))) c2
         in (1, c3\<lparr>c_map := hm_erase ftn (c_map c3)\<rparr>))"

definition evictOldestTrackIfNeeded :: "('x, 'is) cache_env \<Rightarrow> ('f, 'x, 'is) cache \<Rightarrow> bool \<times> ('f, 'x, 'is) cache" where
  "evictOldestTrackIfNeeded env c =
    (if c_maxTracks c = 0 \<or> length (c_map c) < c_maxTracks c then (True, c)
     else if c_trackLRU c = [] then (False, c)
     else (True, snd (evictTrack env (snd (last (c_trackLRU c))) c)))"

definition purge_track :: "('x, 'is) cache_env \<Rightarrow> 'f \<Rightarrow> ('f, 'x, 'is) cache \<Rightarrow> nat \<times> ('f, 'x, 'is) cache" where
  "purge_track env ftn c = evictTrack env ftn c"

definition purge_namespace :: "('x, 'is) cache_env \<Rightarrow> ('f \<Rightarrow> 'n) \<Rightarrow> 'n \<Rightarrow> ('f, 'x, 'is) cache \<Rightarrow> nat \<times> ('f, 'x, 'is) cache" where
  "purge_namespace env ns_of ns c =
    fold (\<lambda>ftn (k, c). let (n, c') = evictTrack env ftn c in (k + n, c')) (filter (\<lambda>ftn. ns_of ftn = ns) (hm_keys (c_map c))) (0, c)"

definition purge_all :: "('x, 'is) cache_env \<Rightarrow> ('f, 'x, 'is) cache \<Rightarrow> nat \<times> ('f, 'x, 'is) cache" where
  "purge_all env c = (length (c_map c), fold (\<lambda>ftn c. snd (evictTrack env ftn c)) (hm_keys (c_map c)) c)"

definition clear :: "('f, 'x, 'is) cache \<Rightarrow> ('f, 'x, 'is) cache" where
  "clear c = (fold (\<lambda>(ftn, ta). upd_track ta (\<lambda>t. t\<lparr>ct_evicted := True\<rparr>)) (c_map c) c)\<lparr>c_map := [], c_trackLRU := [], c_total := 0\<rparr>"

text \<open>The loops that evict groups; \<open>None\<close> when they never end.\<close>

partial_function (option) evict_groups_loop :: "('x, 'is) cache_env \<Rightarrow> nat \<Rightarrow> ('f, 'x, 'is) cache \<Rightarrow> ('f, 'x, 'is) cache option" where
  "evict_groups_loop env ta c =
    (if length (ct_groups (c_track c ta)) > c_maxGroups c \<and> ct_groupLRU (c_track c ta) \<noteq> []
     then evict_groups_loop env ta (evictGroup env ta (snd (last (ct_groupLRU (c_track c ta)))) c)
     else Some c)"

definition evictOldestGroupsIfNeeded :: "('x, 'is) cache_env \<Rightarrow> nat \<Rightarrow> ('f, 'x, 'is) cache \<Rightarrow> ('f, 'x, 'is) cache option" where
  "evictOldestGroupsIfNeeded env ta c = (if c_maxGroups c = 0 then Some c else evict_groups_loop env ta c)"

definition evict_bytes_step :: "('x, 'is) cache_env \<Rightarrow> ('f, 'x, 'is) cache \<Rightarrow> ('f, 'x, 'is) cache" where
  "evict_bytes_step env c =
    (let (ftn, gid) = snd (last (c_globalGroupLRU c))
     in case hm_find (c_map c) ftn of
          None \<Rightarrow> c\<lparr>c_globalGroupLRU := butlast (c_globalGroupLRU c)\<rparr>
        | Some ta \<Rightarrow>
            let c1 = evictGroup env ta gid c
            in if ct_groups (c_track c1 ta) = [] \<and> canEvict (c_track c1 ta) then snd (evictTrack env ftn c1) else c1)"

partial_function (option) evict_bytes_loop :: "('x, 'is) cache_env \<Rightarrow> nat \<Rightarrow> ('f, 'x, 'is) cache \<Rightarrow> ('f, 'x, 'is) cache option" where
  "evict_bytes_loop env target c =
    (if c_total c > target \<and> c_globalGroupLRU c \<noteq> [] then evict_bytes_loop env target (evict_bytes_step env c) else Some c)"

definition evictForByteLimitIfNeeded :: "('x, 'is) cache_env \<Rightarrow> ('f, 'x, 'is) cache \<Rightarrow> (bool \<times> ('f, 'x, 'is) cache) option" where
  "evictForByteLimitIfNeeded env c =
    (if c_maxBytes c = 0 \<or> c_total c \<le> c_maxBytes c then Some (True, c)
     else case evict_bytes_loop env (if c_minEvictionBytes c < c_maxBytes c then c_maxBytes c - c_minEvictionBytes c else 0) c of
            None \<Rightarrow> None
          | Some c' \<Rightarrow> Some (c_total c' \<le> c_maxBytes c', c'))"

definition setMaxCachedBytes :: "('x, 'is) cache_env \<Rightarrow> nat \<Rightarrow> ('f, 'x, 'is) cache \<Rightarrow> ('f, 'x, 'is) cache option" where
  "setMaxCachedBytes env n c = map_option snd (evictForByteLimitIfNeeded env (c\<lparr>c_maxBytes := n\<rparr>))"

definition setMinEvictionBytes :: "nat \<Rightarrow> ('f, 'x, 'is) cache \<Rightarrow> ('f, 'x, 'is) cache" where
  "setMinEvictionBytes n c = c\<lparr>c_minEvictionBytes := n\<rparr>"

partial_function (option) set_max_tracks_loop :: "('x, 'is) cache_env \<Rightarrow> ('f, 'x, 'is) cache \<Rightarrow> ('f, 'x, 'is) cache option" where
  "set_max_tracks_loop env c =
    (if c_maxTracks c > 0 \<and> length (c_map c) > c_maxTracks c \<and> c_trackLRU c \<noteq> []
     then set_max_tracks_loop env (snd (evictOldestTrackIfNeeded env c)) else Some c)"

definition setMaxCachedTracks :: "('x, 'is) cache_env \<Rightarrow> nat \<Rightarrow> ('f, 'x, 'is) cache \<Rightarrow> ('f, 'x, 'is) cache option" where
  "setMaxCachedTracks env n c = set_max_tracks_loop env (c\<lparr>c_maxTracks := n\<rparr>)"

fun evict_all_tracks_groups :: "('x, 'is) cache_env \<Rightarrow> nat list \<Rightarrow> ('f, 'x, 'is) cache \<Rightarrow> ('f, 'x, 'is) cache option" where
  "evict_all_tracks_groups env [] c = Some c"
| "evict_all_tracks_groups env (ta # tas) c = do { c' \<leftarrow> evictOldestGroupsIfNeeded env ta c; evict_all_tracks_groups env tas c' }"

definition setMaxCachedGroupsPerTrack :: "('x, 'is) cache_env \<Rightarrow> nat \<Rightarrow> ('f, 'x, 'is) cache \<Rightarrow> ('f, 'x, 'is) cache option" where
  "setMaxCachedGroupsPerTrack env n c =
    (let c' = c\<lparr>c_maxGroups := n\<rparr>
     in if n < c_maxGroups c then evict_all_tracks_groups env (map snd (c_map c')) c' else Some c')"

subsection \<open>Durations and track extensions\<close>

definition get_or_add_track :: "('x, 'is) cache_env \<Rightarrow> 'f \<Rightarrow> ('f, 'x, 'is) cache \<Rightarrow> nat \<times> ('f, 'x, 'is) cache" where
  "get_or_add_track env ftn c = (case hm_find (c_map c) ftn of Some ta \<Rightarrow> (ta, c)
     | None \<Rightarrow> let ta = c_next c
               in (ta, upd_track ta (\<lambda>_. new_track env) (c\<lparr>c_map := c_map c @ [(ftn, ta)], c_next := ta + 1\<rparr>)))"

definition setMaxCacheDuration :: "('x, 'is) cache_env \<Rightarrow> 'f \<Rightarrow> int \<Rightarrow> ('f, 'x, 'is) cache \<Rightarrow> ('f, 'x, 'is) cache" where
  "setMaxCacheDuration env ftn d c =
    (let (ta, c1) = get_or_add_track env ftn c;
         c2 = (if hm_find (c_map c) ftn = None then addTrackToLRU ftn ta c1 else c1)
     in upd_track ta (\<lambda>t. t\<lparr>ct_maxCacheDuration := Some d\<rparr>) c2)"

definition clearMaxCacheDuration :: "'f \<Rightarrow> ('f, 'x, 'is) cache \<Rightarrow> ('f, 'x, 'is) cache" where
  "clearMaxCacheDuration ftn c = (case hm_find (c_map c) ftn of None \<Rightarrow> c
     | Some ta \<Rightarrow> upd_track ta (\<lambda>t. t\<lparr>ct_maxCacheDuration := None\<rparr>) c)"

definition getEffectiveCacheDuration :: "('x, 'is) cache_env \<Rightarrow> 'x \<Rightarrow> ('f, 'x, 'is) cache \<Rightarrow> int option" where
  "getEffectiveCacheDuration env ext c = (case ev_maxCacheDuration env ext of
       Some ms \<Rightarrow> Some (case c_maxAllowedDuration c of Some m \<Rightarrow> min (int ms) m | None \<Rightarrow> int ms)
     | None \<Rightarrow> c_defaultDuration c)"

definition setTrackExtensions :: "('x, 'is) cache_env \<Rightarrow> 'f \<Rightarrow> 'x \<Rightarrow> ('f, 'x, 'is) cache \<Rightarrow> ('f, 'x, 'is) cache" where
  "setTrackExtensions env ftn ext c =
    (let c1 = (case getEffectiveCacheDuration env ext c of
                 Some d \<Rightarrow> setMaxCacheDuration env ftn d c | None \<Rightarrow> clearMaxCacheDuration ftn c);
         (ta, c2) = get_or_add_track env ftn c1;
         c3 = (if hm_find (c_map c1) ftn = None then addTrackToLRU ftn ta c2 else c2)
     in upd_track ta (\<lambda>t. t\<lparr>ct_extensions := ext\<rparr>) c3)"

subsection \<open>Objects\<close>

definition isEndOfTrack :: "object_status \<Rightarrow> bool" where
  "isEndOfTrack s \<longleftrightarrow> s = END_OF_TRACK"

definition updateLargest :: "loc \<Rightarrow> bool \<Rightarrow> ('x, 'is) cache_track \<Rightarrow> publish_error option \<times> ('x, 'is) cache_track" where
  "updateLargest current eot t =
    (if (case ct_largest t of None \<Rightarrow> True | Some l \<Rightarrow> current > l) then
       (if ct_endOfTrack t then (Some MalformedTrack, t)
        else (None, t\<lparr>ct_endOfTrack := eot, ct_largest := Some current\<rparr>))
     else if eot \<and> ct_largest t \<noteq> Some current then (Some MalformedTrack, t)
     else (None, t))"

definition getOrCreateGroup :: "nat \<Rightarrow> nat \<Rightarrow> ('f, 'x, 'is) cache \<Rightarrow> nat \<times> ('f, 'x, 'is) cache" where
  "getOrCreateGroup ta gid c = (case hm_find (ct_groups (c_track c ta)) gid of Some ga \<Rightarrow> (ga, c)
     | None \<Rightarrow> let ga = c_next c
               in (ga, upd_track ta (\<lambda>t. t\<lparr>ct_groups := ct_groups t @ [(gid, ga)]\<rparr>) (upd_group ga (\<lambda>_. new_cache_group) (c\<lparr>c_next := ga + 1\<rparr>))))"

definition getOrCreateGroupWithEviction :: "('x, 'is) cache_env \<Rightarrow> nat \<Rightarrow> nat \<Rightarrow> 'f \<Rightarrow> ('f, 'x, 'is) cache \<Rightarrow> (nat \<times> ('f, 'x, 'is) cache) option" where
  "getOrCreateGroupWithEviction env ta gid ftn c = (case hm_find (ct_groups (c_track c ta)) gid of Some ga \<Rightarrow> Some (ga, c)
     | None \<Rightarrow> do {
         c1 \<leftarrow> evictOldestGroupsIfNeeded env ta c;
         let (ga, c2) = getOrCreateGroup ta gid c1;
         Some (ga, addGroupToLRU ftn gid ga ta c2)
       })"

definition kMaxGapValidation :: nat where
  "kMaxGapValidation = 100"

definition process_group_gap :: "('x, 'is) cache_env \<Rightarrow> nat \<Rightarrow> nat \<Rightarrow> nat \<Rightarrow> ('f, 'x, 'is) cache \<Rightarrow> publish_error option \<times> ('f, 'x, 'is) cache" where
  "process_group_gap env ta gid gap c =
    (if gap > gid then (Some GroupGapTooLarge, c)
     else let (ga, c1) = getOrCreateGroup ta gid c
          in case cg_seenPriorGroupIdGap (c_group c1 ga) of
               Some seen \<Rightarrow> if seen \<noteq> gap then (Some GroupGapMismatch, c1) else (None, c1)
             | None \<Rightarrow>
                 let c2 = upd_group ga (\<lambda>g. g\<lparr>cg_seenPriorGroupIdGap := Some gap\<rparr>) c1
                 in if gap = 0 then (None, c2)
                    else if \<exists>g\<in>set [gid - min gap kMaxGapValidation..<gid].
                       (case hm_find (ct_groups (c_track c2 ta)) g of None \<Rightarrow> False | Some ga' \<Rightarrow> cg_objects (c_group c2 ga') \<noteq> [])
                    then (Some GroupGapCoversObject, c2)
                    else (None, upd_track ta (insertGap env (gid - gap, 0) (gid - 1, snd (kLocationMax (ev_loc env)))) c2))"

definition process_object_gap :: "('x, 'is) cache_env \<Rightarrow> nat \<Rightarrow> nat \<Rightarrow> nat \<Rightarrow> nat \<Rightarrow> ('f, 'x, 'is) cache \<Rightarrow> publish_error option \<times> ('f, 'x, 'is) cache" where
  "process_object_gap env ta gid oid gap c =
    (if gap > oid then (Some ObjectGapTooLarge, c)
     else if gap = 0 then (None, c)
     else let (ga, c1) = getOrCreateGroup ta gid c
          in if \<exists>k\<in>set [oid - min gap kMaxGapValidation..<oid]. hm_find (cg_objects (c_group c1 ga)) k \<noteq> None
             then (Some ObjectGapCoversObject, c1)
             else (None, upd_track ta (insertGap env (gid, oid - gap) (gid, oid - 1)) c1))"

definition processGapExtensions :: "('x, 'is) cache_env \<Rightarrow> nat \<Rightarrow> nat \<Rightarrow> nat \<Rightarrow> 'x \<Rightarrow> ('f, 'x, 'is) cache \<Rightarrow> publish_error option \<times> ('f, 'x, 'is) cache" where
  "processGapExtensions env ta gid oid ext c =
    (let (e, c1) = (case ev_priorGroupGap env ext of None \<Rightarrow> (None, c) | Some gap \<Rightarrow> process_group_gap env ta gid gap c)
     in if e \<noteq> None then (e, c1)
        else case ev_priorObjectGap env ext of None \<Rightarrow> (None, c1) | Some gap \<Rightarrow> process_object_gap env ta gid oid gap c1)"

definition payload_size :: "string option \<Rightarrow> nat" where
  "payload_size p = (case p of None \<Rightarrow> 0 | Some b \<Rightarrow> length b)"

text \<open>cacheObject: the checks, the gaps after an end of group or track, and the entry.\<close>

definition end_gaps :: "('x, 'is) cache_env \<Rightarrow> nat \<Rightarrow> nat \<Rightarrow> object_status \<Rightarrow> ('x, 'is) cache_track \<Rightarrow> ('x, 'is) cache_track" where
  "end_gaps env gid oid status t =
    (let L = ev_loc env;
         t1 = (case nextInGroup L (gid, oid) of None \<Rightarrow> t | Some n \<Rightarrow> insertGap env n (gid, snd (kLocationMax L)) t)
     in if status = END_OF_TRACK
        then (case nextGroup L (gid, 0) of None \<Rightarrow> t1 | Some n \<Rightarrow> insertGap env n (kLocationMax L) t1)
        else t1)"

definition put_entry :: "nat \<Rightarrow> 'x cache_entry \<Rightarrow> 'x cache_group \<Rightarrow> 'x cache_group" where
  "put_entry oid e g = g\<lparr>cg_objects := hm_set oid e (cg_objects g),
     cg_totalBytes := (case hm_find (cg_objects g) oid of None \<Rightarrow> cg_totalBytes g
        | Some old \<Rightarrow> sub_size (cg_totalBytes g) (ce_payloadSize old)) + ce_payloadSize e,
     cg_maxCachedObject := (if oid \<ge> cg_maxCachedObject g then oid else cg_maxCachedObject g)\<rparr>"

definition entry_error :: "'x cache_entry \<Rightarrow> object_status \<Rightarrow> string option \<Rightarrow> bool \<Rightarrow> publish_error option" where
  "entry_error old status payload dgram =
    (if status \<noteq> ce_status old then Some InvalidStatusChange
     else if status = NORMAL \<and> ce_complete old \<and>
       ((payload = None \<and> ce_payload old \<noteq> None) \<or> (payload \<noteq> None \<and> ce_payload old = None) \<or>
        (payload \<noteq> None \<and> ce_payload old \<noteq> None \<and> payload_size payload \<noteq> ce_payloadSize old)) then Some PayloadMismatch
     else if ce_datagram old \<noteq> dgram then Some PreferenceMismatch
     else None)"

definition cacheObject :: "('x, 'is) cache_env \<Rightarrow> nat \<Rightarrow> nat \<Rightarrow> nat \<Rightarrow> nat \<Rightarrow> nat \<Rightarrow> object_status \<Rightarrow> 'x \<Rightarrow> string option \<Rightarrow> bool \<Rightarrow> bool \<Rightarrow>
    ('f, 'x, 'is) cache \<Rightarrow> publish_error option \<times> ('f, 'x, 'is) cache" where
  "cacheObject env ga ta gid subgroup oid status ext payload complete dgram c =
    (if lis_contains (ev_lis env) (ct_gaps (c_track c ta)) (gid, oid) then (Some ObjectInKnownGap, c)
     else let (e, c1) = processGapExtensions env ta gid oid ext c
          in if e \<noteq> None then (e, c1)
             else let c2 = (if status = END_OF_GROUP \<or> status = END_OF_TRACK
                            then upd_group ga (\<lambda>g. g\<lparr>cg_endOfGroup := True\<rparr>) (upd_track ta (end_gaps env gid oid status) c1) else c1);
                      entry = \<lparr>ce_subgroup = (case hm_find (cg_objects (c_group c2 ga)) oid of Some old \<Rightarrow> ce_subgroup old | None \<Rightarrow> subgroup),
                               ce_status = status, ce_extensions = ext, ce_payload = payload, ce_payloadSize = payload_size payload,
                               ce_complete = complete, ce_datagram = dgram, ce_cachedAt = c_now c\<rparr>
                  in case (case hm_find (cg_objects (c_group c2 ga)) oid of None \<Rightarrow> None | Some old \<Rightarrow> entry_error old status payload dgram) of
                       Some err \<Rightarrow> (Some err, c2)
                     | None \<Rightarrow>
                         let c3 = upd_group ga (put_entry oid entry) c2
                         in (None, if complete then upd_track ta (\<lambda>t. t\<lparr>ct_cachedContent :=
                                      lis_insert (ev_lis env) (ct_cachedContent t) (gid, oid) (gid, oid)\<rparr>) c3 else c3))"

definition cacheObjectAndUpdateBytes :: "('x, 'is) cache_env \<Rightarrow> nat \<Rightarrow> nat \<Rightarrow> nat \<Rightarrow> nat \<Rightarrow> nat \<Rightarrow> object_status \<Rightarrow> 'x \<Rightarrow> string option \<Rightarrow> bool \<Rightarrow> bool \<Rightarrow>
    ('f, 'x, 'is) cache \<Rightarrow> (publish_error option \<times> ('f, 'x, 'is) cache) option" where
  "cacheObjectAndUpdateBytes env ga ta gid subgroup oid status ext payload complete dgram c =
    (let old = cg_totalBytes (c_group c ga);
         (e, c1) = cacheObject env ga ta gid subgroup oid status ext payload complete dgram c
     in if e \<noteq> None then Some (e, c1)
        else let new = cg_totalBytes (c_group c1 ga);
                 c2 = (if new \<ge> old then c1\<lparr>c_total := c_total c1 + (new - old)\<rparr>
                       else (check (old - new \<le> c_total c1) c1)\<lparr>c_total := sub_size (c_total c1) (old - new)\<rparr>);
                 c3 = upd_track ta (\<lambda>t. t\<lparr>ct_lastWrite := c_now c\<rparr>) c2
             in do { (b, c4) \<leftarrow> evictForByteLimitIfNeeded env c3; Some (None, c4) })"

definition getCachedObjectMaybe :: "('x, 'is) cache_env \<Rightarrow> nat \<Rightarrow> loc \<Rightarrow> int \<Rightarrow> ('f, 'x, 'is) cache \<Rightarrow> 'x cache_entry option \<times> ('f, 'x, 'is) cache" where
  "getCachedObjectMaybe env ta p now c = (case hm_find (ct_groups (c_track c ta)) (fst p) of None \<Rightarrow> (None, c)
     | Some ga \<Rightarrow> (case hm_find (cg_objects (c_group c ga)) (snd p) of None \<Rightarrow> (None, c)
         | Some e \<Rightarrow>
             let dur = (case ct_maxCacheDuration (c_track c ta) of Some d \<Rightarrow> Some d | None \<Rightarrow> c_defaultDuration c)
             in if (case dur of Some d \<Rightarrow> now - ce_cachedAt e > d | None \<Rightarrow> False) then
                  (None, upd_group ga (\<lambda>g. g\<lparr>cg_totalBytes := sub_size (cg_totalBytes g) (ce_payloadSize e), cg_objects := hm_erase (snd p) (cg_objects g)\<rparr>)
                     (upd_track ta (\<lambda>t. t\<lparr>ct_cachedContent := lis_remove (ev_lis env) (ct_cachedContent t) p p\<rparr>)
                       (c\<lparr>c_total := sub_size (c_total c) (ce_payloadSize e)\<rparr>)))
                else if \<not> ce_complete e then (None, c)
                else (Some e, c)))"

definition hasCachedObject :: "('x, 'is) cache_env \<Rightarrow> 'f \<Rightarrow> loc \<Rightarrow> ('f, 'x, 'is) cache \<Rightarrow> bool \<times> ('f, 'x, 'is) cache" where
  "hasCachedObject env ftn p c = (case hm_find (c_map c) ftn of None \<Rightarrow> (False, c)
     | Some ta \<Rightarrow> let (e, c') = getCachedObjectMaybe env ta p (c_now c) c in (e \<noteq> None, c'))"

definition getTrackStats :: "('f, 'x, 'is) cache \<Rightarrow> ('f \<times> bool \<times> int \<times> (nat \<times> nat) list) list" where
  "getTrackStats c = map (\<lambda>(ftn, ta). (ftn, ct_endOfTrack (c_track c ta), ct_lastWrite (c_track c ta),
     sort_key fst (map (\<lambda>(gid, ga). (gid, length (cg_objects (c_group c ga)))) (ct_groups (c_track c ta))))) (c_map c)"

subsection \<open>Writebacks of a subscription\<close>

text \<open>
  A write either is handed on to the downstream consumer (Forwarded) or fails, in which case a
  subgroup also resets its consumer (Rejected).
\<close>

datatype wb_result = Forwarded | Rejected publish_error

record 'f subgroup_wb =
  sw_group :: nat
  sw_subgroup :: nat
  sw_track :: nat
  sw_cacheGroup :: nat
  sw_ftn :: 'f
  sw_currentObject :: nat
  sw_currentLength :: nat

definition new_subgroup_wb :: "nat \<Rightarrow> nat \<Rightarrow> nat \<Rightarrow> nat \<Rightarrow> 'f \<Rightarrow> ('f, 'x, 'is) cache \<Rightarrow> 'f subgroup_wb \<times> ('f, 'x, 'is) cache" where
  "new_subgroup_wb gid sub ta ga ftn c = (\<lparr>sw_group = gid, sw_subgroup = sub, sw_track = ta, sw_cacheGroup = ga, sw_ftn = ftn,
     sw_currentObject = 0, sw_currentLength = 0\<rparr>, removeGroupFromLRU ga ta c)"

definition destroy_subgroup_wb :: "'f subgroup_wb \<Rightarrow> ('f, 'x, 'is) cache \<Rightarrow> ('f, 'x, 'is) cache" where
  "destroy_subgroup_wb w c = addGroupToLRU (sw_ftn w) (sw_group w) (sw_cacheGroup w) (sw_track w) c"

definition sw_store :: "('x, 'is) cache_env \<Rightarrow> 'f subgroup_wb \<Rightarrow> nat \<Rightarrow> object_status \<Rightarrow> 'x \<Rightarrow> string option \<Rightarrow> bool \<Rightarrow> ('f, 'x, 'is) cache \<Rightarrow>
    (wb_result \<times> ('f, 'x, 'is) cache) option" where
  "sw_store env w oid status ext payload complete c =
    (let (e, t) = updateLargest (sw_group w, oid) (isEndOfTrack status) (c_track c (sw_track w))
     in case e of Some err \<Rightarrow> Some (Rejected err, c)
        | None \<Rightarrow> do {
            (r, c1) \<leftarrow> cacheObjectAndUpdateBytes env (sw_cacheGroup w) (sw_track w) (sw_group w) (sw_subgroup w) oid status ext payload complete False
                         (upd_track (sw_track w) (\<lambda>_. t) c);
            Some (case r of Some err \<Rightarrow> Rejected err | None \<Rightarrow> Forwarded, c1)
          })"

definition sw_object :: "('x, 'is) cache_env \<Rightarrow> 'f subgroup_wb \<Rightarrow> nat \<Rightarrow> string option \<Rightarrow> 'x \<Rightarrow> ('f, 'x, 'is) cache \<Rightarrow> (wb_result \<times> ('f, 'x, 'is) cache) option" where
  "sw_object env w oid payload ext c = (if shouldSkipCaching (c_track c (sw_track w)) then Some (Forwarded, c)
     else sw_store env w oid NORMAL ext payload True c)"

definition sw_beginObject :: "('x, 'is) cache_env \<Rightarrow> 'f subgroup_wb \<Rightarrow> nat \<Rightarrow> nat \<Rightarrow> string option \<Rightarrow> 'x \<Rightarrow> ('f, 'x, 'is) cache \<Rightarrow>
    (wb_result \<times> 'f subgroup_wb \<times> ('f, 'x, 'is) cache) option" where
  "sw_beginObject env w oid len payload ext c = (if shouldSkipCaching (c_track c (sw_track w)) then Some (Forwarded, w, c)
     else do {
       (r, c1) \<leftarrow> sw_store env w oid NORMAL ext payload False c;
       Some (if r = Forwarded then
               (r, w\<lparr>sw_currentObject := oid, sw_currentLength := len - payload_size payload\<rparr>, check (payload_size payload \<le> len) c1)
             else (r, w, c1))
     })"

definition add_payload :: "string \<Rightarrow> bool \<Rightarrow> 'x cache_entry \<Rightarrow> 'x cache_entry" where
  "add_payload b done' e = e\<lparr>ce_payload := Some ((case ce_payload e of None \<Rightarrow> [] | Some p \<Rightarrow> p) @ b),
     ce_complete := ce_complete e \<or> done', ce_payloadSize := ce_payloadSize e + length b\<rparr>"

definition sw_objectPayload :: "('x, 'is) cache_env \<Rightarrow> 'f subgroup_wb \<Rightarrow> string \<Rightarrow> ('f, 'x, 'is) cache \<Rightarrow>
    ('f subgroup_wb \<times> ('f, 'x, 'is) cache) option" where
  "sw_objectPayload env w payload c = (if shouldSkipCaching (c_track c (sw_track w)) then Some (w, c)
     else let g = c_group c (sw_cacheGroup w)
          in case hm_find (cg_objects g) (sw_currentObject w) of None \<Rightarrow> Some (w, check False c)
             | Some e \<Rightarrow>
                 let n = length payload; len = sw_currentLength w - n;
                     c1 = check (n \<le> sw_currentLength w) c;
                     c2 = (if len = 0 then upd_track (sw_track w) (\<lambda>t. t\<lparr>ct_cachedContent :=
                             lis_insert (ev_lis env) (ct_cachedContent t) (sw_group w, sw_currentObject w) (sw_group w, sw_currentObject w)\<rparr>) c1 else c1);
                     c3 = upd_group (sw_cacheGroup w) (\<lambda>g. g\<lparr>cg_objects := hm_set (sw_currentObject w) (add_payload payload (len = 0) e) (cg_objects g),
                            cg_totalBytes := cg_totalBytes g + n\<rparr>) c2
                 in do {
                      (b, c4) \<leftarrow> evictForByteLimitIfNeeded env (c3\<lparr>c_total := c_total c3 + n\<rparr>);
                      Some (w\<lparr>sw_currentLength := len\<rparr>, c4)
                    })"

definition sw_endOfGroup :: "('x, 'is) cache_env \<Rightarrow> 'f subgroup_wb \<Rightarrow> nat \<Rightarrow> ('f, 'x, 'is) cache \<Rightarrow> (wb_result \<times> ('f, 'x, 'is) cache) option" where
  "sw_endOfGroup env w oid c = (if shouldSkipCaching (c_track c (sw_track w)) then Some (Forwarded, c)
     else sw_store env w oid END_OF_GROUP (ev_noExtensions env) None True c)"

definition sw_endOfTrackAndGroup :: "('x, 'is) cache_env \<Rightarrow> 'f subgroup_wb \<Rightarrow> nat \<Rightarrow> ('f, 'x, 'is) cache \<Rightarrow> (wb_result \<times> ('f, 'x, 'is) cache) option" where
  "sw_endOfTrackAndGroup env w oid c = (if shouldSkipCaching (c_track c (sw_track w)) then Some (Forwarded, c)
     else sw_store env w oid END_OF_TRACK (ev_noExtensions env) None True c)"

record 'f subscribe_wb =
  tw_track :: nat
  tw_ftn :: 'f

definition new_subscribe_wb :: "nat \<Rightarrow> 'f \<Rightarrow> ('f, 'x, 'is) cache \<Rightarrow> 'f subscribe_wb \<times> ('f, 'x, 'is) cache" where
  "new_subscribe_wb ta ftn c = (\<lparr>tw_track = ta, tw_ftn = ftn\<rparr>,
     upd_track ta (\<lambda>t. t\<lparr>ct_liveWritebackCount := ct_liveWritebackCount t + 1\<rparr>) (removeTrackFromLRU ta c))"

definition destroy_subscribe_wb :: "'f subscribe_wb \<Rightarrow> ('f, 'x, 'is) cache \<Rightarrow> ('f, 'x, 'is) cache" where
  "destroy_subscribe_wb w c =
    (let c1 = check (ct_liveWritebackCount (c_track c (tw_track w)) > 0) c;
         c2 = upd_track (tw_track w) (\<lambda>t. t\<lparr>ct_liveWritebackCount := ct_liveWritebackCount t - 1\<rparr>) c1
     in onTrackBecameEvictable (tw_ftn w) c2)"

definition getSubscribeWriteback :: "('x, 'is) cache_env \<Rightarrow> 'f \<Rightarrow> ('f, 'x, 'is) cache \<Rightarrow> 'f subscribe_wb \<times> ('f, 'x, 'is) cache" where
  "getSubscribeWriteback env ftn c =
    (let c1 = (if hm_find (c_map c) ftn = None \<and> length (c_map c) \<ge> c_maxTracks c then snd (evictOldestTrackIfNeeded env c) else c);
         (ta, c2) = get_or_add_track env ftn c1
     in new_subscribe_wb ta ftn c2)"

text \<open>beginSubgroup: \<open>downstream\<close> says whether the consumer accepts the subgroup; without caching no writeback is made.\<close>

definition tw_beginSubgroup :: "('x, 'is) cache_env \<Rightarrow> 'f subscribe_wb \<Rightarrow> bool \<Rightarrow> nat \<Rightarrow> nat \<Rightarrow> ('f, 'x, 'is) cache \<Rightarrow>
    (wb_result \<times> 'f subgroup_wb option \<times> ('f, 'x, 'is) cache) option" where
  "tw_beginSubgroup env w downstream gid sub c =
    (if isGroupNonExistent (ev_lis env) (ev_loc env) (ct_gaps (c_track c (tw_track w))) gid then Some (Rejected InvalidStatusChange, None, c)
     else if downstream \<and> \<not> shouldSkipCaching (c_track c (tw_track w)) then do {
       (ga, c1) \<leftarrow> getOrCreateGroupWithEviction env (tw_track w) gid (tw_ftn w) c;
       let (sw, c2) = new_subgroup_wb gid sub (tw_track w) ga (tw_ftn w) c1;
       Some (Forwarded, Some sw, c2)
     }
     else Some (Forwarded, None, c))"

text \<open>objectStream and datagram differ in the forwarding preference.\<close>

definition tw_store :: "('x, 'is) cache_env \<Rightarrow> 'f subscribe_wb \<Rightarrow> bool \<Rightarrow> nat \<Rightarrow> nat \<Rightarrow> nat \<Rightarrow> object_status \<Rightarrow> 'x \<Rightarrow> string option \<Rightarrow> ('f, 'x, 'is) cache \<Rightarrow>
    (wb_result \<times> ('f, 'x, 'is) cache) option" where
  "tw_store env w dgram gid sub oid status ext payload c =
    (if shouldSkipCaching (c_track c (tw_track w)) then Some (Forwarded, c)
     else let (e, t) = updateLargest (gid, oid) (isEndOfTrack status) (c_track c (tw_track w))
          in case e of Some err \<Rightarrow> Some (Rejected err, c)
             | None \<Rightarrow> do {
                 (ga, c1) \<leftarrow> getOrCreateGroupWithEviction env (tw_track w) gid (tw_ftn w) (upd_track (tw_track w) (\<lambda>_. t) c);
                 (r, c2) \<leftarrow> cacheObjectAndUpdateBytes env ga (tw_track w) gid sub oid status ext payload True dgram c1;
                 Some (case r of Some err \<Rightarrow> Rejected err | None \<Rightarrow> Forwarded, c2)
               })"

definition tw_objectStream :: "('x, 'is) cache_env \<Rightarrow> 'f subscribe_wb \<Rightarrow> nat \<Rightarrow> nat \<Rightarrow> nat \<Rightarrow> object_status \<Rightarrow> 'x \<Rightarrow> string option \<Rightarrow> ('f, 'x, 'is) cache \<Rightarrow>
    (wb_result \<times> ('f, 'x, 'is) cache) option" where
  "tw_objectStream env w = tw_store env w False"

definition tw_datagram :: "('x, 'is) cache_env \<Rightarrow> 'f subscribe_wb \<Rightarrow> nat \<Rightarrow> nat \<Rightarrow> nat \<Rightarrow> object_status \<Rightarrow> 'x \<Rightarrow> string option \<Rightarrow> ('f, 'x, 'is) cache \<Rightarrow>
    (wb_result \<times> ('f, 'x, 'is) cache) option" where
  "tw_datagram env w = tw_store env w True"

end
