(* ===== verification/Cache_Books.thy ===== *)
theory Cache_Books
  imports Object_Cache
begin

section \<open>The books of the object cache\<close>

text \<open>
  The well-formedness of a cache state: which groups are registered, the total of bytes, and the agreement of the
  lists of evictable groups and tracks with the iterators the groups and tracks hold. Every operation that a writer or
  the eviction calls keeps it.
\<close>

subsection \<open>Invariant\<close>

text \<open>\<open>reg c f ta g ga\<close>: group \<open>g\<close> of track \<open>f\<close> is in the cache, at the addresses \<open>ta\<close> and \<open>ga\<close>.\<close>

definition reg :: "('f, 'x, 'is) cache \<Rightarrow> 'f \<Rightarrow> nat \<Rightarrow> nat \<Rightarrow> nat \<Rightarrow> bool" where
  "reg c f ta g ga \<longleftrightarrow> hm_find (c_map c) f = Some ta \<and> hm_find (ct_groups (c_track c ta)) g = Some ga"

definition gaddrs :: "('f, 'x, 'is) cache \<Rightarrow> nat set" where
  "gaddrs c = {ga. \<exists>f ta g. reg c f ta g ga}"

definition heap_ok :: "('f, 'x, 'is) cache \<Rightarrow> bool" where
  "heap_ok c \<longleftrightarrow> distinct (hm_keys (c_map c)) \<and>
     (\<forall>f f' ta. hm_find (c_map c) f = Some ta \<longrightarrow> hm_find (c_map c) f' = Some ta \<longrightarrow> f = f') \<and>
     (\<forall>f ta. hm_find (c_map c) f = Some ta \<longrightarrow> ta < c_next c \<and> distinct (hm_keys (ct_groups (c_track c ta)))) \<and>
     (\<forall>f ta g ga f' ta' g'. reg c f ta g ga \<longrightarrow> reg c f' ta' g' ga \<longrightarrow> f = f' \<and> g = g') \<and>
     (\<forall>f ta g ga. reg c f ta g ga \<longrightarrow> ga < c_next c)"

lemma heap_okD:
  assumes "heap_ok c"
  shows "distinct (hm_keys (c_map c))"
    "hm_find (c_map c) f = Some ta \<Longrightarrow> hm_find (c_map c) f' = Some ta \<Longrightarrow> f = f'"
    "hm_find (c_map c) f = Some ta \<Longrightarrow> ta < c_next c"
    "hm_find (c_map c) f = Some ta \<Longrightarrow> distinct (hm_keys (ct_groups (c_track c ta)))"
    "reg c f ta g ga \<Longrightarrow> reg c f' ta' g' ga \<Longrightarrow> f = f' \<and> g = g'"
    "reg c f ta g ga \<Longrightarrow> ga < c_next c"
proof -
  note l = assms [unfolded heap_ok_def]
  show "distinct (hm_keys (c_map c))" using l by (elim conjE)
  show "hm_find (c_map c) f = Some ta \<Longrightarrow> hm_find (c_map c) f' = Some ta \<Longrightarrow> f = f'"
    using conjunct1 [OF conjunct2 [OF l]] by iprover
  show "hm_find (c_map c) f = Some ta \<Longrightarrow> ta < c_next c"
    using conjunct1 [OF conjunct2 [OF conjunct2 [OF l]]] by iprover
  show "hm_find (c_map c) f = Some ta \<Longrightarrow> distinct (hm_keys (ct_groups (c_track c ta)))"
    using conjunct1 [OF conjunct2 [OF conjunct2 [OF l]]] by iprover
  show "reg c f ta g ga \<Longrightarrow> reg c f' ta' g' ga \<Longrightarrow> f = f' \<and> g = g'"
    using conjunct1 [OF conjunct2 [OF conjunct2 [OF conjunct2 [OF l]]]] by iprover
  show "reg c f ta g ga \<Longrightarrow> ga < c_next c"
    using conjunct2 [OF conjunct2 [OF conjunct2 [OF conjunct2 [OF l]]]] by iprover
qed

lemma heap_okI:
  assumes "distinct (hm_keys (c_map c))"
    "\<And>f f' ta. hm_find (c_map c) f = Some ta \<Longrightarrow> hm_find (c_map c) f' = Some ta \<Longrightarrow> f = f'"
    "\<And>f ta. hm_find (c_map c) f = Some ta \<Longrightarrow> ta < c_next c"
    "\<And>f ta. hm_find (c_map c) f = Some ta \<Longrightarrow> distinct (hm_keys (ct_groups (c_track c ta)))"
    "\<And>f ta g ga f' ta' g'. reg c f ta g ga \<Longrightarrow> reg c f' ta' g' ga \<Longrightarrow> f = f' \<and> g = g'"
    "\<And>f ta g ga. reg c f ta g ga \<Longrightarrow> ga < c_next c"
  shows "heap_ok c"
  unfolding heap_ok_def
  by (intro conjI allI impI; (fact assms(1) | elim assms(2) assms(3) assms(4) assms(6) | drule (1) assms(5), elim conjE, assumption); assumption?)

definition group_bytes :: "'x cache_group \<Rightarrow> nat" where
  "group_bytes g = sum_list (map (\<lambda>(k, e). ce_payloadSize e) (cg_objects g))"

definition group_ok :: "'x cache_group \<Rightarrow> bool" where
  "group_ok g \<longleftrightarrow> distinct (hm_keys (cg_objects g)) \<and> cg_totalBytes g = group_bytes g"

definition bytes_ok :: "('f, 'x, 'is) cache \<Rightarrow> bool" where
  "bytes_ok c \<longleftrightarrow> c_total c = (\<Sum>ga\<in>gaddrs c. cg_totalBytes (c_group c ga)) \<and>
     (\<forall>ga\<in>gaddrs c. group_ok (c_group c ga))"

text \<open>Nodes of the two group lists and the iterators of the registered groups denote each other.\<close>

definition lru_ok :: "('f, 'x, 'is) cache \<Rightarrow> bool" where
  "lru_ok c \<longleftrightarrow> distinct (map fst (c_globalGroupLRU c)) \<and>
     (\<forall>n f g. (n, f, g) \<in> set (c_globalGroupLRU c) \<longrightarrow> n < c_next c \<and> (\<exists>ta ga. reg c f ta g ga \<and> cg_globalLru (c_group c ga) = Some n)) \<and>
     (\<forall>f ta g ga n. reg c f ta g ga \<longrightarrow> cg_globalLru (c_group c ga) = Some n \<longrightarrow> (n, f, g) \<in> set (c_globalGroupLRU c)) \<and>
     (\<forall>f ta g ga n. reg c f ta g ga \<longrightarrow> cg_lru (c_group c ga) = Some n \<longrightarrow> (n, g) \<in> set (ct_groupLRU (c_track c ta))) \<and>
     (\<forall>f ta g ga. reg c f ta g ga \<longrightarrow> cg_lru (c_group c ga) = None \<longleftrightarrow> cg_globalLru (c_group c ga) = None) \<and>
     (\<forall>f ta. hm_find (c_map c) f = Some ta \<longrightarrow> distinct (map fst (ct_groupLRU (c_track c ta)))) \<and>
     (\<forall>f ta n g. hm_find (c_map c) f = Some ta \<longrightarrow> (n, g) \<in> set (ct_groupLRU (c_track c ta)) \<longrightarrow>
        n < c_next c \<and> (\<exists>ga. reg c f ta g ga \<and> cg_lru (c_group c ga) = Some n))"

lemma lru_okD:
  assumes "lru_ok c"
  shows "distinct (map fst (c_globalGroupLRU c))"
    "(n, f, g) \<in> set (c_globalGroupLRU c) \<Longrightarrow> n < c_next c \<and> (\<exists>ta ga. reg c f ta g ga \<and> cg_globalLru (c_group c ga) = Some n)"
    "reg c f ta g ga \<Longrightarrow> cg_globalLru (c_group c ga) = Some n \<Longrightarrow> (n, f, g) \<in> set (c_globalGroupLRU c)"
    "reg c f ta g ga \<Longrightarrow> cg_lru (c_group c ga) = Some n \<Longrightarrow> (n, g) \<in> set (ct_groupLRU (c_track c ta))"
    "reg c f ta g ga \<Longrightarrow> cg_lru (c_group c ga) = None \<longleftrightarrow> cg_globalLru (c_group c ga) = None"
    "hm_find (c_map c) f = Some ta \<Longrightarrow> distinct (map fst (ct_groupLRU (c_track c ta)))"
    "hm_find (c_map c) f = Some ta \<Longrightarrow> (n, g) \<in> set (ct_groupLRU (c_track c ta)) \<Longrightarrow>
       n < c_next c \<and> (\<exists>ga. reg c f ta g ga \<and> cg_lru (c_group c ga) = Some n)"
proof -
  note l = assms [unfolded lru_ok_def]
  show "distinct (map fst (c_globalGroupLRU c))" using l by (elim conjE)
  show "(n, f, g) \<in> set (c_globalGroupLRU c) \<Longrightarrow> n < c_next c \<and> (\<exists>ta ga. reg c f ta g ga \<and> cg_globalLru (c_group c ga) = Some n)"
    using conjunct1 [OF conjunct2 [OF l]] by iprover
  show "reg c f ta g ga \<Longrightarrow> cg_globalLru (c_group c ga) = Some n \<Longrightarrow> (n, f, g) \<in> set (c_globalGroupLRU c)"
    using conjunct1 [OF conjunct2 [OF conjunct2 [OF l]]] by iprover
  show "reg c f ta g ga \<Longrightarrow> cg_lru (c_group c ga) = Some n \<Longrightarrow> (n, g) \<in> set (ct_groupLRU (c_track c ta))"
    using conjunct1 [OF conjunct2 [OF conjunct2 [OF conjunct2 [OF l]]]] by iprover
  show "reg c f ta g ga \<Longrightarrow> cg_lru (c_group c ga) = None \<longleftrightarrow> cg_globalLru (c_group c ga) = None"
    using conjunct1 [OF conjunct2 [OF conjunct2 [OF conjunct2 [OF conjunct2 [OF l]]]]] by iprover
  show "hm_find (c_map c) f = Some ta \<Longrightarrow> distinct (map fst (ct_groupLRU (c_track c ta)))"
    using conjunct1 [OF conjunct2 [OF conjunct2 [OF conjunct2 [OF conjunct2 [OF conjunct2 [OF l]]]]]] by iprover
  show "hm_find (c_map c) f = Some ta \<Longrightarrow> (n, g) \<in> set (ct_groupLRU (c_track c ta)) \<Longrightarrow>
       n < c_next c \<and> (\<exists>ga. reg c f ta g ga \<and> cg_lru (c_group c ga) = Some n)"
    using conjunct2 [OF conjunct2 [OF conjunct2 [OF conjunct2 [OF conjunct2 [OF conjunct2 [OF l]]]]]] by iprover
qed

lemma lru_okI:
  assumes "distinct (map fst (c_globalGroupLRU c))"
    "\<And>n f g. (n, f, g) \<in> set (c_globalGroupLRU c) \<Longrightarrow> n < c_next c \<and> (\<exists>ta ga. reg c f ta g ga \<and> cg_globalLru (c_group c ga) = Some n)"
    "\<And>f ta g ga n. reg c f ta g ga \<Longrightarrow> cg_globalLru (c_group c ga) = Some n \<Longrightarrow> (n, f, g) \<in> set (c_globalGroupLRU c)"
    "\<And>f ta g ga n. reg c f ta g ga \<Longrightarrow> cg_lru (c_group c ga) = Some n \<Longrightarrow> (n, g) \<in> set (ct_groupLRU (c_track c ta))"
    "\<And>f ta g ga. reg c f ta g ga \<Longrightarrow> cg_lru (c_group c ga) = None \<longleftrightarrow> cg_globalLru (c_group c ga) = None"
    "\<And>f ta. hm_find (c_map c) f = Some ta \<Longrightarrow> distinct (map fst (ct_groupLRU (c_track c ta)))"
    "\<And>f ta n g. hm_find (c_map c) f = Some ta \<Longrightarrow> (n, g) \<in> set (ct_groupLRU (c_track c ta)) \<Longrightarrow>
       n < c_next c \<and> (\<exists>ga. reg c f ta g ga \<and> cg_lru (c_group c ga) = Some n)"
  shows "lru_ok c"
  unfolding lru_ok_def
  by (intro conjI allI impI; (fact assms(1) | elim assms(3) assms(4) assms(5) | drule assms(2), elim conjE, assumption
      | erule assms(6) | drule (1) assms(7), elim conjE, assumption); assumption?)

definition track_lru_ok :: "('f, 'x, 'is) cache \<Rightarrow> bool" where
  "track_lru_ok c \<longleftrightarrow> distinct (map fst (c_trackLRU c)) \<and>
     (\<forall>n f. (n, f) \<in> set (c_trackLRU c) \<longrightarrow> n < c_next c \<and> (\<exists>ta. hm_find (c_map c) f = Some ta \<and> ct_lru (c_track c ta) = Some n)) \<and>
     (\<forall>f ta n. hm_find (c_map c) f = Some ta \<longrightarrow> ct_lru (c_track c ta) = Some n \<longrightarrow> (n, f) \<in> set (c_trackLRU c))"

definition groups_ok :: "('f, 'x, 'is) cache \<Rightarrow> bool" where
  "groups_ok c \<longleftrightarrow> \<not> c_crashed c \<and> heap_ok c \<and> bytes_ok c \<and> lru_ok c"

definition cache_ok :: "('f, 'x, 'is) cache \<Rightarrow> bool" where
  "cache_ok c \<longleftrightarrow> groups_ok c \<and> track_lru_ok c"

lemma erase_node_mem [simp]: "x \<in> set (erase_node n xs) \<longleftrightarrow> x \<in> set xs \<and> fst x \<noteq> n"
  by (auto simp: erase_node_def)

lemma erase_node_distinct [simp]: "distinct (map fst xs) \<Longrightarrow> distinct (map fst (erase_node n xs))"
  by (simp add: erase_node_def distinct_map_filter)

lemma finite_gaddrs: "finite (gaddrs c)"
proof -
  have "gaddrs c \<subseteq> (\<Union>ta\<in>set (map snd (c_map c)). set (map snd (ct_groups (c_track c ta))))"
    by (force simp: gaddrs_def reg_def dest: map_of_SomeD)
  then show ?thesis by (rule finite_subset) simp
qed

lemma heap_regD:
  assumes "heap_ok c" "reg c f ta g ga" "reg c f' ta' g' ga"
  shows "f = f'" "g = g'" "ta = ta'"
  using assms unfolding heap_ok_def reg_def by (blast, blast, metis option.inject)

subsection \<open>Evicting one group\<close>

definition evicted_group :: "('x, 'is) cache_env \<Rightarrow> nat \<Rightarrow> nat \<Rightarrow> nat \<Rightarrow> ('f, 'x, 'is) cache \<Rightarrow> ('f, 'x, 'is) cache" where
  "evicted_group env ta gid ga c =
    (let g = c_group c ga; t = c_track c ta
     in c\<lparr>c_track := (c_track c)(ta := t\<lparr>
          ct_groupLRU := (case cg_lru g of None \<Rightarrow> ct_groupLRU t | Some n \<Rightarrow> erase_node n (ct_groupLRU t)),
          ct_cachedContent := lis_remove (ev_lis env) (ct_cachedContent t) (gid, 0) (gid, snd (kLocationMax (ev_loc env))),
          ct_groups := hm_erase gid (ct_groups t)\<rparr>),
        c_globalGroupLRU := (case cg_globalLru g of None \<Rightarrow> c_globalGroupLRU c | Some n \<Rightarrow> erase_node n (c_globalGroupLRU c)),
        c_total := c_total c - cg_totalBytes g\<rparr>)"

lemma total_ge: "bytes_ok c \<Longrightarrow> reg c f ta g ga \<Longrightarrow> cg_totalBytes (c_group c ga) \<le> c_total c"
  unfolding bytes_ok_def using member_le_sum [of ga "gaddrs c" "\<lambda>ga. cg_totalBytes (c_group c ga)"] finite_gaddrs [of c]
  by (auto simp: gaddrs_def)

lemma evictGroup_eq:
  assumes "groups_ok c" "reg c f ta gid ga"
  shows "evictGroup env ta gid c = evicted_group env ta gid ga c"
proof -
  let ?g = "c_group c ga" and ?t = "c_track c ta"
  have r: "hm_find (ct_groups ?t) gid = Some ga" using assms(2) by (simp add: reg_def)
  have b: "cg_totalBytes ?g \<le> c_total c" using assms by (auto simp: groups_ok_def intro: total_ge)
  have n: "has_node n (ct_groupLRU ?t)" if "cg_lru ?g = Some n" for n
  proof -
    have "(n, gid) \<in> set (ct_groupLRU ?t)" using assms(1) lru_okD(4) [OF _ assms(2) that] by (simp add: groups_ok_def)
    then show ?thesis by (force simp: has_node_def)
  qed
  have m: "has_node m (c_globalGroupLRU c)" if "cg_globalLru ?g = Some m" for m
  proof -
    have "(m, f, gid) \<in> set (c_globalGroupLRU c)" using assms(1) lru_okD(3) [OF _ assms(2) that] by (simp add: groups_ok_def)
    then show ?thesis by (force simp: has_node_def)
  qed
  show ?thesis
    using r b n m
    by (cases "cg_lru ?g"; cases "cg_globalLru ?g") (simp_all add: evictGroup_def evicted_group_def Let_def upd_track_def check_def sub_size_def)
qed

lemma evicted_fields [simp]:
  "c_map (evicted_group env ta gid ga c) = c_map c" "c_group (evicted_group env ta gid ga c) = c_group c"
  "c_next (evicted_group env ta gid ga c) = c_next c" "c_crashed (evicted_group env ta gid ga c) = c_crashed c"
  "c_trackLRU (evicted_group env ta gid ga c) = c_trackLRU c" "c_maxBytes (evicted_group env ta gid ga c) = c_maxBytes c"
  "c_maxGroups (evicted_group env ta gid ga c) = c_maxGroups c" "c_maxTracks (evicted_group env ta gid ga c) = c_maxTracks c"
  "c_total (evicted_group env ta gid ga c) = c_total c - cg_totalBytes (c_group c ga)"
  "ct_lru (c_track (evicted_group env ta gid ga c) ta') = ct_lru (c_track c ta')"
  "ct_liveWritebackCount (c_track (evicted_group env ta gid ga c) ta') = ct_liveWritebackCount (c_track c ta')"
  "ct_fetchesInProgress (c_track (evicted_group env ta gid ga c) ta') = ct_fetchesInProgress (c_track c ta')"
  "ct_evicted (c_track (evicted_group env ta gid ga c) ta') = ct_evicted (c_track c ta')"
  "ct_groups (c_track (evicted_group env ta gid ga c) ta') = (if ta' = ta then hm_erase gid (ct_groups (c_track c ta)) else ct_groups (c_track c ta'))"
  "ct_groupLRU (c_track (evicted_group env ta gid ga c) ta') = (if ta' = ta then
     (case cg_lru (c_group c ga) of None \<Rightarrow> ct_groupLRU (c_track c ta) | Some n \<Rightarrow> erase_node n (ct_groupLRU (c_track c ta))) else ct_groupLRU (c_track c ta'))"
  "c_globalGroupLRU (evicted_group env ta gid ga c) =
     (case cg_globalLru (c_group c ga) of None \<Rightarrow> c_globalGroupLRU c | Some n \<Rightarrow> erase_node n (c_globalGroupLRU c))"
  by (simp_all add: evicted_group_def Let_def)

lemma evicted_reg:
  "reg (evicted_group env ta gid ga c) f' ta' g' ga' \<longleftrightarrow> reg c f' ta' g' ga' \<and> \<not> (ta' = ta \<and> g' = gid)"
  by (auto simp: reg_def)

lemma evicted_gaddrs:
  assumes "heap_ok c" "reg c f ta gid ga"
  shows "gaddrs (evicted_group env ta gid ga c) = gaddrs c - {ga}"
proof -
  have "ga' = ga" if "reg c f' ta gid ga'" for f' ga' using that assms(2) by (simp add: reg_def)
  moreover have "ta' = ta \<and> g' = gid" if "reg c f' ta' g' ga" for f' ta' g' using heap_regD [OF assms(1) that assms(2)] by simp
  ultimately show ?thesis unfolding gaddrs_def evicted_reg by blast
qed

lemma evicted_heap: "heap_ok c \<Longrightarrow> heap_ok (evicted_group env ta gid ga c)"
  unfolding heap_ok_def evicted_reg evicted_fields by (simp split: if_split) blast

lemma evicted_bytes:
  assumes "heap_ok c" "bytes_ok c" "reg c f ta gid ga"
  shows "bytes_ok (evicted_group env ta gid ga c)"
proof -
  have "ga \<in> gaddrs c" using assms(3) by (auto simp: gaddrs_def)
  then have "(\<Sum>x\<in>gaddrs c. cg_totalBytes (c_group c x)) = cg_totalBytes (c_group c ga) + (\<Sum>x\<in>gaddrs c - {ga}. cg_totalBytes (c_group c x))"
    using finite_gaddrs by (rule sum.remove [rotated])
  then show ?thesis using assms(2) unfolding bytes_ok_def evicted_gaddrs [OF assms(1,3)] by simp
qed

lemma node_unique: "distinct (map fst xs) \<Longrightarrow> (n, x) \<in> set xs \<Longrightarrow> (n, y) \<in> set xs \<Longrightarrow> x = y"
  by (rule eq_key_imp_eq_value)

lemma evicted_lru:
  assumes h: "heap_ok c" and l: "lru_ok c" and r: "reg c f ta gid ga"
  shows "lru_ok (evicted_group env ta gid ga c)"
proof (rule lru_okI, unfold evicted_reg evicted_fields)
  have mf: "hm_find (c_map c) f = Some ta" using r by (simp add: reg_def)
  have same: "ga' = ga" if "reg c f' ta gid ga'" for f' ga' using that r by (simp add: reg_def)
  have flds: "x \<in> set (case v of None \<Rightarrow> xs | Some n \<Rightarrow> erase_node n xs) \<longleftrightarrow> x \<in> set xs \<and> v \<noteq> Some (fst x)" for x :: "nat \<times> 'k" and v xs
    by (auto split: option.split)
  show "distinct (map fst (case cg_globalLru (c_group c ga) of None \<Rightarrow> c_globalGroupLRU c | Some n \<Rightarrow> erase_node n (c_globalGroupLRU c)))"
    using lru_okD(1) [OF l] by (auto split: option.split)
  show "n < c_next c \<and> (\<exists>ta' ga'. (reg c f' ta' g ga' \<and> \<not> (ta' = ta \<and> g = gid)) \<and> cg_globalLru (c_group c ga') = Some n)"
    if "(n, f', g) \<in> set (case cg_globalLru (c_group c ga) of None \<Rightarrow> c_globalGroupLRU c | Some n \<Rightarrow> erase_node n (c_globalGroupLRU c))" for n f' g
    using lru_okD(2) [OF l, of n f' g] that same unfolding flds by force
  show "(n, f', g) \<in> set (case cg_globalLru (c_group c ga) of None \<Rightarrow> c_globalGroupLRU c | Some n \<Rightarrow> erase_node n (c_globalGroupLRU c))"
    if a: "reg c f' ta' g ga' \<and> \<not> (ta' = ta \<and> g = gid)" "cg_globalLru (c_group c ga') = Some n" for f' ta' g ga' n
  proof -
    have m: "(n, f', g) \<in> set (c_globalGroupLRU c)" using lru_okD(3) [OF l] a by blast
    have "cg_globalLru (c_group c ga) \<noteq> Some n"
    proof
      assume "cg_globalLru (c_group c ga) = Some n"
      then have "(n, f, gid) \<in> set (c_globalGroupLRU c)" using lru_okD(3) [OF l r] by blast
      from node_unique [OF lru_okD(1) [OF l] m this] have "f' = f" "g = gid" by simp_all
      then show False using a(1) mf by (auto simp: reg_def)
    qed
    then show ?thesis using m unfolding flds by simp
  qed
  show "(n, g) \<in> set (if ta' = ta then (case cg_lru (c_group c ga) of None \<Rightarrow> ct_groupLRU (c_track c ta) | Some n \<Rightarrow> erase_node n (ct_groupLRU (c_track c ta))) else ct_groupLRU (c_track c ta'))"
    if a: "reg c f' ta' g ga' \<and> \<not> (ta' = ta \<and> g = gid)" "cg_lru (c_group c ga') = Some n" for f' ta' g ga' n
  proof -
    have m: "(n, g) \<in> set (ct_groupLRU (c_track c ta'))" using lru_okD(4) [OF l] a by blast
    have "cg_lru (c_group c ga) \<noteq> Some n" if "ta' = ta"
    proof
      assume "cg_lru (c_group c ga) = Some n"
      then have "(n, gid) \<in> set (ct_groupLRU (c_track c ta))" using lru_okD(4) [OF l r] by blast
      from node_unique [OF lru_okD(6) [OF l mf] _ this] m that have "g = gid" by simp
      then show False using a(1) that by simp
    qed
    then show ?thesis using m by (auto simp: flds)
  qed
  show "cg_lru (c_group c ga') = None \<longleftrightarrow> cg_globalLru (c_group c ga') = None" if "reg c f' ta' g ga' \<and> \<not> (ta' = ta \<and> g = gid)" for f' ta' g ga'
    using lru_okD(5) [OF l] that by blast
  show "distinct (map fst (if ta' = ta then (case cg_lru (c_group c ga) of None \<Rightarrow> ct_groupLRU (c_track c ta) | Some n \<Rightarrow> erase_node n (ct_groupLRU (c_track c ta))) else ct_groupLRU (c_track c ta')))"
    if "hm_find (c_map c) f' = Some ta'" for f' ta'
    using lru_okD(6) [OF l] that by (auto split: option.split)
  show "n < c_next c \<and> (\<exists>ga'. (reg c f' ta' g ga' \<and> \<not> (ta' = ta \<and> g = gid)) \<and> cg_lru (c_group c ga') = Some n)"
    if a: "hm_find (c_map c) f' = Some ta'"
      "(n, g) \<in> set (if ta' = ta then (case cg_lru (c_group c ga) of None \<Rightarrow> ct_groupLRU (c_track c ta) | Some n \<Rightarrow> erase_node n (ct_groupLRU (c_track c ta))) else ct_groupLRU (c_track c ta'))" for f' ta' n g
  proof -
    have m: "(n, g) \<in> set (ct_groupLRU (c_track c ta'))" "ta' = ta \<Longrightarrow> cg_lru (c_group c ga) \<noteq> Some n"
      using a(2) by (auto simp: flds split: if_splits)
    from lru_okD(7) [OF l a(1) m(1)] obtain ga' where "n < c_next c" "reg c f' ta' g ga'" "cg_lru (c_group c ga') = Some n" by blast
    then show ?thesis using m(2) same by blast
  qed
qed

lemma evictGroup_ok:
  assumes "groups_ok c" "hm_find (c_map c) f = Some ta"
  shows "groups_ok (evictGroup env ta gid c)"
proof (cases "hm_find (ct_groups (c_track c ta)) gid")
  case None
  then show ?thesis using assms(1) by (simp add: evictGroup_def)
next
  case (Some ga)
  then have r: "reg c f ta gid ga" using assms(2) by (simp add: reg_def)
  show ?thesis unfolding evictGroup_eq [OF assms(1) r]
    using assms(1) evicted_heap [of c] evicted_bytes [OF _ _ r] evicted_lru [OF _ _ r] by (simp add: groups_ok_def)
qed

text \<open>What evictGroup leaves alone.\<close>

lemma evictGroup_frame:
  assumes "groups_ok c" "hm_find (c_map c) f = Some ta"
  shows "c_map (evictGroup env ta gid c) = c_map c" "c_trackLRU (evictGroup env ta gid c) = c_trackLRU c"
    "c_next (evictGroup env ta gid c) = c_next c" "c_maxBytes (evictGroup env ta gid c) = c_maxBytes c"
    "c_maxGroups (evictGroup env ta gid c) = c_maxGroups c" "c_maxTracks (evictGroup env ta gid c) = c_maxTracks c"
    "c_total (evictGroup env ta gid c) \<le> c_total c"
    "ct_lru (c_track (evictGroup env ta gid c) ta') = ct_lru (c_track c ta')"
    "length (c_globalGroupLRU (evictGroup env ta gid c)) \<le> length (c_globalGroupLRU c)"
    "ct_groups (c_track (evictGroup env ta gid c) ta) = hm_erase gid (ct_groups (c_track c ta))"
    "c_group (evictGroup env ta gid c) = c_group c"
proof -
  have l: "length (erase_node n xs) \<le> length xs" for n and xs :: "(nat \<times> 'z) list" by (simp add: erase_node_def)
  show "c_map (evictGroup env ta gid c) = c_map c" "c_trackLRU (evictGroup env ta gid c) = c_trackLRU c"
    "c_next (evictGroup env ta gid c) = c_next c" "c_maxBytes (evictGroup env ta gid c) = c_maxBytes c"
    "c_maxGroups (evictGroup env ta gid c) = c_maxGroups c" "c_maxTracks (evictGroup env ta gid c) = c_maxTracks c"
    "c_total (evictGroup env ta gid c) \<le> c_total c"
    "ct_lru (c_track (evictGroup env ta gid c) ta') = ct_lru (c_track c ta')"
    "length (c_globalGroupLRU (evictGroup env ta gid c)) \<le> length (c_globalGroupLRU c)"
    "ct_groups (c_track (evictGroup env ta gid c) ta) = hm_erase gid (ct_groups (c_track c ta))"
    "c_group (evictGroup env ta gid c) = c_group c"
  proof (cases "hm_find (ct_groups (c_track c ta)) gid", goal_cases)
  qed (use evictGroup_eq [OF assms(1), of f ta gid _ env] assms(2) l in
      \<open>auto simp: evictGroup_def reg_def delete_id map_of_eq_None_iff split: option.split\<close>)
qed

definition groups_shrunk :: "nat \<Rightarrow> nat list \<Rightarrow> ('f, 'x, 'is) cache \<Rightarrow> ('f, 'x, 'is) cache \<Rightarrow> bool" where
  "groups_shrunk ta gs c c' \<longleftrightarrow> groups_ok c' \<and> c_map c' = c_map c \<and> c_trackLRU c' = c_trackLRU c \<and> c_next c' = c_next c \<and>
    c_maxBytes c' = c_maxBytes c \<and> c_maxGroups c' = c_maxGroups c \<and> c_maxTracks c' = c_maxTracks c \<and> c_total c' \<le> c_total c \<and>
    (\<forall>ta'. ct_lru (c_track c' ta') = ct_lru (c_track c ta')) \<and> length (c_globalGroupLRU c') \<le> length (c_globalGroupLRU c) \<and>
    ct_groups (c_track c' ta) = fold hm_erase gs (ct_groups (c_track c ta)) \<and> c_group c' = c_group c"

lemma fold_evictGroup:
  assumes "groups_ok c" "hm_find (c_map c) f = Some ta"
  shows "groups_shrunk ta gs c (fold (evictGroup env ta) gs c)"
  using assms
proof (induction gs arbitrary: c)
  case Nil
  then show ?case by (simp add: groups_shrunk_def)
next
  case (Cons g gs)
  note e = evictGroup_frame [OF Cons.prems, of env g] evictGroup_ok [OF Cons.prems, of env g]
  have "groups_shrunk ta gs (evictGroup env ta g c) (fold (evictGroup env ta) gs (evictGroup env ta g c))"
    using Cons.IH [OF e(12)] Cons.prems(2) e(1) by simp
  then show ?case using e by (simp add: groups_shrunk_def)
qed

lemma fold_erase_all: "fold hm_erase (hm_keys xs) xs = []"
proof -
  have "set (hm_keys (fold hm_erase ks xs)) = set (hm_keys xs) - set ks" for ks :: "'a list" and xs :: "('a, 'b) hmap"
    by (induction ks arbitrary: xs) (auto simp: hm_keys_erase simp del: set_map)
  from this [of "hm_keys xs" xs] show ?thesis by simp
qed

subsection \<open>Evicting a track\<close>

text \<open>The parts of the invariant on groups do not read these fields.\<close>

lemma groups_ok_cong:
  assumes "c_map c' = c_map c" "c_group c' = c_group c" "c_globalGroupLRU c' = c_globalGroupLRU c" "c_total c' = c_total c"
    "c_next c \<le> c_next c'" "c_crashed c' = c_crashed c"
    "\<And>ta. ct_groups (c_track c' ta) = ct_groups (c_track c ta)" "\<And>ta. ct_groupLRU (c_track c' ta) = ct_groupLRU (c_track c ta)"
    and ok: "groups_ok c"
  shows "groups_ok c'"
proof -
  have r: "reg c' f ta g ga = reg c f ta g ga" for f ta g ga by (simp add: reg_def assms(1,7))
  then have "gaddrs c' = gaddrs c" by (simp add: gaddrs_def)
  then have "bytes_ok c'" using ok by (simp add: groups_ok_def bytes_ok_def assms(2,4))
  moreover have "heap_ok c'"
  proof -
    have h: "heap_ok c" using ok by (simp add: groups_ok_def)
    note lt = less_le_trans [OF _ assms(5)]
    show ?thesis
      by (rule heap_okI, unfold r assms(1,7))
        (rule heap_okD(1) [OF h] heap_okD(2) [OF h], assumption?, assumption?
         | rule lt, rule heap_okD(3,6) [OF h], assumption | rule heap_okD(4) [OF h], assumption | rule heap_okD(5) [OF h], assumption, assumption)+
  qed
  moreover have "lru_ok c'"
  proof (rule lru_okI, unfold r assms(1,2,3,8))
    have l: "lru_ok c" using ok by (simp add: groups_ok_def)
    note d = lru_okD [OF l]
    show "distinct (map fst (c_globalGroupLRU c))" by (rule d(1))
    show "n < c_next c' \<and> (\<exists>ta ga. reg c f ta g ga \<and> cg_globalLru (c_group c ga) = Some n)" if "(n, f, g) \<in> set (c_globalGroupLRU c)" for n f g
      using d(2) [OF that] assms(5) by auto
    show "(n, f, g) \<in> set (c_globalGroupLRU c)" if "reg c f ta g ga" "cg_globalLru (c_group c ga) = Some n" for f ta g ga n
      using d(3) [OF that] .
    show "(n, g) \<in> set (ct_groupLRU (c_track c ta))" if "reg c f ta g ga" "cg_lru (c_group c ga) = Some n" for f ta g ga n
      using d(4) [OF that] .
    show "cg_lru (c_group c ga) = None \<longleftrightarrow> cg_globalLru (c_group c ga) = None" if "reg c f ta g ga" for f ta g ga
      using d(5) [OF that] .
    show "distinct (map fst (ct_groupLRU (c_track c ta)))" if "hm_find (c_map c) f = Some ta" for f ta
      using d(6) [OF that] .
    show "n < c_next c' \<and> (\<exists>ga. reg c f ta g ga \<and> cg_lru (c_group c ga) = Some n)"
      if "hm_find (c_map c) f = Some ta" "(n, g) \<in> set (ct_groupLRU (c_track c ta))" for f ta n g
      using d(7) [OF that] assms(5) by auto
  qed
  ultimately show ?thesis using ok assms(6) by (simp add: groups_ok_def)
qed

text \<open>Dropping a track that has no groups left.\<close>

lemma erase_track_ok:
  assumes ok: "groups_ok c" and f: "hm_find (c_map c) f = Some ta" and e: "ct_groups (c_track c ta) = []"
  shows "groups_ok (c\<lparr>c_map := hm_erase f (c_map c)\<rparr>)"
proof -
  let ?c = "c\<lparr>c_map := hm_erase f (c_map c)\<rparr>"
  have no: "\<not> reg c f ta' g ga" for ta' g ga using f e by (auto simp: reg_def)
  have r: "reg ?c f' ta' g ga = reg c f' ta' g ga" for f' ta' g ga using no by (auto simp: reg_def)
  have h: "heap_ok c" and l: "lru_ok c" and b: "bytes_ok c" and x: "\<not> c_crashed c" using ok by (simp_all add: groups_ok_def)
  have "gaddrs ?c = gaddrs c" by (simp add: gaddrs_def r)
  then have "bytes_ok ?c" using b by (simp add: bytes_ok_def)
  moreover have "heap_ok ?c"
  proof (rule heap_okI)
    show "distinct (hm_keys (c_map ?c))" using heap_okD(1) [OF h] by simp
    show "f1 = f2" if "hm_find (c_map ?c) f1 = Some t" "hm_find (c_map ?c) f2 = Some t" for f1 f2 t
      using that heap_okD(2) [OF h, of f1 t f2] by (simp split: if_splits)
    show "t < c_next ?c" if "hm_find (c_map ?c) f1 = Some t" for f1 t
      using that heap_okD(3) [OF h, of f1 t] by (simp split: if_splits)
    show "distinct (hm_keys (ct_groups (c_track ?c t)))" if "hm_find (c_map ?c) f1 = Some t" for f1 t
      using that heap_okD(4) [OF h, of f1 t] by (simp split: if_splits)
    show "f1 = f2 \<and> g1 = g2" if "reg ?c f1 t1 g1 ga" "reg ?c f2 t2 g2 ga" for f1 t1 g1 ga f2 t2 g2
      using that heap_okD(5) [OF h] unfolding r by blast
    show "ga < c_next ?c" if "reg ?c f1 t1 g1 ga" for f1 t1 g1 ga
      using that heap_okD(6) [OF h] unfolding r by simp
  qed
  moreover have "lru_ok ?c"
  proof (rule lru_okI, unfold r)
    note d = lru_okD [OF l]
    show "distinct (map fst (c_globalGroupLRU ?c))" using d(1) by simp
    show "n < c_next ?c \<and> (\<exists>ta ga. reg c f' ta g ga \<and> cg_globalLru (c_group ?c ga) = Some n)" if "(n, f', g) \<in> set (c_globalGroupLRU ?c)" for n f' g
      using d(2) [of n f' g] that by simp
    show "(n, f', g) \<in> set (c_globalGroupLRU ?c)" if "reg c f' t g ga" "cg_globalLru (c_group ?c ga) = Some n" for f' t g ga n
      using d(3) [OF that(1)] that(2) by simp
    show "(n, g) \<in> set (ct_groupLRU (c_track ?c t))" if "reg c f' t g ga" "cg_lru (c_group ?c ga) = Some n" for f' t g ga n
      using d(4) [OF that(1)] that(2) by simp
    show "cg_lru (c_group ?c ga) = None \<longleftrightarrow> cg_globalLru (c_group ?c ga) = None" if "reg c f' t g ga" for f' t g ga
      using d(5) [OF that] by simp
    show "distinct (map fst (ct_groupLRU (c_track ?c t)))" if "hm_find (c_map ?c) f' = Some t" for f' t
      using d(6) [of f' t] that by (simp split: if_splits)
    show "n < c_next ?c \<and> (\<exists>ga. reg c f' t g ga \<and> cg_lru (c_group ?c ga) = Some n)"
      if "hm_find (c_map ?c) f' = Some t" "(n, g) \<in> set (ct_groupLRU (c_track ?c t))" for f' t n g
      using d(7) [of f' t n g] that by (simp split: if_splits)
  qed
  ultimately show ?thesis using x by (simp add: groups_ok_def)
qed

lemma evictTrack_ok:
  assumes ok: "cache_ok c"
  shows "cache_ok (snd (evictTrack env f c))" "c_total (snd (evictTrack env f c)) \<le> c_total c"
    "length (c_globalGroupLRU (snd (evictTrack env f c))) \<le> length (c_globalGroupLRU c)"
    "c_map (snd (evictTrack env f c)) = hm_erase f (c_map c)"
    "c_maxBytes (snd (evictTrack env f c)) = c_maxBytes c" "c_maxTracks (snd (evictTrack env f c)) = c_maxTracks c"
    "c_maxGroups (snd (evictTrack env f c)) = c_maxGroups c"
proof -
  have "cache_ok (snd (evictTrack env f c)) \<and> c_total (snd (evictTrack env f c)) \<le> c_total c \<and>
    length (c_globalGroupLRU (snd (evictTrack env f c))) \<le> length (c_globalGroupLRU c) \<and>
    c_map (snd (evictTrack env f c)) = hm_erase f (c_map c) \<and>
    c_maxBytes (snd (evictTrack env f c)) = c_maxBytes c \<and> c_maxTracks (snd (evictTrack env f c)) = c_maxTracks c \<and>
    c_maxGroups (snd (evictTrack env f c)) = c_maxGroups c"
  proof (cases "hm_find (c_map c) f")
    case None
    then have "evictTrack env f c = (0, c)" by (simp add: evictTrack_def)
    moreover have "hm_erase f (c_map c) = c_map c" using None by (simp add: delete_id map_of_eq_None_iff)
    ultimately show ?thesis using ok by simp
  next
    case (Some ta)
    define c1 where "c1 = upd_track ta (\<lambda>t. t\<lparr>ct_evicted := True\<rparr>) c"
    define lr where "lr = (case ct_lru (c_track c ta) of None \<Rightarrow> c_trackLRU c | Some n \<Rightarrow> erase_node n (c_trackLRU c))"
    define c2 where "c2 = c1\<lparr>c_trackLRU := lr\<rparr>"
    define c3 where "c3 = fold (evictGroup env ta) (hm_keys (ct_groups (c_track c ta))) c2"
    define c4 where "c4 = c3\<lparr>c_map := hm_erase f (c_map c3)\<rparr>"
    have tl: "track_lru_ok c" and g: "groups_ok c" using ok by (simp_all add: cache_ok_def)
    have n: "has_node n (c_trackLRU c)" if "ct_lru (c_track c ta) = Some n" for n
    proof -
      have "(n, f) \<in> set (c_trackLRU c)" using tl Some that by (simp add: track_lru_ok_def)
      then show ?thesis by (force simp: has_node_def)
    qed
    have ev: "snd (evictTrack env f c) = c4"
      using n by (cases "ct_lru (c_track c ta)")
        (simp_all add: evictTrack_def Some c4_def c3_def c2_def c1_def lr_def upd_track_def check_def Let_def)
    have "groups_ok c2" by (rule groups_ok_cong [OF _ _ _ _ _ _ _ _ g]) (simp_all add: c2_def c1_def upd_track_def)
    moreover have "hm_find (c_map c2) f = Some ta" by (simp add: c2_def c1_def upd_track_def Some)
    ultimately have s: "groups_shrunk ta (hm_keys (ct_groups (c_track c ta))) c2 c3" unfolding c3_def by (rule fold_evictGroup)
    have "ct_groups (c_track c2 ta) = ct_groups (c_track c ta)" by (simp add: c2_def c1_def upd_track_def)
    then have "ct_groups (c_track c3 ta) = []" using s fold_erase_all [of "ct_groups (c_track c ta)"] by (simp add: groups_shrunk_def)
    moreover have "hm_find (c_map c3) f = Some ta" using s \<open>hm_find (c_map c2) f = Some ta\<close> by (simp add: groups_shrunk_def)
    ultimately have "groups_ok c4" unfolding c4_def using s by (intro erase_track_ok) (simp_all add: groups_shrunk_def)
    moreover have m: "c_map c4 = hm_erase f (c_map c)" "c_trackLRU c4 = lr" "c_next c4 = c_next c" "\<And>t. ct_lru (c_track c4 t) = ct_lru (c_track c t)"
      "c_total c4 \<le> c_total c" "length (c_globalGroupLRU c4) \<le> length (c_globalGroupLRU c)" "c_maxBytes c4 = c_maxBytes c"
      "c_maxTracks c4 = c_maxTracks c" "c_maxGroups c4 = c_maxGroups c"
      using s by (simp_all add: groups_shrunk_def c4_def c2_def c1_def upd_track_def)
    moreover have "track_lru_ok c4"
    proof -
      have d: "distinct (map fst lr)" using tl by (auto simp: lr_def track_lru_ok_def split: option.split)
      have in_lr: "x \<in> set lr \<longleftrightarrow> x \<in> set (c_trackLRU c) \<and> ct_lru (c_track c ta) \<noteq> Some (fst x)" for x
        by (auto simp: lr_def split: option.split)
      have "n < c_next c \<and> (\<exists>t. hm_find (hm_erase f (c_map c)) f' = Some t \<and> ct_lru (c_track c t) = Some n)" if "(n, f') \<in> set lr" for n f'
      proof -
        from that obtain t where t: "n < c_next c" "hm_find (c_map c) f' = Some t" "ct_lru (c_track c t) = Some n" "ct_lru (c_track c ta) \<noteq> Some n"
          using tl unfolding track_lru_ok_def in_lr by fastforce
        then have "f' \<noteq> f" using Some by auto
        then show ?thesis using t by simp
      qed
      moreover have "(n, f') \<in> set lr" if "hm_find (hm_erase f (c_map c)) f' = Some t" "ct_lru (c_track c t) = Some n" for f' t n
      proof -
        from that have f': "f' \<noteq> f" "hm_find (c_map c) f' = Some t" by (simp_all split: if_splits)
        then have mem: "(n, f') \<in> set (c_trackLRU c)" using tl that(2) unfolding track_lru_ok_def by blast
        have "ct_lru (c_track c ta) \<noteq> Some n"
        proof
          assume "ct_lru (c_track c ta) = Some n"
          then have "(n, f) \<in> set (c_trackLRU c)" using tl Some unfolding track_lru_ok_def by blast
          then show False using node_unique [OF _ mem] tl f'(1) by (auto simp: track_lru_ok_def)
        qed
        then show ?thesis using mem by (simp add: in_lr)
      qed
      ultimately show ?thesis unfolding track_lru_ok_def m using d by blast
    qed
    ultimately show ?thesis unfolding ev cache_ok_def by simp
  qed
  then show "cache_ok (snd (evictTrack env f c))" "c_total (snd (evictTrack env f c)) \<le> c_total c"
    "length (c_globalGroupLRU (snd (evictTrack env f c))) \<le> length (c_globalGroupLRU c)"
    "c_map (snd (evictTrack env f c)) = hm_erase f (c_map c)"
    "c_maxBytes (snd (evictTrack env f c)) = c_maxBytes c" "c_maxTracks (snd (evictTrack env f c)) = c_maxTracks c"
    "c_maxGroups (snd (evictTrack env f c)) = c_maxGroups c" by simp_all
qed

subsection \<open>The eviction loops end\<close>

lemma track_lru_cong:
  assumes "c_map c' = c_map c" "c_trackLRU c' = c_trackLRU c" "c_next c \<le> c_next c'" "\<And>ta. ct_lru (c_track c' ta) = ct_lru (c_track c ta)"
    "track_lru_ok c"
  shows "track_lru_ok c'"
  using assms(5) unfolding track_lru_ok_def assms(1,2,4) by (meson assms(3) less_le_trans)

lemma evictGroup_cache_ok:
  assumes "cache_ok c" "hm_find (c_map c) f = Some ta"
  shows "cache_ok (evictGroup env ta gid c)"
proof -
  have g: "groups_ok c" "track_lru_ok c" using assms(1) by (simp_all add: cache_ok_def)
  note fr = evictGroup_frame [OF g(1) assms(2), of env gid]
  have "track_lru_ok (evictGroup env ta gid c)" by (rule track_lru_cong [OF _ _ _ _ g(2)]) (simp_all add: fr)
  then show ?thesis using evictGroup_ok [OF g(1) assms(2)] by (simp add: cache_ok_def)
qed

lemma erase_node_less: "(n, x) \<in> set xs \<Longrightarrow> length (erase_node n xs) < length xs"
  unfolding erase_node_def by (rule length_filter_less) auto

lemma last_registered:
  assumes "groups_ok c" "c_globalGroupLRU c \<noteq> []"
  obtains n f g ta ga where "last (c_globalGroupLRU c) = (n, f, g)" "(n, f, g) \<in> set (c_globalGroupLRU c)"
    "reg c f ta g ga" "cg_globalLru (c_group c ga) = Some n"
proof -
  obtain n f g where l: "last (c_globalGroupLRU c) = (n, f, g)" by (cases "last (c_globalGroupLRU c)") auto
  have m: "(n, f, g) \<in> set (c_globalGroupLRU c)" using last_in_set [OF assms(2)] l by simp
  from lru_okD(2) [of c n f g] assms(1) m show thesis using that [OF l m] by (auto simp: groups_ok_def)
qed

lemma evict_bytes_step_ok:
  assumes ok: "cache_ok c" and ne: "c_globalGroupLRU c \<noteq> []"
  shows "cache_ok (evict_bytes_step env c) \<and> length (c_globalGroupLRU (evict_bytes_step env c)) < length (c_globalGroupLRU c) \<and>
    c_total (evict_bytes_step env c) \<le> c_total c \<and> c_maxBytes (evict_bytes_step env c) = c_maxBytes c"
proof -
  have g: "groups_ok c" using ok by (simp add: cache_ok_def)
  obtain n f gid ta ga where l: "last (c_globalGroupLRU c) = (n, f, gid)" "(n, f, gid) \<in> set (c_globalGroupLRU c)"
    "reg c f ta gid ga" "cg_globalLru (c_group c ga) = Some n"
    using last_registered [OF g ne] by blast
  have f: "hm_find (c_map c) f = Some ta" using l(3) by (simp add: reg_def)
  define c1 where "c1 = evictGroup env ta gid c"
  have "c1 = evicted_group env ta gid ga c" unfolding c1_def by (rule evictGroup_eq [OF g l(3)])
  then have len: "length (c_globalGroupLRU c1) < length (c_globalGroupLRU c)" using l(4) erase_node_less [OF l(2)] by simp
  have ok1: "cache_ok c1" unfolding c1_def by (rule evictGroup_cache_ok [OF ok f])
  note fr = evictGroup_frame [OF g f, of env gid, folded c1_def]
  have e: "evict_bytes_step env c = (if ct_groups (c_track c1 ta) = [] \<and> canEvict (c_track c1 ta) then snd (evictTrack env f c1) else c1)"
    by (simp add: evict_bytes_step_def l(1) f c1_def Let_def)
  show ?thesis unfolding e using ok1 len fr evictTrack_ok [OF ok1, of env f] by auto
qed

subsection \<open>Every operation keeps the books\<close>

lemma new_cache_ok: "cache_ok (new_cache env a b d e :: ('f, 'x, 'is) cache)"
proof -
  define c :: "('f, 'x, 'is) cache" where "c = new_cache env a b d e"
  have f: "c_map c = []" "c_globalGroupLRU c = []" "c_trackLRU c = []" "c_total c = 0" "\<not> c_crashed c" by (simp_all add: c_def new_cache_def)
  have r: "\<not> reg c f ta g ga" for f ta g ga by (simp add: reg_def f)
  then have "gaddrs c = {}" by (auto simp: gaddrs_def)
  then show ?thesis
    unfolding c_def [symmetric] using r f by (simp add: cache_ok_def groups_ok_def track_lru_ok_def heap_ok_def bytes_ok_def lru_ok_def)
qed

lemma cache_ok_cong:
  assumes "c_map c' = c_map c" "c_group c' = c_group c" "c_globalGroupLRU c' = c_globalGroupLRU c" "c_total c' = c_total c"
    "c_next c \<le> c_next c'" "c_crashed c' = c_crashed c" "c_trackLRU c' = c_trackLRU c"
    "\<And>ta. ct_groups (c_track c' ta) = ct_groups (c_track c ta)" "\<And>ta. ct_groupLRU (c_track c' ta) = ct_groupLRU (c_track c ta)"
    "\<And>ta. ct_lru (c_track c' ta) = ct_lru (c_track c ta)"
    and ok: "cache_ok c"
  shows "cache_ok c'"
  using groups_ok_cong [OF assms(1-6,8,9)] track_lru_cong [OF assms(1,7,5,10)] ok by (simp add: cache_ok_def)

lemma upd_track_ok:
  assumes "cache_ok c" "\<And>t. ct_groups (h t) = ct_groups t" "\<And>t. ct_groupLRU (h t) = ct_groupLRU t" "\<And>t. ct_lru (h t) = ct_lru t"
  shows "cache_ok (upd_track ta h c)"
  by (rule cache_ok_cong [OF _ _ _ _ _ _ _ _ _ _ assms(1)]) (simp_all add: upd_track_def assms(2-4))

lemma track_lru_okD:
  assumes "track_lru_ok c"
  shows "distinct (map fst (c_trackLRU c))"
    "(n, f) \<in> set (c_trackLRU c) \<Longrightarrow> n < c_next c \<and> (\<exists>ta. hm_find (c_map c) f = Some ta \<and> ct_lru (c_track c ta) = Some n)"
    "hm_find (c_map c) f = Some ta \<Longrightarrow> ct_lru (c_track c ta) = Some n \<Longrightarrow> (n, f) \<in> set (c_trackLRU c)"
proof -
  note l = assms [unfolded track_lru_ok_def]
  show "distinct (map fst (c_trackLRU c))" using l by (elim conjE)
  show "(n, f) \<in> set (c_trackLRU c) \<Longrightarrow> n < c_next c \<and> (\<exists>ta. hm_find (c_map c) f = Some ta \<and> ct_lru (c_track c ta) = Some n)"
    using conjunct1 [OF conjunct2 [OF l]] by iprover
  show "hm_find (c_map c) f = Some ta \<Longrightarrow> ct_lru (c_track c ta) = Some n \<Longrightarrow> (n, f) \<in> set (c_trackLRU c)"
    using conjunct2 [OF conjunct2 [OF l]] by iprover
qed

lemma addTrackToLRU_ok:
  assumes ok: "cache_ok c" and f: "hm_find (c_map c) f = Some ta"
  shows "cache_ok (addTrackToLRU f ta c)"
proof (cases "ct_lru (c_track c ta)")
  case (Some n)
  then show ?thesis using ok by (simp add: addTrackToLRU_def)
next
  case None
  let ?c = "addTrackToLRU f ta c"
  have g: "groups_ok c" and tl: "track_lru_ok c" using ok by (simp_all add: cache_ok_def)
  have h: "heap_ok c" using g by (simp add: groups_ok_def)
  note d = track_lru_okD [OF tl]
  have fl: "c_map ?c = c_map c" "c_trackLRU ?c = (c_next c, f) # c_trackLRU c" "c_next ?c = c_next c + 1"
    "\<And>t. ct_lru (c_track ?c t) = (if t = ta then Some (c_next c) else ct_lru (c_track c t))"
    using None by (simp_all add: addTrackToLRU_def upd_track_def)
  have "groups_ok ?c" by (rule groups_ok_cong [OF _ _ _ _ _ _ _ _ g]) (simp_all add: addTrackToLRU_def upd_track_def)
  moreover have "track_lru_ok ?c"
  proof -
    have "c_next c \<notin> set (map fst (c_trackLRU c))" using d(2) by force
    then have "distinct (map fst (c_trackLRU ?c))" using d(1) fl by simp
    moreover have "n < c_next ?c \<and> (\<exists>t. hm_find (c_map ?c) f' = Some t \<and> ct_lru (c_track ?c t) = Some n)" if "(n, f') \<in> set (c_trackLRU ?c)" for n f'
    proof (cases "(n, f') = (c_next c, f)")
      case False
      then have "(n, f') \<in> set (c_trackLRU c)" using that fl(2) by auto
      then obtain t where t: "n < c_next c" "hm_find (c_map c) f' = Some t" "ct_lru (c_track c t) = Some n" using d(2) by blast
      then have "t \<noteq> ta" using None by auto
      then show ?thesis using t fl by simp
    qed (use f fl in simp)
    moreover have "(n, f') \<in> set (c_trackLRU ?c)" if "hm_find (c_map ?c) f' = Some t" "ct_lru (c_track ?c t) = Some n" for f' t n
    proof (cases "t = ta")
      case True
      then have "f' = f" using heap_okD(2) [OF h, of f' ta f] that f fl(1) by simp
      then show ?thesis using that True fl by simp
    next
      case False
      then show ?thesis using d(3) [of f' t n] that fl by simp
    qed
    ultimately show ?thesis unfolding track_lru_ok_def by blast
  qed
  ultimately show ?thesis by (simp add: cache_ok_def)
qed

lemma removeTrackFromLRU_ok:
  assumes ok: "cache_ok c" and f: "hm_find (c_map c) f = Some ta"
  shows "cache_ok (removeTrackFromLRU ta c)"
proof (cases "ct_lru (c_track c ta)")
  case None
  then show ?thesis using ok by (simp add: removeTrackFromLRU_def)
next
  case (Some n)
  let ?c = "removeTrackFromLRU ta c"
  have g: "groups_ok c" and tl: "track_lru_ok c" using ok by (simp_all add: cache_ok_def)
  have h: "heap_ok c" using g by (simp add: groups_ok_def)
  note d = track_lru_okD [OF tl]
  have m: "(n, f) \<in> set (c_trackLRU c)" using d(3) [OF f Some] .
  then have hn: "has_node n (c_trackLRU c)" by (force simp: has_node_def)
  have fl: "c_map ?c = c_map c" "c_trackLRU ?c = erase_node n (c_trackLRU c)" "c_next ?c = c_next c"
    "\<And>t. ct_lru (c_track ?c t) = (if t = ta then None else ct_lru (c_track c t))"
    using Some hn by (simp_all add: removeTrackFromLRU_def upd_track_def check_def)
  have "groups_ok ?c" by (rule groups_ok_cong [OF _ _ _ _ _ _ _ _ g]) (use Some hn in \<open>simp_all add: removeTrackFromLRU_def upd_track_def check_def\<close>)
  moreover have "track_lru_ok ?c"
  proof -
    have "distinct (map fst (c_trackLRU ?c))" using d(1) fl by simp
    moreover have "k < c_next ?c \<and> (\<exists>t. hm_find (c_map ?c) f' = Some t \<and> ct_lru (c_track ?c t) = Some k)" if "(k, f') \<in> set (c_trackLRU ?c)" for k f'
    proof -
      from that fl have "(k, f') \<in> set (c_trackLRU c)" "k \<noteq> n" by simp_all
      then obtain t where "k < c_next c" "hm_find (c_map c) f' = Some t" "ct_lru (c_track c t) = Some k" using d(2) by blast
      moreover from this have "t \<noteq> ta" using Some \<open>k \<noteq> n\<close> by auto
      ultimately show ?thesis using fl by simp
    qed
    moreover have "(k, f') \<in> set (c_trackLRU ?c)" if "hm_find (c_map ?c) f' = Some t" "ct_lru (c_track ?c t) = Some k" for f' t k
    proof -
      from that fl have t: "t \<noteq> ta" "hm_find (c_map c) f' = Some t" "ct_lru (c_track c t) = Some k" by (auto split: if_splits)
      then have mk: "(k, f') \<in> set (c_trackLRU c)" using d(3) by blast
      have "k \<noteq> n" using node_unique [OF d(1) m] mk t f by auto
      then show ?thesis using mk fl by simp
    qed
    ultimately show ?thesis unfolding track_lru_ok_def by blast
  qed
  ultimately show ?thesis by (simp add: cache_ok_def)
qed

lemma onTrackBecameEvictable_ok: "cache_ok c \<Longrightarrow> cache_ok (onTrackBecameEvictable f c)"
  by (simp add: onTrackBecameEvictable_def addTrackToLRU_ok split: option.split)

lemma evictOldestTrack_ok: "cache_ok c \<Longrightarrow> cache_ok (snd (evictOldestTrackIfNeeded env c))"
  by (simp add: evictOldestTrackIfNeeded_def evictTrack_ok)

lemma bytes_ok_same:
  assumes "bytes_ok c" "gaddrs c' = gaddrs c" "c_total c' = c_total c"
    "\<And>ga. cg_totalBytes (c_group c' ga) = cg_totalBytes (c_group c ga)" "\<And>ga. cg_objects (c_group c' ga) = cg_objects (c_group c ga)"
  shows "bytes_ok c'"
  using assms by (simp add: bytes_ok_def group_ok_def group_bytes_def)

lemma addGroupToLRU_ok:
  assumes ok: "cache_ok c" and r: "reg c f ta gid ga"
  shows "cache_ok (addGroupToLRU f gid ga ta c)"
proof (cases "cg_lru (c_group c ga)")
  case (Some n)
  then show ?thesis using ok by (simp add: addGroupToLRU_def)
next
  case None
  let ?c = "addGroupToLRU f gid ga ta c" and ?n = "c_next c" and ?m = "c_next c + 1"
  have h: "heap_ok c" and b: "bytes_ok c" and l: "lru_ok c" and x: "\<not> c_crashed c" and tl: "track_lru_ok c"
    using ok by (simp_all add: cache_ok_def groups_ok_def)
  note d = lru_okD [OF l]
  have gn: "cg_globalLru (c_group c ga) = None" using d(5) [OF r] None by simp
  have fta: "hm_find (c_map c) f = Some ta" using r by (simp add: reg_def)
  have fl: "c_map ?c = c_map c" "c_total ?c = c_total c" "c_crashed ?c = c_crashed c" "c_trackLRU ?c = c_trackLRU c" "c_next ?c = c_next c + 2"
    "c_globalGroupLRU ?c = (?m, f, gid) # c_globalGroupLRU c"
    "\<And>t. ct_groups (c_track ?c t) = ct_groups (c_track c t)" "\<And>t. ct_lru (c_track ?c t) = ct_lru (c_track c t)"
    "\<And>t. ct_groupLRU (c_track ?c t) = (if t = ta then (?n, gid) # ct_groupLRU (c_track c ta) else ct_groupLRU (c_track c t))"
    "\<And>a. cg_lru (c_group ?c a) = (if a = ga then Some ?n else cg_lru (c_group c a))"
    "\<And>a. cg_globalLru (c_group ?c a) = (if a = ga then Some ?m else cg_globalLru (c_group c a))"
    "\<And>a. cg_totalBytes (c_group ?c a) = cg_totalBytes (c_group c a)" "\<And>a. cg_objects (c_group ?c a) = cg_objects (c_group c a)"
    using None by (simp_all add: addGroupToLRU_def Let_def upd_track_def upd_group_def)
  have rg: "reg ?c f' t g a = reg c f' t g a" for f' t g a by (simp add: reg_def fl)
  have uniq: "f' = f \<and> g' = gid" if "reg c f' t g' ga" for f' t g' using heap_okD(5) [OF h that r] .
  have "bytes_ok ?c" by (rule bytes_ok_same [OF b]) (simp_all add: fl gaddrs_def rg)
  moreover have "heap_ok ?c"
    by (rule heap_okI, unfold rg fl) (use heap_okD [OF h] in \<open>blast intro: trans_less_add1\<close>)+
  moreover have "lru_ok ?c"
  proof (rule lru_okI, unfold rg)
    have "?m \<notin> set (map fst (c_globalGroupLRU c))" using d(2) by force
    then show "distinct (map fst (c_globalGroupLRU ?c))" using d(1) by (simp add: fl)
    show "k < c_next ?c \<and> (\<exists>t a. reg c f' t g a \<and> cg_globalLru (c_group ?c a) = Some k)" if "(k, f', g) \<in> set (c_globalGroupLRU ?c)" for k f' g
    proof (cases "(k, f', g) = (?m, f, gid)")
      case False
      then have "(k, f', g) \<in> set (c_globalGroupLRU c)" using that fl by auto
      then obtain t a where t: "k < c_next c" "reg c f' t g a" "cg_globalLru (c_group c a) = Some k" using d(2) by blast
      then have "a \<noteq> ga" using gn by auto
      then show ?thesis using t fl by auto
    qed (use r fl in auto)
    show "(k, f', g) \<in> set (c_globalGroupLRU ?c)" if "reg c f' t g a" "cg_globalLru (c_group ?c a) = Some k" for f' t g a k
      using that uniq d(3) [OF that(1)] by (auto simp: fl split: if_splits)
    show "(k, g) \<in> set (ct_groupLRU (c_track ?c t))" if "reg c f' t g a" "cg_lru (c_group ?c a) = Some k" for f' t g a k
    proof (cases "a = ga")
      case True
      then have "f' = f" "g = gid" using uniq that(1) by blast+
      then have "t = ta" using that(1) fta by (simp add: reg_def)
      then show ?thesis using True that(2) \<open>g = gid\<close> by (simp add: fl)
    next
      case False
      then show ?thesis using d(4) [OF that(1)] that(2) by (auto simp: fl)
    qed
    show "cg_lru (c_group ?c a) = None \<longleftrightarrow> cg_globalLru (c_group ?c a) = None" if "reg c f' t g a" for f' t g a
      using d(5) [OF that] by (simp add: fl)
    have "?n \<notin> set (map fst (ct_groupLRU (c_track c ta)))" using d(7) [OF fta] by force
    then show "distinct (map fst (ct_groupLRU (c_track ?c t)))" if "hm_find (c_map ?c) f' = Some t" for f' t
      using d(6) [of f' t] that by (auto simp: fl)
    show "k < c_next ?c \<and> (\<exists>a. reg c f' t g a \<and> cg_lru (c_group ?c a) = Some k)"
      if a: "hm_find (c_map ?c) f' = Some t" "(k, g) \<in> set (ct_groupLRU (c_track ?c t))" for f' t k g
    proof (cases "t = ta \<and> (k, g) = (?n, gid)")
      case True
      then have "f' = f" using heap_okD(2) [OF h, of f' ta f] a(1) fta by (simp add: fl)
      then show ?thesis using r True fl by auto
    next
      case False
      then have "(k, g) \<in> set (ct_groupLRU (c_track c t))" using a(2) by (auto simp: fl split: if_splits)
      then obtain e where e: "k < c_next c" "reg c f' t g e" "cg_lru (c_group c e) = Some k" using d(7) [of f' t k g] a(1) by (auto simp: fl)
      then have "e \<noteq> ga" using None by auto
      then show ?thesis using e fl by auto
    qed
  qed
  moreover have "track_lru_ok ?c" by (rule track_lru_cong [OF _ _ _ _ tl]) (simp_all add: fl)
  ultimately show ?thesis using x fl by (simp add: cache_ok_def groups_ok_def)
qed

lemma removeGroupFromLRU_ok:
  assumes ok: "cache_ok c" and r: "reg c f ta gid ga"
  shows "cache_ok (removeGroupFromLRU ga ta c)"
proof (cases "cg_lru (c_group c ga)")
  case None
  then show ?thesis using ok by (simp add: removeGroupFromLRU_def)
next
  case (Some n)
  let ?c = "removeGroupFromLRU ga ta c"
  have h: "heap_ok c" and b: "bytes_ok c" and l: "lru_ok c" and x: "\<not> c_crashed c" and tl: "track_lru_ok c"
    using ok by (simp_all add: cache_ok_def groups_ok_def)
  note d = lru_okD [OF l]
  obtain m where m: "cg_globalLru (c_group c ga) = Some m" using d(5) [OF r] Some by auto
  have fta: "hm_find (c_map c) f = Some ta" using r by (simp add: reg_def)
  have en: "(n, gid) \<in> set (ct_groupLRU (c_track c ta))" using d(4) [OF r Some] .
  have em: "(m, f, gid) \<in> set (c_globalGroupLRU c)" using d(3) [OF r m] .
  have hn: "has_node n (ct_groupLRU (c_track c ta))" "has_node m (c_globalGroupLRU c)" using en em by (force simp: has_node_def)+
  have fl: "c_map ?c = c_map c" "c_total ?c = c_total c" "c_crashed ?c = c_crashed c" "c_trackLRU ?c = c_trackLRU c" "c_next ?c = c_next c"
    "c_globalGroupLRU ?c = erase_node m (c_globalGroupLRU c)"
    "\<And>t. ct_groups (c_track ?c t) = ct_groups (c_track c t)" "\<And>t. ct_lru (c_track ?c t) = ct_lru (c_track c t)"
    "\<And>t. ct_groupLRU (c_track ?c t) = (if t = ta then erase_node n (ct_groupLRU (c_track c ta)) else ct_groupLRU (c_track c t))"
    "\<And>a. cg_lru (c_group ?c a) = (if a = ga then None else cg_lru (c_group c a))"
    "\<And>a. cg_globalLru (c_group ?c a) = (if a = ga then None else cg_globalLru (c_group c a))"
    "\<And>a. cg_totalBytes (c_group ?c a) = cg_totalBytes (c_group c a)" "\<And>a. cg_objects (c_group ?c a) = cg_objects (c_group c a)"
    using Some m hn by (simp_all add: removeGroupFromLRU_def Let_def upd_track_def upd_group_def check_def)
  have rg: "reg ?c f' t g a = reg c f' t g a" for f' t g a by (simp add: reg_def fl)
  have uniq: "f' = f \<and> g' = gid" if "reg c f' t g' ga" for f' t g' using heap_okD(5) [OF h that r] .
  have "bytes_ok ?c" by (rule bytes_ok_same [OF b]) (simp_all add: fl gaddrs_def rg)
  moreover have "heap_ok ?c"
    by (rule heap_okI, unfold rg fl) (use heap_okD [OF h] in blast)+
  moreover have "lru_ok ?c"
  proof (rule lru_okI, unfold rg)
    show "distinct (map fst (c_globalGroupLRU ?c))" using d(1) by (simp add: fl)
    show "k < c_next ?c \<and> (\<exists>t a. reg c f' t g a \<and> cg_globalLru (c_group ?c a) = Some k)" if "(k, f', g) \<in> set (c_globalGroupLRU ?c)" for k f' g
    proof -
      from that fl have "(k, f', g) \<in> set (c_globalGroupLRU c)" "k \<noteq> m" by simp_all
      then obtain t a where t: "k < c_next c" "reg c f' t g a" "cg_globalLru (c_group c a) = Some k" using d(2) by blast
      then have "a \<noteq> ga" using m \<open>k \<noteq> m\<close> by auto
      then show ?thesis using t fl by auto
    qed
    show "(k, f', g) \<in> set (c_globalGroupLRU ?c)" if a: "reg c f' t g a" "cg_globalLru (c_group ?c a) = Some k" for f' t g a k
    proof -
      from a fl have na: "a \<noteq> ga" "cg_globalLru (c_group c a) = Some k" by (simp_all split: if_splits)
      then have mem: "(k, f', g) \<in> set (c_globalGroupLRU c)" using d(3) [OF a(1)] by simp
      have "k \<noteq> m"
      proof
        assume "k = m"
        then have "f' = f" "g = gid" using node_unique [OF d(1) mem] em by auto
        then show False using a(1) r na(1) by (simp add: reg_def)
      qed
      then show ?thesis using mem fl by simp
    qed
    show "(k, g) \<in> set (ct_groupLRU (c_track ?c t))" if a: "reg c f' t g a" "cg_lru (c_group ?c a) = Some k" for f' t g a k
    proof -
      from a fl have na: "a \<noteq> ga" "cg_lru (c_group c a) = Some k" by (simp_all split: if_splits)
      then have mem: "(k, g) \<in> set (ct_groupLRU (c_track c t))" using d(4) [OF a(1)] by simp
      have "k \<noteq> n" if t: "t = ta"
      proof
        assume "k = n"
        then have "g = gid" using node_unique [OF d(6) [OF fta]] mem en t by blast
        then show False using a(1) r na(1) t by (simp add: reg_def)
      qed
      then show ?thesis using mem fl by auto
    qed
    show "cg_lru (c_group ?c a) = None \<longleftrightarrow> cg_globalLru (c_group ?c a) = None" if "reg c f' t g a" for f' t g a
      using d(5) [OF that] by (simp add: fl)
    show "distinct (map fst (ct_groupLRU (c_track ?c t)))" if "hm_find (c_map ?c) f' = Some t" for f' t
      using d(6) [of f' t] that by (auto simp: fl)
    show "k < c_next ?c \<and> (\<exists>a. reg c f' t g a \<and> cg_lru (c_group ?c a) = Some k)"
      if a: "hm_find (c_map ?c) f' = Some t" "(k, g) \<in> set (ct_groupLRU (c_track ?c t))" for f' t k g
    proof -
      from a(2) have mem: "(k, g) \<in> set (ct_groupLRU (c_track c t))" "t = ta \<Longrightarrow> k \<noteq> n" by (auto simp: fl split: if_splits)
      then obtain e where e: "k < c_next c" "reg c f' t g e" "cg_lru (c_group c e) = Some k" using d(7) [of f' t k g] a(1) by (auto simp: fl)
      have "e \<noteq> ga"
      proof
        assume "e = ga"
        then have "f' = f" "k = n" using uniq e Some by auto
        then have "t = ta" using e(2) fta by (simp add: reg_def)
        then show False using mem(2) \<open>k = n\<close> by simp
      qed
      then show ?thesis using e fl by auto
    qed
  qed
  moreover have "track_lru_ok ?c" by (rule track_lru_cong [OF _ _ _ _ tl]) (simp_all add: fl)
  ultimately show ?thesis using x fl by (simp add: cache_ok_def groups_ok_def)
qed

text \<open>New tracks and groups.\<close>

lemma getOrCreateGroup_ok:
  assumes ok: "cache_ok c" and f: "hm_find (c_map c) f = Some ta"
  shows "cache_ok (snd (getOrCreateGroup ta gid c))" "reg (snd (getOrCreateGroup ta gid c)) f ta gid (fst (getOrCreateGroup ta gid c))"
proof -
  have "cache_ok (snd (getOrCreateGroup ta gid c)) \<and> reg (snd (getOrCreateGroup ta gid c)) f ta gid (fst (getOrCreateGroup ta gid c))"
  proof (cases "hm_find (ct_groups (c_track c ta)) gid")
    case (Some ga)
    then show ?thesis using ok f by (simp add: getOrCreateGroup_def reg_def)
  next
    case None
    let ?ga = "c_next c" and ?c = "snd (getOrCreateGroup ta gid c)"
    have h: "heap_ok c" and b: "bytes_ok c" and l: "lru_ok c" and x: "\<not> c_crashed c" and tl: "track_lru_ok c"
      using ok by (simp_all add: cache_ok_def groups_ok_def)
    note d = lru_okD [OF l] and hd = heap_okD [OF h]
    have fl: "c_map ?c = c_map c" "c_total ?c = c_total c" "c_crashed ?c = c_crashed c" "c_trackLRU ?c = c_trackLRU c" "c_next ?c = c_next c + 1"
      "c_globalGroupLRU ?c = c_globalGroupLRU c" "fst (getOrCreateGroup ta gid c) = ?ga"
      "\<And>t. ct_groups (c_track ?c t) = (if t = ta then ct_groups (c_track c ta) @ [(gid, ?ga)] else ct_groups (c_track c t))"
      "\<And>t. ct_lru (c_track ?c t) = ct_lru (c_track c t)" "\<And>t. ct_groupLRU (c_track ?c t) = ct_groupLRU (c_track c t)"
      "\<And>a. c_group ?c a = (if a = ?ga then new_cache_group else c_group c a)"
      using None by (simp_all add: getOrCreateGroup_def Let_def upd_track_def upd_group_def)
    have rg: "reg ?c f' t g a \<longleftrightarrow> reg c f' t g a \<or> f' = f \<and> t = ta \<and> g = gid \<and> a = ?ga" for f' t g a
      using None f hd(2) [of f' ta f] by (auto simp: reg_def fl map_add_def split: option.splits)
    have old: "a \<noteq> ?ga" if "reg c f' t g a" for f' t g a using hd(6) [OF that] by simp
    have "gaddrs ?c = insert ?ga (gaddrs c)" by (auto simp: gaddrs_def rg)
    moreover have "?ga \<notin> gaddrs c" using old by (auto simp: gaddrs_def)
    moreover have "(\<Sum>a\<in>gaddrs c. cg_totalBytes (c_group ?c a)) = (\<Sum>a\<in>gaddrs c. cg_totalBytes (c_group c a))"
      by (rule sum.cong) (use old in \<open>auto simp: fl gaddrs_def\<close>)
    moreover have "\<forall>a\<in>gaddrs c. group_ok (c_group ?c a)" using b old by (auto simp: fl gaddrs_def bytes_ok_def)
    ultimately have "bytes_ok ?c"
      using b finite_gaddrs [of c] by (simp add: bytes_ok_def fl new_cache_group_def group_ok_def group_bytes_def)
    moreover have "heap_ok ?c"
    proof (rule heap_okI)
      show "distinct (hm_keys (c_map ?c))" using hd(1) by (simp add: fl)
      show "f1 = f2" if "hm_find (c_map ?c) f1 = Some t" "hm_find (c_map ?c) f2 = Some t" for f1 f2 t using that hd(2) by (simp add: fl)
      show "t < c_next ?c" if "hm_find (c_map ?c) f1 = Some t" for f1 t using that hd(3) [of f1 t] by (simp add: fl)
      show "distinct (hm_keys (ct_groups (c_track ?c t)))" if "hm_find (c_map ?c) f1 = Some t" for f1 t
        using that hd(4) [of f1 t] None by (auto simp: fl map_of_eq_None_iff)
      show "f1 = f2 \<and> g1 = g2" if "reg ?c f1 t1 g1 a" "reg ?c f2 t2 g2 a" for f1 t1 g1 a f2 t2 g2
        using that hd(5) old unfolding rg by metis
      show "a < c_next ?c" if "reg ?c f1 t1 g1 a" for f1 t1 g1 a
        using that hd(6) unfolding rg fl by force
    qed
    moreover have "lru_ok ?c"
    proof (rule lru_okI)
      show "distinct (map fst (c_globalGroupLRU ?c))" using d(1) by (simp add: fl)
      show "n < c_next ?c \<and> (\<exists>t a. reg ?c f' t g a \<and> cg_globalLru (c_group ?c a) = Some n)" if m: "(n, f', g) \<in> set (c_globalGroupLRU ?c)" for n f' g
      proof -
        obtain t a where t: "n < c_next c" "reg c f' t g a" "cg_globalLru (c_group c a) = Some n" using d(2) [of n f' g] m by (auto simp: fl)
        then show ?thesis using old [OF t(2)] unfolding rg fl by auto
      qed
      show "(n, f', g) \<in> set (c_globalGroupLRU ?c)" if "reg ?c f' t g a" "cg_globalLru (c_group ?c a) = Some n" for f' t g a n
        using that d(3) old unfolding rg fl by (auto simp: new_cache_group_def split: if_splits)
      show "(n, g) \<in> set (ct_groupLRU (c_track ?c t))" if "reg ?c f' t g a" "cg_lru (c_group ?c a) = Some n" for f' t g a n
        using that d(4) old unfolding rg fl by (auto simp: new_cache_group_def split: if_splits)
      show "cg_lru (c_group ?c a) = None \<longleftrightarrow> cg_globalLru (c_group ?c a) = None" if "reg ?c f' t g a" for f' t g a
        using that d(5) unfolding rg fl by (auto simp: new_cache_group_def)
      show "distinct (map fst (ct_groupLRU (c_track ?c t)))" if "hm_find (c_map ?c) f' = Some t" for f' t
        using d(6) [of f' t] that by (simp add: fl)
      show "n < c_next ?c \<and> (\<exists>a. reg ?c f' t g a \<and> cg_lru (c_group ?c a) = Some n)"
        if m: "hm_find (c_map ?c) f' = Some t" "(n, g) \<in> set (ct_groupLRU (c_track ?c t))" for f' t n g
      proof -
        obtain a where t: "n < c_next c" "reg c f' t g a" "cg_lru (c_group c a) = Some n" using d(7) [of f' t n g] m by (auto simp: fl)
        then show ?thesis using old [OF t(2)] unfolding rg fl by auto
      qed
    qed
    moreover have "track_lru_ok ?c" by (rule track_lru_cong [OF _ _ _ _ tl]) (simp_all add: fl)
    ultimately show ?thesis using x by (simp add: cache_ok_def groups_ok_def fl rg)
  qed
  then show "cache_ok (snd (getOrCreateGroup ta gid c))" "reg (snd (getOrCreateGroup ta gid c)) f ta gid (fst (getOrCreateGroup ta gid c))" by simp_all
qed

lemma get_or_add_track_ok:
  assumes ok: "cache_ok c"
  shows "cache_ok (snd (get_or_add_track env f c))" "hm_find (c_map (snd (get_or_add_track env f c))) f = Some (fst (get_or_add_track env f c))"
proof -
  have "cache_ok (snd (get_or_add_track env f c)) \<and> hm_find (c_map (snd (get_or_add_track env f c))) f = Some (fst (get_or_add_track env f c))"
  proof (cases "hm_find (c_map c) f")
    case (Some ta)
    then show ?thesis using ok by (simp add: get_or_add_track_def)
  next
    case None
    let ?ta = "c_next c" and ?c = "snd (get_or_add_track env f c)"
    have h: "heap_ok c" and b: "bytes_ok c" and l: "lru_ok c" and x: "\<not> c_crashed c" and tl: "track_lru_ok c"
      using ok by (simp_all add: cache_ok_def groups_ok_def)
    note d = lru_okD [OF l] and hd = heap_okD [OF h] and td = track_lru_okD [OF tl]
    have fl: "c_map ?c = c_map c @ [(f, ?ta)]" "c_total ?c = c_total c" "c_crashed ?c = c_crashed c" "c_trackLRU ?c = c_trackLRU c" "c_next ?c = c_next c + 1"
      "c_globalGroupLRU ?c = c_globalGroupLRU c" "c_group ?c = c_group c" "fst (get_or_add_track env f c) = ?ta"
      "\<And>t. c_track ?c t = (if t = ?ta then new_track env else c_track c t)"
      using None by (simp_all add: get_or_add_track_def Let_def upd_track_def)
    have mp: "hm_find (c_map ?c) f' = Some t \<longleftrightarrow> hm_find (c_map c) f' = Some t \<or> f' = f \<and> t = ?ta" for f' t
      using None by (auto simp: fl map_add_def split: option.splits)
    have old: "t \<noteq> ?ta" if "hm_find (c_map c) f' = Some t" for f' t using hd(3) [OF that] by simp
    have rg: "reg ?c f' t g a = reg c f' t g a" for f' t g a
      unfolding reg_def mp using old by (auto simp: fl(9) new_track_def)
    have "bytes_ok ?c" by (rule bytes_ok_same [OF b]) (simp_all add: fl gaddrs_def rg)
    moreover have "heap_ok ?c"
    proof (rule heap_okI)
      show "distinct (hm_keys (c_map ?c))" using hd(1) None by (auto simp: fl map_of_eq_None_iff)
      show "f1 = f2" if "hm_find (c_map ?c) f1 = Some t" "hm_find (c_map ?c) f2 = Some t" for f1 f2 t
        using that hd(2) old unfolding mp by blast
      show "t < c_next ?c" if "hm_find (c_map ?c) f1 = Some t" for f1 t using that hd(3) [of f1 t] unfolding mp by (auto simp: fl)
      show "distinct (hm_keys (ct_groups (c_track ?c t)))" if "hm_find (c_map ?c) f1 = Some t" for f1 t
        using that hd(4) [of f1 t] unfolding mp by (auto simp: fl new_track_def)
      show "f1 = f2 \<and> g1 = g2" if "reg ?c f1 t1 g1 a" "reg ?c f2 t2 g2 a" for f1 t1 g1 a f2 t2 g2 using that hd(5) unfolding rg by blast
      show "a < c_next ?c" if "reg ?c f1 t1 g1 a" for f1 t1 g1 a using that hd(6) [of f1 t1 g1 a] unfolding rg by (simp add: fl)
    qed
    moreover have "lru_ok ?c"
    proof (rule lru_okI, unfold rg)
      have t: "t \<noteq> ?ta" if "reg c f' t g a" for f' t g a using that old by (auto simp: reg_def)
      show "distinct (map fst (c_globalGroupLRU ?c))" using d(1) by (simp add: fl)
      show "n < c_next ?c \<and> (\<exists>t a. reg c f' t g a \<and> cg_globalLru (c_group ?c a) = Some n)" if "(n, f', g) \<in> set (c_globalGroupLRU ?c)" for n f' g
        using d(2) [of n f' g] that by (auto simp: fl)
      show "(n, f', g) \<in> set (c_globalGroupLRU ?c)" if "reg c f' t g a" "cg_globalLru (c_group ?c a) = Some n" for f' t g a n
        using that d(3) by (simp add: fl)
      show "(n, g) \<in> set (ct_groupLRU (c_track ?c t'))" if "reg c f' t' g a" "cg_lru (c_group ?c a) = Some n" for f' t' g a n
        using that d(4) t [OF that(1)] by (simp add: fl)
      show "cg_lru (c_group ?c a) = None \<longleftrightarrow> cg_globalLru (c_group ?c a) = None" if "reg c f' t g a" for f' t g a
        using that d(5) by (simp add: fl)
      show "distinct (map fst (ct_groupLRU (c_track ?c t')))" if "hm_find (c_map ?c) f' = Some t'" for f' t'
        using d(6) [of f' t'] that unfolding mp by (auto simp: fl new_track_def)
      show "n < c_next ?c \<and> (\<exists>a. reg c f' t' g a \<and> cg_lru (c_group ?c a) = Some n)"
        if "hm_find (c_map ?c) f' = Some t'" "(n, g) \<in> set (ct_groupLRU (c_track ?c t'))" for f' t' n g
        using that d(7) [of f' t' n g] unfolding mp by (auto simp: fl new_track_def split: if_splits)
    qed
    moreover have "track_lru_ok ?c"
    proof -
      have "n < c_next ?c \<and> (\<exists>t. hm_find (c_map ?c) f' = Some t \<and> ct_lru (c_track ?c t) = Some n)" if "(n, f') \<in> set (c_trackLRU c)" for n f'
        using td(2) [OF that] old unfolding mp by (force simp: fl)
      moreover have "(n, f') \<in> set (c_trackLRU c)" if "hm_find (c_map ?c) f' = Some t" "ct_lru (c_track ?c t) = Some n" for f' t n
        using that td(3) [of f' t n] unfolding mp by (auto simp: fl new_track_def split: if_splits)
      ultimately show ?thesis unfolding track_lru_ok_def using td(1) by (simp add: fl(4))
    qed
    ultimately show ?thesis using x mp by (simp add: cache_ok_def groups_ok_def fl)
  qed
  then show "cache_ok (snd (get_or_add_track env f c))" "hm_find (c_map (snd (get_or_add_track env f c))) f = Some (fst (get_or_add_track env f c))" by simp_all
qed

text \<open>Writing one object changes only its group, and not the place of the group in the lists.\<close>

definition same_books :: "nat \<Rightarrow> ('f, 'x, 'is) cache \<Rightarrow> ('f, 'x, 'is) cache \<Rightarrow> bool" where
  "same_books ga c c' \<longleftrightarrow> c_map c' = c_map c \<and> c_total c' = c_total c \<and> c_globalGroupLRU c' = c_globalGroupLRU c \<and>
     c_trackLRU c' = c_trackLRU c \<and> c_next c' = c_next c \<and> c_crashed c' = c_crashed c \<and> c_maxBytes c' = c_maxBytes c \<and>
     (\<forall>t. ct_groups (c_track c' t) = ct_groups (c_track c t) \<and> ct_groupLRU (c_track c' t) = ct_groupLRU (c_track c t) \<and>
          ct_lru (c_track c' t) = ct_lru (c_track c t) \<and> ct_liveWritebackCount (c_track c' t) = ct_liveWritebackCount (c_track c t) \<and>
          ct_evicted (c_track c' t) = ct_evicted (c_track c t)) \<and>
     (\<forall>a. a \<noteq> ga \<longrightarrow> c_group c' a = c_group c a) \<and>
     cg_lru (c_group c' ga) = cg_lru (c_group c ga) \<and> cg_globalLru (c_group c' ga) = cg_globalLru (c_group c ga) \<and>
     (group_ok (c_group c ga) \<longrightarrow> group_ok (c_group c' ga))"

lemma same_books_refl [simp]: "same_books ga c c"
  by (simp add: same_books_def)

lemma same_books_trans: "same_books ga c c1 \<Longrightarrow> same_books ga c1 c2 \<Longrightarrow> same_books ga c c2"
  unfolding same_books_def by (elim conjE) (intro conjI allI impI; simp)

lemma same_books_track:
  assumes "\<And>t. ct_groups (h t) = ct_groups t" "\<And>t. ct_groupLRU (h t) = ct_groupLRU t" "\<And>t. ct_lru (h t) = ct_lru t"
    "\<And>t. ct_liveWritebackCount (h t) = ct_liveWritebackCount t" "\<And>t. ct_evicted (h t) = ct_evicted t"
  shows "same_books ga c (upd_track ta h c)"
  by (simp add: same_books_def upd_track_def assms)

lemma same_books_group:
  assumes "\<And>g. cg_lru (h g) = cg_lru g" "\<And>g. cg_globalLru (h g) = cg_globalLru g" "\<And>g. group_ok g \<Longrightarrow> group_ok (h g)"
  shows "same_books ga c (upd_group ga h c)"
  by (simp add: same_books_def upd_group_def assms)

lemma insertGap_fields [simp]:
  "ct_groups (insertGap env a b t) = ct_groups t" "ct_groupLRU (insertGap env a b t) = ct_groupLRU t" "ct_lru (insertGap env a b t) = ct_lru t"
  "ct_liveWritebackCount (insertGap env a b t) = ct_liveWritebackCount t" "ct_evicted (insertGap env a b t) = ct_evicted t"
  by (simp_all add: insertGap_def)

lemma end_gaps_fields [simp]:
  "ct_groups (end_gaps env g k s t) = ct_groups t" "ct_groupLRU (end_gaps env g k s t) = ct_groupLRU t" "ct_lru (end_gaps env g k s t) = ct_lru t"
  "ct_liveWritebackCount (end_gaps env g k s t) = ct_liveWritebackCount t" "ct_evicted (end_gaps env g k s t) = ct_evicted t"
  by (simp_all add: end_gaps_def Let_def split: option.split)

text \<open>In a registered group the gap extensions create nothing.\<close>

lemma process_group_gap_books:
  assumes "reg c f ta gid ga"
  shows "same_books ga c (snd (process_group_gap env ta gid gap c))" "cg_totalBytes (c_group (snd (process_group_gap env ta gid gap c)) ga) = cg_totalBytes (c_group c ga)"
proof -
  have g: "getOrCreateGroup ta gid c = (ga, c)" using assms by (simp add: getOrCreateGroup_def reg_def)
  let ?c2 = "upd_group ga (\<lambda>g. g\<lparr>cg_seenPriorGroupIdGap := Some gap\<rparr>) c"
  have b: "same_books ga c ?c2" by (rule same_books_group) (simp_all add: group_ok_def group_bytes_def)
  have t: "same_books ga c (upd_track ta (insertGap env a e) ?c2)" for a e
    using b by (rule same_books_trans) (rule same_books_track, simp_all)
  show "same_books ga c (snd (process_group_gap env ta gid gap c))"
    unfolding process_group_gap_def g Let_def prod.case
    by (cases "cg_seenPriorGroupIdGap (c_group c ga)") (simp_all only: option.case snd_conv b t same_books_refl if_distrib [of snd] if_cancel split: if_split, simp_all)
  show "cg_totalBytes (c_group (snd (process_group_gap env ta gid gap c)) ga) = cg_totalBytes (c_group c ga)"
    by (simp add: process_group_gap_def g Let_def upd_group_def upd_track_def split: option.split)
qed

lemma process_object_gap_books:
  assumes "reg c f ta gid ga"
  shows "same_books ga c (snd (process_object_gap env ta gid oid gap c))" "c_group (snd (process_object_gap env ta gid oid gap c)) = c_group c"
proof -
  have g: "getOrCreateGroup ta gid c = (ga, c)" using assms by (simp add: getOrCreateGroup_def reg_def)
  have t: "same_books ga c (upd_track ta (insertGap env a e) c)" for a e by (rule same_books_track) simp_all
  show "same_books ga c (snd (process_object_gap env ta gid oid gap c))" using t by (simp add: process_object_gap_def g Let_def)
  show "c_group (snd (process_object_gap env ta gid oid gap c)) = c_group c" by (simp add: process_object_gap_def g Let_def upd_track_def)
qed

lemma same_books_reg: "same_books ga c c' \<Longrightarrow> reg c' f t g a = reg c f t g a"
  by (simp add: same_books_def reg_def)

lemma processGapExtensions_books:
  assumes r: "reg c f ta gid ga"
  shows "same_books ga c (snd (processGapExtensions env ta gid oid ext c))"
    "cg_totalBytes (c_group (snd (processGapExtensions env ta gid oid ext c)) ga) = cg_totalBytes (c_group c ga)"
proof -
  define p where "p = (case ev_priorGroupGap env ext of None \<Rightarrow> (None, c) | Some gap \<Rightarrow> process_group_gap env ta gid gap c)"
  have b: "same_books ga c (snd p)" "cg_totalBytes (c_group (snd p) ga) = cg_totalBytes (c_group c ga)"
    using process_group_gap_books [OF r] by (simp_all add: p_def split: option.split)
  have r1: "reg (snd p) f ta gid ga" using r same_books_reg [OF b(1)] by blast
  note ob = process_object_gap_books [OF r1, of env oid]
  have e: "processGapExtensions env ta gid oid ext c = (if fst p \<noteq> None then p
      else case ev_priorObjectGap env ext of None \<Rightarrow> (None, snd p) | Some gap \<Rightarrow> process_object_gap env ta gid oid gap (snd p))"
    by (simp add: processGapExtensions_def p_def [symmetric] case_prod_beta Let_def)
  show "same_books ga c (snd (processGapExtensions env ta gid oid ext c))"
    unfolding e using b(1) same_books_trans [OF b(1) ob(1)] by (simp split: option.split)
  show "cg_totalBytes (c_group (snd (processGapExtensions env ta gid oid ext c)) ga) = cg_totalBytes (c_group c ga)"
    unfolding e using b(2) ob(2) by (simp split: option.split)
qed

lemma sum_hm_set:
  "distinct (hm_keys m) \<Longrightarrow> sum_list (map (\<lambda>(k, e). v e) (hm_set k x m)) + (case hm_find m k of None \<Rightarrow> 0 | Some y \<Rightarrow> v y) =
     sum_list (map (\<lambda>(k, e). v e) m) + (v x :: nat)"
  by (induction m) (auto split: option.splits)

lemma sum_hm_erase:
  "distinct (hm_keys m) \<Longrightarrow> sum_list (map (\<lambda>(k, e). v e) (hm_erase k m)) + (case hm_find m k of None \<Rightarrow> 0 | Some y \<Rightarrow> v y) =
     (sum_list (map (\<lambda>(k, e). v e) m) :: nat)"
proof (induction m)
  case (Cons a m)
  have "k \<notin> set (hm_keys m) \<Longrightarrow> hm_erase k m = m" by (simp add: delete_id)
  moreover have "k \<notin> set (hm_keys m) \<Longrightarrow> hm_find m k = None" by (simp add: map_of_eq_None_iff)
  ultimately show ?case using Cons by (cases a) auto
qed simp

lemma put_entry_ok: "group_ok g \<Longrightarrow> group_ok (put_entry oid e g)"
proof -
  assume "group_ok g"
  then have d: "distinct (hm_keys (cg_objects g))" and t: "cg_totalBytes g = group_bytes g" by (simp_all add: group_ok_def)
  from sum_hm_set [OF d, of ce_payloadSize oid e] sum_hm_erase [OF d, of ce_payloadSize oid] t have "cg_totalBytes (put_entry oid e g) = group_bytes (put_entry oid e g)"
    by (auto simp: put_entry_def group_bytes_def sub_size_def split: option.splits)
  then show ?thesis using d by (simp add: group_ok_def put_entry_def)
qed

lemma put_entry_fields [simp]: "cg_lru (put_entry oid e g) = cg_lru g" "cg_globalLru (put_entry oid e g) = cg_globalLru g"
  by (simp_all add: put_entry_def)

lemma cacheObject_books:
  assumes r: "reg c f ta gid ga"
  shows "same_books ga c (snd (cacheObject env ga ta gid sub oid status ext payload complete dgram c))"
    "fst (cacheObject env ga ta gid sub oid status ext payload complete dgram c) \<noteq> None \<Longrightarrow>
     cg_totalBytes (c_group (snd (cacheObject env ga ta gid sub oid status ext payload complete dgram c)) ga) = cg_totalBytes (c_group c ga)"
proof -
  define p where "p = processGapExtensions env ta gid oid ext c"
  note b = processGapExtensions_books [OF r, of env oid ext, folded p_def]
  define c2 where "c2 = (if status = END_OF_GROUP \<or> status = END_OF_TRACK
    then upd_group ga (\<lambda>g. g\<lparr>cg_endOfGroup := True\<rparr>) (upd_track ta (end_gaps env gid oid status) (snd p)) else snd p)"
  have "same_books ga (snd p) (upd_track ta (end_gaps env gid oid status) (snd p))" by (rule same_books_track) simp_all
  from same_books_trans [OF b(1) this]
  have "same_books ga c (upd_group ga (\<lambda>g. g\<lparr>cg_endOfGroup := True\<rparr>) (upd_track ta (end_gaps env gid oid status) (snd p)))"
    by (rule same_books_trans) (rule same_books_group, simp_all add: group_ok_def group_bytes_def)
  then have b2: "same_books ga c c2" unfolding c2_def using b(1) by (simp split: if_split)
  have t2: "cg_totalBytes (c_group c2 ga) = cg_totalBytes (c_group c ga)" using b(2) by (simp add: c2_def upd_group_def upd_track_def)
  define err where "err = (case hm_find (cg_objects (c_group c2 ga)) oid of None \<Rightarrow> None | Some old \<Rightarrow> entry_error old status payload dgram)"
  define entry where "entry = \<lparr>ce_subgroup = (case hm_find (cg_objects (c_group c2 ga)) oid of Some old \<Rightarrow> ce_subgroup old | None \<Rightarrow> sub),
    ce_status = status, ce_extensions = ext, ce_payload = payload, ce_payloadSize = payload_size payload,
    ce_complete = complete, ce_datagram = dgram, ce_cachedAt = c_now c\<rparr>"
  have e: "cacheObject env ga ta gid sub oid status ext payload complete dgram c =
      (if lis_contains (ev_lis env) (ct_gaps (c_track c ta)) (gid, oid) then (Some ObjectInKnownGap, c)
       else if fst p \<noteq> None then p
       else case err of Some x \<Rightarrow> (Some x, c2)
          | None \<Rightarrow> (None, let c3 = upd_group ga (put_entry oid entry) c2 in if complete then upd_track ta (\<lambda>t. t\<lparr>ct_cachedContent :=
                       lis_insert (ev_lis env) (ct_cachedContent t) (gid, oid) (gid, oid)\<rparr>) c3 else c3))"
    unfolding cacheObject_def p_def [symmetric] case_prod_beta Let_def c2_def [symmetric] err_def [symmetric] entry_def [symmetric] by simp
  have b3: "same_books ga c (upd_group ga (put_entry oid entry) c2)"
    using b2 by (rule same_books_trans) (rule same_books_group, simp_all add: put_entry_ok)
  have b4: "same_books ga c (upd_track ta (\<lambda>t. t\<lparr>ct_cachedContent := lis_insert (ev_lis env) (ct_cachedContent t) (gid, oid) (gid, oid)\<rparr>)
      (upd_group ga (put_entry oid entry) c2))"
    using b3 by (rule same_books_trans) (rule same_books_track, simp_all)
  show "same_books ga c (snd (cacheObject env ga ta gid sub oid status ext payload complete dgram c))"
    unfolding e using b(1) b2 b3 b4 by (simp add: Let_def split: option.split)
  show "cg_totalBytes (c_group (snd (cacheObject env ga ta gid sub oid status ext payload complete dgram c)) ga) = cg_totalBytes (c_group c ga)"
    if "fst (cacheObject env ga ta gid sub oid status ext payload complete dgram c) \<noteq> None"
    using that t2 b(2) unfolding e by (auto split: option.splits if_splits)
qed

text \<open>A change of one group whose size difference is booked keeps the books.\<close>

lemma books_total:
  assumes ok: "cache_ok c" and r: "reg c f ta gid ga" and b: "same_books ga c c1"
    and t: "tot + cg_totalBytes (c_group c ga) = c_total c + cg_totalBytes (c_group c1 ga)"
  shows "cache_ok (c1\<lparr>c_total := tot\<rparr>)"
proof -
  let ?c = "c1\<lparr>c_total := tot\<rparr>"
  have m: "c_map ?c = c_map c" "c_globalGroupLRU ?c = c_globalGroupLRU c" "c_trackLRU ?c = c_trackLRU c" "c_next ?c = c_next c"
    "c_crashed ?c = c_crashed c" "c_total ?c = tot"
    using b by (simp_all add: same_books_def)
  have tr: "ct_groups (c_track ?c t) = ct_groups (c_track c t)" "ct_groupLRU (c_track ?c t) = ct_groupLRU (c_track c t)"
    "ct_lru (c_track ?c t) = ct_lru (c_track c t)" for t
    using b by (simp_all add: same_books_def)
  have gr: "cg_lru (c_group ?c a) = cg_lru (c_group c a)" "cg_globalLru (c_group ?c a) = cg_globalLru (c_group c a)" for a
    using b by (cases "a = ga"; simp add: same_books_def)+
  have rr: "reg ?c f' t g a = reg c f' t g a" for f' t g a by (simp add: reg_def m(1) [simplified] tr(1) [simplified])
  have "heap_ok ?c" using ok unfolding cache_ok_def groups_ok_def heap_ok_def rr m tr by iprover
  moreover have "lru_ok ?c" using ok unfolding cache_ok_def groups_ok_def lru_ok_def rr m tr gr by iprover
  moreover have "track_lru_ok ?c" using ok unfolding cache_ok_def track_lru_ok_def m tr by iprover
  moreover have "bytes_ok ?c"
  proof -
    have bo: "bytes_ok c" using ok by (simp add: cache_ok_def groups_ok_def)
    have ga: "ga \<in> gaddrs c" using r by (auto simp: gaddrs_def)
    have gs: "gaddrs ?c = gaddrs c" by (simp add: gaddrs_def rr)
    have eq: "c_group c1 a = c_group c a" if "a \<noteq> ga" for a using b that by (simp add: same_books_def)
    have "(\<Sum>a\<in>gaddrs c. cg_totalBytes (c_group c a)) = cg_totalBytes (c_group c ga) + (\<Sum>a\<in>gaddrs c - {ga}. cg_totalBytes (c_group c a))"
      using finite_gaddrs ga by (rule sum.remove)
    moreover have "(\<Sum>a\<in>gaddrs c. cg_totalBytes (c_group c1 a)) = cg_totalBytes (c_group c1 ga) + (\<Sum>a\<in>gaddrs c - {ga}. cg_totalBytes (c_group c1 a))"
      using finite_gaddrs ga by (rule sum.remove)
    moreover have "(\<Sum>a\<in>gaddrs c - {ga}. cg_totalBytes (c_group c1 a)) = (\<Sum>a\<in>gaddrs c - {ga}. cg_totalBytes (c_group c a))"
      by (rule sum.cong) (simp_all add: eq)
    moreover have "c_total c = (\<Sum>a\<in>gaddrs c. cg_totalBytes (c_group c a))" using bo by (simp add: bytes_ok_def)
    ultimately have "tot = (\<Sum>a\<in>gaddrs c. cg_totalBytes (c_group c1 a))" using t by simp
    moreover have "group_ok (c_group c1 a)" if "a \<in> gaddrs c" for a
      using b bo that by (cases "a = ga") (simp_all add: same_books_def bytes_ok_def)
    ultimately show ?thesis unfolding bytes_ok_def gs by simp
  qed
  ultimately show ?thesis using ok m(5) by (simp add: cache_ok_def groups_ok_def)
qed

lemma books_kept:
  assumes "cache_ok c" "reg c f ta gid ga" "same_books ga c c1" "cg_totalBytes (c_group c1 ga) = cg_totalBytes (c_group c ga)"
  shows "cache_ok c1"
proof -
  have "cache_ok (c1\<lparr>c_total := c_total c\<rparr>)" using books_total [OF assms(1-3), of "c_total c"] assms(4) by simp
  moreover have "c1\<lparr>c_total := c_total c\<rparr> = c1" using assms(3) by (simp add: same_books_def)
  ultimately show ?thesis by simp
qed

lemma check_True [simp]: "check True c = c"
  by (simp add: check_def)

text \<open>The state in which the bytes of a written object are booked, before the limit is enforced.\<close>

definition booked :: "nat \<Rightarrow> nat \<Rightarrow> ('f, 'x, 'is) cache \<Rightarrow> ('f, 'x, 'is) cache \<Rightarrow> ('f, 'x, 'is) cache" where
  "booked ga ta c c1 = upd_track ta (\<lambda>t. t\<lparr>ct_lastWrite := c_now c\<rparr>)
     (c1\<lparr>c_total := c_total c + cg_totalBytes (c_group c1 ga) - cg_totalBytes (c_group c ga)\<rparr>)"

lemma bind_forget: "x \<bind> (\<lambda>(b, d). Some (k, d)) = map_option (\<lambda>(b, d). (k, d)) x"
  by (cases x) auto

lemma cacheObjectAndUpdateBytes_eq:
  assumes ok: "cache_ok c" and r: "reg c f ta gid ga" and c1: "cacheObject env ga ta gid sub oid status ext payload complete dgram c = (e, c1)"
  shows "cacheObjectAndUpdateBytes env ga ta gid sub oid status ext payload complete dgram c =
    (if e \<noteq> None then Some (e, c1) else map_option (\<lambda>(b, c2). (None, c2)) (evictForByteLimitIfNeeded env (booked ga ta c c1)))"
proof -
  have tot: "c_total c1 = c_total c" using cacheObject_books(1) [OF r, of env sub oid status ext payload complete dgram] c1 by (simp add: same_books_def)
  have "cg_totalBytes (c_group c ga) \<le> c_total c" using ok total_ge [OF _ r] by (simp add: cache_ok_def groups_ok_def)
  then have a: "cg_totalBytes (c_group c ga) - cg_totalBytes (c_group c1 ga) \<le> c_total c" by simp
  then have s: "sub_size (c_total c) (cg_totalBytes (c_group c ga) - cg_totalBytes (c_group c1 ga)) = c_total c + cg_totalBytes (c_group c1 ga) - cg_totalBytes (c_group c ga)"
    if "cg_totalBytes (c_group c1 ga) < cg_totalBytes (c_group c ga)" using that by (simp add: sub_size_def)
  show ?thesis
  proof (cases "cg_totalBytes (c_group c ga) \<le> cg_totalBytes (c_group c1 ga)")
    case True
    then show ?thesis by (simp add: cacheObjectAndUpdateBytes_def c1 tot booked_def Let_def bind_forget)
  next
    case False
    then show ?thesis using a s
      by (simp add: cacheObjectAndUpdateBytes_def c1 tot booked_def Let_def bind_forget)
  qed
qed

lemma booked_ok:
  assumes ok: "cache_ok c" and r: "reg c f ta gid ga" and b: "same_books ga c c1"
  shows "cache_ok (booked ga ta c c1)"
proof -
  have "cg_totalBytes (c_group c ga) \<le> c_total c" using ok total_ge [OF _ r] by (simp add: cache_ok_def groups_ok_def)
  then have "cache_ok (c1\<lparr>c_total := c_total c + cg_totalBytes (c_group c1 ga) - cg_totalBytes (c_group c ga)\<rparr>)"
    by (intro books_total [OF ok r b]) simp
  then show ?thesis unfolding booked_def by (rule upd_track_ok) simp_all
qed

text \<open>An expired object leaves with its bytes.\<close>

lemma getCachedObjectMaybe_ok:
  assumes ok: "cache_ok c" and f: "hm_find (c_map c) f = Some ta"
  shows "cache_ok (snd (getCachedObjectMaybe env ta p now c))"
proof (cases "\<exists>ga e. hm_find (ct_groups (c_track c ta)) (fst p) = Some ga \<and> hm_find (cg_objects (c_group c ga)) (snd p) = Some e")
  case False
  then show ?thesis using ok by (auto simp: getCachedObjectMaybe_def split: option.split)
next
  case True
  then obtain ga e where ga: "hm_find (ct_groups (c_track c ta)) (fst p) = Some ga" and e: "hm_find (cg_objects (c_group c ga)) (snd p) = Some e" by blast
  have r: "reg c f ta (fst p) ga" using f ga by (simp add: reg_def)
  let ?h = "\<lambda>g :: 'b cache_group. g\<lparr>cg_totalBytes := sub_size (cg_totalBytes g) (ce_payloadSize e), cg_objects := hm_erase (snd p) (cg_objects g)\<rparr>"
  let ?t = "\<lambda>t :: ('b, 'c) cache_track. t\<lparr>ct_cachedContent := lis_remove (ev_lis env) (ct_cachedContent t) p p\<rparr>"
  have g: "group_ok (c_group c ga)" using ok r by (auto simp: cache_ok_def groups_ok_def bytes_ok_def gaddrs_def)
  then have d: "distinct (hm_keys (cg_objects (c_group c ga)))" by (simp add: group_ok_def)
  from sum_hm_erase [OF d, of ce_payloadSize "snd p"] e g
  have s: "group_bytes (c_group c ga) = group_bytes (?h (c_group c ga)) + ce_payloadSize e" "ce_payloadSize e \<le> cg_totalBytes (c_group c ga)"
    by (simp_all add: group_bytes_def group_ok_def)
  have "group_ok (?h (c_group c ga))" using g s by (simp add: group_ok_def group_bytes_def sub_size_def)
  then have b: "same_books ga c (upd_group ga ?h (upd_track ta ?t c))" by (simp add: same_books_def upd_group_def upd_track_def)
  have le: "cg_totalBytes (c_group c ga) \<le> c_total c" using ok total_ge [OF _ r] by (simp add: cache_ok_def groups_ok_def)
  have "cache_ok ((upd_group ga ?h (upd_track ta ?t c))\<lparr>c_total := sub_size (c_total c) (ce_payloadSize e)\<rparr>)"
    by (rule books_total [OF ok r b]) (use le s(2) in \<open>simp add: upd_group_def upd_track_def sub_size_def\<close>)
  moreover have "upd_group ga ?h (upd_track ta ?t (c\<lparr>c_total := sub_size (c_total c) (ce_payloadSize e)\<rparr>)) =
      (upd_group ga ?h (upd_track ta ?t c))\<lparr>c_total := sub_size (c_total c) (ce_payloadSize e)\<rparr>"
    by (simp add: upd_group_def upd_track_def)
  ultimately show ?thesis using ok by (simp add: getCachedObjectMaybe_def ga e Let_def)
qed

end
