(* ===== verification/Cache_Runs.thy ===== *)
theory Cache_Runs
  imports Cache_Books
begin

section \<open>Runs of the object cache\<close>

text \<open>
  What the eviction must leave alone for the sake of the writers that are alive, the loops of the eviction as instances of
  a shrinking loop, and runs in which subscriptions, subgroups, lookups, purges and settings are interleaved.
\<close>

subsection \<open>What writers rely on\<close>

text \<open>A listed track has no live subscription, and memory not yet in use is blank.\<close>

definition idle_ok :: "('f, 'x, 'is) cache \<Rightarrow> bool" where
  "idle_ok c \<longleftrightarrow> (\<forall>f ta. hm_find (c_map c) f = Some ta \<longrightarrow> ct_lru (c_track c ta) \<noteq> None \<longrightarrow> ct_liveWritebackCount (c_track c ta) = 0) \<and>
     (\<forall>ta\<ge>c_next c. ct_liveWritebackCount (c_track c ta) = 0 \<and> \<not> ct_evicted (c_track c ta))"

text \<open>
  A step that keeps the writers of a cache, those of the tracks \<open>F\<close> and of the groups \<open>G\<close> apart: a track that leaves the
  map is marked evicted, and a group that is not listed for eviction stays registered while its track has a live subscription.
\<close>

definition keeps :: "'f set \<Rightarrow> nat set \<Rightarrow> ('f, 'x, 'is) cache \<Rightarrow> ('f, 'x, 'is) cache \<Rightarrow> bool" where
  "keeps F G c c' \<longleftrightarrow> c_next c \<le> c_next c' \<and>
     (\<forall>ta. ct_liveWritebackCount (c_track c' ta) = ct_liveWritebackCount (c_track c ta)) \<and>
     (\<forall>ta. ct_evicted (c_track c ta) \<longrightarrow> ct_evicted (c_track c' ta)) \<and>
     (\<forall>f ta. hm_find (c_map c) f = Some ta \<longrightarrow> hm_find (c_map c') f = Some ta \<or> ct_evicted (c_track c' ta)) \<and>
     (\<forall>f ta g ga. f \<notin> F \<longrightarrow> ga \<notin> G \<longrightarrow> reg c f ta g ga \<longrightarrow> cg_lru (c_group c ga) = None \<longrightarrow> ct_liveWritebackCount (c_track c ta) > 0 \<longrightarrow>
        reg c' f ta g ga \<and> cg_lru (c_group c' ga) = None) \<and>
     (idle_ok c \<longrightarrow> idle_ok c')"

lemma keepsI:
  assumes "c_next c \<le> c_next c'" "\<And>ta. ct_liveWritebackCount (c_track c' ta) = ct_liveWritebackCount (c_track c ta)"
    "\<And>ta. ct_evicted (c_track c ta) \<Longrightarrow> ct_evicted (c_track c' ta)"
    "\<And>f ta. hm_find (c_map c) f = Some ta \<Longrightarrow> hm_find (c_map c') f = Some ta \<or> ct_evicted (c_track c' ta)"
    "\<And>f ta g ga. f \<notin> F \<Longrightarrow> ga \<notin> G \<Longrightarrow> reg c f ta g ga \<Longrightarrow> cg_lru (c_group c ga) = None \<Longrightarrow> ct_liveWritebackCount (c_track c ta) > 0 \<Longrightarrow>
        reg c' f ta g ga \<and> cg_lru (c_group c' ga) = None"
    "idle_ok c \<Longrightarrow> idle_ok c'"
  shows "keeps F G c c'"
  unfolding keeps_def by (intro conjI allI impI) (rule assms(1) assms(2) assms(3) assms(4) assms(6) assms(5) [THEN conjunct1] assms(5) [THEN conjunct2]; assumption)+

lemma keepsD:
  assumes "keeps F G c c'"
  shows "c_next c \<le> c_next c'" "ct_liveWritebackCount (c_track c' ta) = ct_liveWritebackCount (c_track c ta)"
    "ct_evicted (c_track c ta) \<Longrightarrow> ct_evicted (c_track c' ta)"
    "hm_find (c_map c) f = Some ta \<Longrightarrow> hm_find (c_map c') f = Some ta \<or> ct_evicted (c_track c' ta)"
    "f \<notin> F \<Longrightarrow> ga \<notin> G \<Longrightarrow> reg c f ta g ga \<Longrightarrow> cg_lru (c_group c ga) = None \<Longrightarrow> ct_liveWritebackCount (c_track c ta) > 0 \<Longrightarrow> reg c' f ta g ga"
    "f \<notin> F \<Longrightarrow> ga \<notin> G \<Longrightarrow> reg c f ta g ga \<Longrightarrow> cg_lru (c_group c ga) = None \<Longrightarrow> ct_liveWritebackCount (c_track c ta) > 0 \<Longrightarrow> cg_lru (c_group c' ga) = None"
    "idle_ok c \<Longrightarrow> idle_ok c'"
proof -
  note k = assms [unfolded keeps_def]
  note k5 = conjunct1 [OF conjunct2 [OF conjunct2 [OF conjunct2 [OF conjunct2 [OF k]]]]]
  show "c_next c \<le> c_next c'" using conjunct1 [OF k] .
  show "ct_liveWritebackCount (c_track c' ta) = ct_liveWritebackCount (c_track c ta)" using conjunct1 [OF conjunct2 [OF k]] by iprover
  show "ct_evicted (c_track c ta) \<Longrightarrow> ct_evicted (c_track c' ta)" using conjunct1 [OF conjunct2 [OF conjunct2 [OF k]]] by iprover
  show "hm_find (c_map c) f = Some ta \<Longrightarrow> hm_find (c_map c') f = Some ta \<or> ct_evicted (c_track c' ta)"
    using conjunct1 [OF conjunct2 [OF conjunct2 [OF conjunct2 [OF k]]]] by iprover
  show "f \<notin> F \<Longrightarrow> ga \<notin> G \<Longrightarrow> reg c f ta g ga \<Longrightarrow> cg_lru (c_group c ga) = None \<Longrightarrow> ct_liveWritebackCount (c_track c ta) > 0 \<Longrightarrow> reg c' f ta g ga"
    using k5 by iprover
  show "f \<notin> F \<Longrightarrow> ga \<notin> G \<Longrightarrow> reg c f ta g ga \<Longrightarrow> cg_lru (c_group c ga) = None \<Longrightarrow> ct_liveWritebackCount (c_track c ta) > 0 \<Longrightarrow> cg_lru (c_group c' ga) = None"
    using k5 by iprover
  show "idle_ok c \<Longrightarrow> idle_ok c'" using conjunct2 [OF conjunct2 [OF conjunct2 [OF conjunct2 [OF conjunct2 [OF k]]]]] by iprover
qed

lemma keeps_refl [simp]: "keeps F G c c"
  by (rule keepsI) simp_all

lemma keeps_trans:
  assumes k: "keeps F G c c1" "keeps F G c1 c2"
  shows "keeps F G c c2"
proof (rule keepsI)
  note a = keepsD [OF k(1)] and b = keepsD [OF k(2)]
  show "c_next c \<le> c_next c2" using a(1) b(1) by simp
  show "ct_liveWritebackCount (c_track c2 ta) = ct_liveWritebackCount (c_track c ta)" for ta using a(2) b(2) by simp
  show "ct_evicted (c_track c2 ta)" if "ct_evicted (c_track c ta)" for ta using b(3) [OF a(3) [OF that]] .
  show "hm_find (c_map c2) f = Some ta \<or> ct_evicted (c_track c2 ta)" if "hm_find (c_map c) f = Some ta" for f ta
    using a(4) [OF that] b(4) [of f ta] b(3) [of ta] by blast
  show "reg c2 f ta g ga \<and> cg_lru (c_group c2 ga) = None"
    if h: "f \<notin> F" "ga \<notin> G" "reg c f ta g ga" "cg_lru (c_group c ga) = None" "ct_liveWritebackCount (c_track c ta) > 0" for f ta g ga
  proof -
    have "ct_liveWritebackCount (c_track c1 ta) > 0" using h(5) a(2) by simp
    then show ?thesis using b(5) [OF h(1,2) a(5) [OF h] a(6) [OF h]] b(6) [OF h(1,2) a(5) [OF h] a(6) [OF h]] by simp
  qed
  show "idle_ok c2" if "idle_ok c" using b(7) [OF a(7) [OF that]] .
qed

lemma keeps_mono: "keeps F G c c' \<Longrightarrow> F \<subseteq> F' \<Longrightarrow> G \<subseteq> G' \<Longrightarrow> keeps F' G' c c'"
  unfolding keeps_def by (elim conjE, intro conjI) (assumption | blast)+

text \<open>Steps that leave the maps and the iterators alone.\<close>

lemma keeps_frame:
  assumes "c_map c' = c_map c" "c_next c \<le> c_next c'" "\<And>t. ct_groups (c_track c' t) = ct_groups (c_track c t)"
    "\<And>t. ct_lru (c_track c' t) = ct_lru (c_track c t)" "\<And>t. ct_liveWritebackCount (c_track c' t) = ct_liveWritebackCount (c_track c t)"
    "\<And>t. ct_evicted (c_track c' t) = ct_evicted (c_track c t)" "\<And>a. a \<notin> G \<Longrightarrow> cg_lru (c_group c a) = None \<Longrightarrow> cg_lru (c_group c' a) = None"
  shows "keeps F G c c'"
proof (rule keepsI)
  have r: "reg c' f t g a = reg c f t g a" for f t g a by (simp add: reg_def assms(1,3))
  show "reg c' f ta g ga \<and> cg_lru (c_group c' ga) = None" if "ga \<notin> G" "reg c f ta g ga" "cg_lru (c_group c ga) = None" for f ta g ga
    using that assms(7) r by simp
  show "idle_ok c'" if "idle_ok c"
    using that assms(2) unfolding idle_ok_def assms(1,4,5,6) by auto
qed (use assms(1-6) in simp_all)

lemma same_books_keeps: "same_books ga c c' \<Longrightarrow> keeps F G c c'"
  by (rule keeps_frame) (simp_all add: same_books_def, metis)

text \<open>Fields that eviction does not touch.\<close>

lemma check_fields [simp]:
  "c_map (check b c) = c_map c" "c_track (check b c) = c_track c" "c_group (check b c) = c_group c" "c_next (check b c) = c_next c"
  "c_trackLRU (check b c) = c_trackLRU c" "c_globalGroupLRU (check b c) = c_globalGroupLRU c" "c_total (check b c) = c_total c"
  by (simp_all add: check_def)

lemma erase_absent: "hm_find m k = None \<Longrightarrow> hm_erase k m = m"
  by (simp add: delete_id map_of_eq_None_iff)

lemma evictGroup_fields [simp]:
  "c_map (evictGroup env ta gid c) = c_map c" "c_group (evictGroup env ta gid c) = c_group c" "c_next (evictGroup env ta gid c) = c_next c"
  "ct_lru (c_track (evictGroup env ta gid c) t) = ct_lru (c_track c t)"
  "ct_liveWritebackCount (c_track (evictGroup env ta gid c) t) = ct_liveWritebackCount (c_track c t)"
  "ct_evicted (c_track (evictGroup env ta gid c) t) = ct_evicted (c_track c t)"
  "ct_groups (c_track (evictGroup env ta gid c) t) = (if t = ta then hm_erase gid (ct_groups (c_track c t)) else ct_groups (c_track c t))"
  by (simp_all add: evictGroup_def upd_track_def Let_def delete_id map_of_eq_None_iff split: option.split)

lemma fold_evictGroup_fields [simp]:
  "c_map (fold (evictGroup env ta) gs c) = c_map c" "c_group (fold (evictGroup env ta) gs c) = c_group c" "c_next (fold (evictGroup env ta) gs c) = c_next c"
  "ct_lru (c_track (fold (evictGroup env ta) gs c) t) = ct_lru (c_track c t)"
  "ct_liveWritebackCount (c_track (fold (evictGroup env ta) gs c) t) = ct_liveWritebackCount (c_track c t)"
  "ct_evicted (c_track (fold (evictGroup env ta) gs c) t) = ct_evicted (c_track c t)"
  "t \<noteq> ta \<Longrightarrow> ct_groups (c_track (fold (evictGroup env ta) gs c) t) = ct_groups (c_track c t)"
  by (induction gs arbitrary: c) simp_all

lemma evictTrack_fields [simp]:
  "c_map (snd (evictTrack env f c)) = hm_erase f (c_map c)" "c_group (snd (evictTrack env f c)) = c_group c" "c_next (snd (evictTrack env f c)) = c_next c"
  "ct_lru (c_track (snd (evictTrack env f c)) t) = ct_lru (c_track c t)"
  "ct_liveWritebackCount (c_track (snd (evictTrack env f c)) t) = ct_liveWritebackCount (c_track c t)"
  "ct_evicted (c_track (snd (evictTrack env f c)) t) \<longleftrightarrow> ct_evicted (c_track c t) \<or> hm_find (c_map c) f = Some t"
  "hm_find (c_map c) f \<noteq> Some t \<Longrightarrow> ct_groups (c_track (snd (evictTrack env f c)) t) = ct_groups (c_track c t)"
  by (cases "hm_find (c_map c) f"; auto simp: evictTrack_def upd_track_def Let_def erase_absent split: option.split)+

lemma evictGroup_keeps:
  assumes r: "reg c f ta gid ga" and l: "cg_lru (c_group c ga) \<noteq> None" and h: "heap_ok c"
  shows "keeps F G c (evictGroup env ta gid c)"
proof (rule keepsI)
  show "reg (evictGroup env ta gid c) f' ta' g' ga' \<and> cg_lru (c_group (evictGroup env ta gid c) ga') = None"
    if a: "reg c f' ta' g' ga'" "cg_lru (c_group c ga') = None" for f' ta' g' ga'
  proof -
    have "\<not> (ta' = ta \<and> g' = gid)" using a r l by (auto simp: reg_def)
    then show ?thesis using a by (auto simp: reg_def)
  qed
  show "idle_ok (evictGroup env ta gid c)" if "idle_ok c" using that by (simp add: idle_ok_def)
qed simp_all

lemma evictTrack_keeps:
  assumes h: "heap_ok c" and x: "f \<in> F \<or> (\<forall>ta. hm_find (c_map c) f = Some ta \<longrightarrow> ct_groups (c_track c ta) = [] \<or> ct_liveWritebackCount (c_track c ta) = 0)"
  shows "keeps F G c (snd (evictTrack env f c))"
proof (rule keepsI)
  show "reg (snd (evictTrack env f c)) f' ta' g' ga' \<and> cg_lru (c_group (snd (evictTrack env f c)) ga') = None"
    if a: "f' \<notin> F" "reg c f' ta' g' ga'" "cg_lru (c_group c ga') = None" "ct_liveWritebackCount (c_track c ta') > 0" for f' ta' g' ga'
  proof -
    have n: "f' \<noteq> f" using a x by (auto simp: reg_def)
    then have "hm_find (c_map c) f \<noteq> Some ta'" using heap_okD(2) [OF h, of f' ta' f] a(2) by (auto simp: reg_def)
    then show ?thesis using a n by (simp add: reg_def)
  qed
  show "idle_ok (snd (evictTrack env f c))" if "idle_ok c"
    using that heap_okD(3) [OF h, of f] by (auto simp: idle_ok_def split: if_splits)
qed (auto split: if_splits)

lemma evict_bytes_step_keeps:
  assumes ok: "cache_ok c" and ne: "c_globalGroupLRU c \<noteq> []"
  shows "keeps F G c (evict_bytes_step env c)"
proof -
  have g: "groups_ok c" and h: "heap_ok c" and lo: "lru_ok c" using ok by (simp_all add: cache_ok_def groups_ok_def)
  obtain n f gid ta ga where l: "last (c_globalGroupLRU c) = (n, f, gid)" "(n, f, gid) \<in> set (c_globalGroupLRU c)"
    "reg c f ta gid ga" "cg_globalLru (c_group c ga) = Some n"
    using last_registered [OF g ne] by blast
  have f: "hm_find (c_map c) f = Some ta" using l(3) by (simp add: reg_def)
  have "cg_lru (c_group c ga) \<noteq> None" using lru_okD(5) [OF lo l(3)] l(4) by simp
  note k1 = evictGroup_keeps [OF l(3) this h, of F G env]
  have ok1: "cache_ok (evictGroup env ta gid c)" by (rule evictGroup_cache_ok [OF ok f])
  then have "heap_ok (evictGroup env ta gid c)" by (simp add: cache_ok_def groups_ok_def)
  from evictTrack_keeps [OF this, of f F G env]
  have "keeps F G (evictGroup env ta gid c) (snd (evictTrack env f (evictGroup env ta gid c)))"
    if "ct_groups (c_track (evictGroup env ta gid c) ta) = []" using that f by simp
  from keeps_trans [OF k1 this] k1 show ?thesis by (simp add: evict_bytes_step_def l(1) f Let_def)
qed

text \<open>Every pass removes a node of the list of evictable groups, so the loop ends, at its target or with nothing left to evict.\<close>

interpretation bytes_loop: shrinking_loop "evict_bytes_loop env target" "\<lambda>c. c_total c > target \<and> c_globalGroupLRU c \<noteq> []"
    "evict_bytes_step env" "\<lambda>c. length (c_globalGroupLRU c)" cache_ok
    "\<lambda>c c'. keeps F G c c' \<and> c_total c' \<le> c_total c \<and> c_maxBytes c' = c_maxBytes c"
  for env :: "('x, 'is) cache_env" and target and F :: "'f set" and G
proof (unfold_locales, goal_cases)
  case 1
  show ?case by (rule evict_bytes_loop.simps)
next
  case (2 c)
  then show ?case using evict_bytes_step_ok [of c env] evict_bytes_step_keeps [of c F G env] by blast
next
  case (4 c1 c2 c3)
  then show ?case using keeps_trans [of F G c1 c2 c3] by auto
qed simp

lemma evictForByteLimit_ends:
  assumes "cache_ok c"
  shows "\<exists>b c'. evictForByteLimitIfNeeded env c = Some (b, c') \<and> cache_ok c' \<and> keeps F G c c' \<and> c_total c' \<le> c_total c \<and>
    (b \<longleftrightarrow> c_maxBytes c = 0 \<or> c_total c' \<le> c_maxBytes c) \<and> (b \<or> c_globalGroupLRU c' = [])"
proof (cases "c_maxBytes c = 0 \<or> c_total c \<le> c_maxBytes c")
  case True
  then show ?thesis using assms by (auto simp: evictForByteLimitIfNeeded_def)
next
  case False
  define target where "target = (if c_minEvictionBytes c < c_maxBytes c then c_maxBytes c - c_minEvictionBytes c else 0)"
  have "target \<le> c_maxBytes c" by (simp add: target_def)
  obtain c' where c': "evict_bytes_loop env target c = Some c'" "cache_ok c'" "c_total c' \<le> target \<or> c_globalGroupLRU c' = []"
    "c_total c' \<le> c_total c" "c_maxBytes c' = c_maxBytes c" "keeps F G c c'"
    using bytes_loop.loop_ends [OF assms, of env target F G] by auto
  have "evictForByteLimitIfNeeded env c = Some (c_total c' \<le> c_maxBytes c', c')"
    using False c'(1) by (simp add: evictForByteLimitIfNeeded_def target_def)
  then show ?thesis using c' False \<open>target \<le> c_maxBytes c\<close> by auto
qed

text \<open>The loop over the groups of one track drops a group in every pass.\<close>

definition evict_groups_step :: "('x, 'is) cache_env \<Rightarrow> nat \<Rightarrow> ('f, 'x, 'is) cache \<Rightarrow> ('f, 'x, 'is) cache" where
  "evict_groups_step env ta c = evictGroup env ta (snd (last (ct_groupLRU (c_track c ta)))) c"

lemma evict_groups_step_ok:
  assumes ok: "cache_ok c" and f: "hm_find (c_map c) f = Some ta" and ne: "ct_groupLRU (c_track c ta) \<noteq> []"
  shows "cache_ok (evict_groups_step env ta c)" "keeps F G c (evict_groups_step env ta c)"
    "length (ct_groups (c_track (evict_groups_step env ta c) ta)) < length (ct_groups (c_track c ta))"
proof -
  have h: "heap_ok c" and lo: "lru_ok c" using ok by (simp_all add: cache_ok_def groups_ok_def)
  obtain n gid where l: "last (ct_groupLRU (c_track c ta)) = (n, gid)" by (cases "last (ct_groupLRU (c_track c ta))") auto
  have "(n, gid) \<in> set (ct_groupLRU (c_track c ta))" using last_in_set [OF ne] l by simp
  then obtain ga where r: "reg c f ta gid ga" "cg_lru (c_group c ga) = Some n" using lru_okD(7) [OF lo f] by blast
  have e: "evict_groups_step env ta c = evictGroup env ta gid c" by (simp add: evict_groups_step_def l)
  show "cache_ok (evict_groups_step env ta c)" unfolding e by (rule evictGroup_cache_ok [OF ok f])
  show "keeps F G c (evict_groups_step env ta c)" unfolding e using evictGroup_keeps [OF r(1) _ h] r(2) by simp
  show "length (ct_groups (c_track (evict_groups_step env ta c) ta)) < length (ct_groups (c_track c ta))"
    using r(1) unfolding e evictGroup_fields reg_def by (simp add: AList.delete_eq) (intro length_filter_less, auto dest: map_of_SomeD)
qed

lemma evict_groups_step_fields [simp]:
  "c_map (evict_groups_step env ta c) = c_map c" "set (ct_groups (c_track (evict_groups_step env ta c) ta)) \<subseteq> set (ct_groups (c_track c ta))"
  by (auto simp: evict_groups_step_def AList.delete_eq)

interpretation groups_loop: shrinking_loop "evict_groups_loop env ta"
    "\<lambda>c. length (ct_groups (c_track c ta)) > c_maxGroups c \<and> ct_groupLRU (c_track c ta) \<noteq> []"
    "evict_groups_step env ta" "\<lambda>c. length (ct_groups (c_track c ta))" "\<lambda>c. cache_ok c \<and> hm_find (c_map c) f = Some ta"
    "\<lambda>c c'. keeps F G c c' \<and> c_map c' = c_map c \<and> set (ct_groups (c_track c' ta)) \<subseteq> set (ct_groups (c_track c ta))"
  for env :: "('x, 'is) cache_env" and ta and f :: 'f and F G
proof (unfold_locales, goal_cases)
  case (1 c)
  show ?case unfolding evict_groups_step_def by (rule evict_groups_loop.simps)
next
  case (2 c)
  then have c: "cache_ok c" "hm_find (c_map c) f = Some ta" "ct_groupLRU (c_track c ta) \<noteq> []" by simp_all
  show ?case using evict_groups_step_ok(1,3) [OF c, of env] evict_groups_step_ok(2) [OF c, of F G env] c(2) by simp
next
  case (4 c1 c2 c3)
  then show ?case using keeps_trans [of F G c1 c2 c3] by auto
qed simp

subsection \<open>The operations keep books and writers\<close>

definition kept :: "'f set \<Rightarrow> nat set \<Rightarrow> ('f, 'x, 'is) cache \<Rightarrow> ('f, 'x, 'is) cache \<Rightarrow> bool" where
  "kept F G c c' \<longleftrightarrow> cache_ok c' \<and> keeps F G c c'"

lemma kept_refl: "cache_ok c \<Longrightarrow> kept F G c c"
  by (simp add: kept_def)

lemma kept_trans: "kept F G c c1 \<Longrightarrow> kept F G c1 c2 \<Longrightarrow> kept F G c c2"
  using keeps_trans by (auto simp: kept_def)

lemma kept_ok: "kept F G c c' \<Longrightarrow> cache_ok c'"
  by (simp add: kept_def)

lemma upd_track_kept:
  assumes "cache_ok c" "ct_groups (h (c_track c ta)) = ct_groups (c_track c ta)" "ct_groupLRU (h (c_track c ta)) = ct_groupLRU (c_track c ta)"
    "ct_lru (h (c_track c ta)) = ct_lru (c_track c ta)"
    "ct_liveWritebackCount (h (c_track c ta)) = ct_liveWritebackCount (c_track c ta)" "ct_evicted (h (c_track c ta)) = ct_evicted (c_track c ta)"
  shows "kept F G c (upd_track ta h c)"
proof -
  have "cache_ok (upd_track ta h c)"
    by (rule cache_ok_cong [OF _ _ _ _ _ _ _ _ _ _ assms(1)]) (simp_all add: upd_track_def assms(2-4))
  moreover have "keeps F G c (upd_track ta h c)"
    by (rule keeps_frame) (simp_all add: upd_track_def assms(2-6))
  ultimately show ?thesis by (simp add: kept_def)
qed

lemma addTrackToLRU_kept:
  assumes ok: "cache_ok c" and f: "hm_find (c_map c) f = Some ta" and l: "ct_liveWritebackCount (c_track c ta) = 0"
  shows "kept F G c (addTrackToLRU f ta c)"
proof -
  have "keeps F G c (addTrackToLRU f ta c)"
    by (rule keepsI) (use l in \<open>auto simp: addTrackToLRU_def upd_track_def reg_def idle_ok_def\<close>)
  then show ?thesis using addTrackToLRU_ok [OF ok f] by (simp add: kept_def)
qed

lemma onTrackBecameEvictable_kept: "cache_ok c \<Longrightarrow> kept F G c (onTrackBecameEvictable f c)"
  using addTrackToLRU_kept [of c f] by (auto simp: onTrackBecameEvictable_def canEvict_def kept_refl split: option.split)

lemma get_or_add_track_kept:
  assumes ok: "cache_ok c" and i: "idle_ok c"
  shows "kept F G c (snd (get_or_add_track env f c))"
proof (cases "hm_find (c_map c) f")
  case (Some ta)
  then show ?thesis using ok by (simp add: get_or_add_track_def kept_refl)
next
  case None
  have h: "heap_ok c" using ok by (simp add: cache_ok_def groups_ok_def)
  have lt: "ta < c_next c" if "hm_find (c_map c) f' = Some ta" for f' ta using heap_okD(3) [OF h that] .
  let ?c = "upd_track (c_next c) (\<lambda>_. new_track env) (c\<lparr>c_map := c_map c @ [(f, c_next c)], c_next := c_next c + 1\<rparr>)"
  have fr: "ct_liveWritebackCount (c_track c (c_next c)) = 0" "\<not> ct_evicted (c_track c (c_next c))" using i by (simp_all add: idle_ok_def)
  have "keeps F G c ?c"
  proof (rule keepsI)
    show "hm_find (c_map ?c) f' = Some ta \<or> ct_evicted (c_track ?c ta)" if "hm_find (c_map c) f' = Some ta" for f' ta
      using that None by (simp add: upd_track_def map_add_Some_iff)
    show "reg ?c f' ta g ga \<and> cg_lru (c_group ?c ga) = None" if "reg c f' ta g ga" "cg_lru (c_group c ga) = None" for f' ta g ga
      using that lt [of f' ta] by (auto simp: upd_track_def reg_def map_add_Some_iff)
    show "idle_ok ?c"
      using i lt None by (auto simp: idle_ok_def upd_track_def map_add_Some_iff new_track_def split: if_splits)
  qed (use fr in \<open>auto simp: upd_track_def new_track_def\<close>)
  then show ?thesis using get_or_add_track_ok(1) [OF ok, of env f] None by (simp add: kept_def get_or_add_track_def Let_def)
qed

lemma getOrCreateGroup_kept:
  assumes ok: "cache_ok c" and f: "hm_find (c_map c) f = Some ta"
  shows "kept F G c (snd (getOrCreateGroup ta gid c))"
proof (cases "hm_find (ct_groups (c_track c ta)) gid")
  case (Some ga)
  then show ?thesis using ok by (simp add: getOrCreateGroup_def kept_refl)
next
  case None
  have h: "heap_ok c" using ok by (simp add: cache_ok_def groups_ok_def)
  let ?c = "upd_track ta (\<lambda>t. t\<lparr>ct_groups := ct_groups t @ [(gid, c_next c)]\<rparr>) (upd_group (c_next c) (\<lambda>_. new_cache_group) (c\<lparr>c_next := c_next c + 1\<rparr>))"
  have "keeps F G c ?c"
  proof (rule keepsI)
    show "reg ?c f' ta' g ga \<and> cg_lru (c_group ?c ga) = None" if "reg c f' ta' g ga" "cg_lru (c_group c ga) = None" for f' ta' g ga
      using that heap_okD(6) [OF h that(1)] None by (auto simp: upd_track_def upd_group_def reg_def map_add_Some_iff)
    show "idle_ok ?c" if "idle_ok c" using that by (simp add: idle_ok_def upd_track_def upd_group_def)
  qed (auto simp: upd_track_def upd_group_def)
  then show ?thesis using getOrCreateGroup_ok(1) [OF ok f, of gid] None by (simp add: kept_def getOrCreateGroup_def Let_def)
qed

lemma addGroupToLRU_kept:
  assumes ok: "cache_ok c" and r: "reg c f ta gid ga" and G: "ga \<in> G"
  shows "kept F G c (addGroupToLRU f gid ga ta c)"
proof -
  have "keeps F G c (addGroupToLRU f gid ga ta c)"
    by (rule keeps_frame) (use G in \<open>auto simp: addGroupToLRU_def upd_track_def upd_group_def Let_def\<close>)
  then show ?thesis using addGroupToLRU_ok [OF ok r] by (simp add: kept_def)
qed

lemma removeGroupFromLRU_kept:
  assumes ok: "cache_ok c" and r: "reg c f ta gid ga"
  shows "kept F G c (removeGroupFromLRU ga ta c)" "cg_lru (c_group (removeGroupFromLRU ga ta c) ga) = None"
    "reg (removeGroupFromLRU ga ta c) f ta gid ga"
proof -
  have "keeps F G c (removeGroupFromLRU ga ta c)"
    by (rule keeps_frame) (auto simp: removeGroupFromLRU_def upd_track_def upd_group_def Let_def split: option.split)
  then show "kept F G c (removeGroupFromLRU ga ta c)" using removeGroupFromLRU_ok [OF ok r] by (simp add: kept_def)
  show "cg_lru (c_group (removeGroupFromLRU ga ta c) ga) = None" "reg (removeGroupFromLRU ga ta c) f ta gid ga"
    using r by (auto simp: removeGroupFromLRU_def upd_track_def upd_group_def Let_def reg_def split: option.split)
qed

lemma evictForByteLimit_kept:
  assumes "cache_ok c"
  obtains b c' where "evictForByteLimitIfNeeded env c = Some (b, c')" "kept F G c c'"
proof -
  obtain b c' where "evictForByteLimitIfNeeded env c = Some (b, c')" "cache_ok c'" "keeps F G c c'"
    using evictForByteLimit_ends [OF assms, of env F G] by blast
  then show thesis using that by (simp add: kept_def)
qed

lemma evictOldestGroups_kept:
  assumes "cache_ok c" "hm_find (c_map c) f = Some ta"
  obtains c' where "evictOldestGroupsIfNeeded env ta c = Some c'" "kept F G c c'" "c_map c' = c_map c"
    "set (ct_groups (c_track c' ta)) \<subseteq> set (ct_groups (c_track c ta))"
proof (cases "c_maxGroups c = 0")
  case True
  then show thesis using that [of c] assms(1) by (simp add: evictOldestGroupsIfNeeded_def kept_refl)
next
  case False
  have "cache_ok c \<and> hm_find (c_map c) f = Some ta" using assms by simp
  from groups_loop.loop_ends [OF this, of env F G] obtain c' where "evict_groups_loop env ta c = Some c'" "cache_ok c'" "keeps F G c c'" "c_map c' = c_map c"
    "set (ct_groups (c_track c' ta)) \<subseteq> set (ct_groups (c_track c ta))" by blast
  then show thesis using that [of c'] False by (simp add: evictOldestGroupsIfNeeded_def kept_def)
qed

text \<open>A step on a group made meanwhile leaves the earlier ones alone.\<close>

lemma keeps_new_group:
  assumes k: "keeps F G c c2" "keeps F (insert ga G) c2 c3" and hp: "heap_ok c" and le: "c_next c \<le> ga"
  shows "keeps F G c c3"
proof (rule keepsI)
  note a = keepsD [OF k(1)] and b = keepsD [OF k(2)]
  show "c_next c \<le> c_next c3" using a(1) b(1) by simp
  show "ct_liveWritebackCount (c_track c3 t) = ct_liveWritebackCount (c_track c t)" for t using a(2) b(2) by simp
  show "ct_evicted (c_track c3 t)" if "ct_evicted (c_track c t)" for t using b(3) [OF a(3) [OF that]] .
  show "hm_find (c_map c3) f' = Some t \<or> ct_evicted (c_track c3 t)"
    if "hm_find (c_map c) f' = Some t" for f' t using a(4) [OF that] b(4) [of f' t] b(3) [of t] by blast
  show "reg c3 f' t g' a' \<and> cg_lru (c_group c3 a') = None"
    if h: "f' \<notin> F" "a' \<notin> G" "reg c f' t g' a'" "cg_lru (c_group c a') = None" "ct_liveWritebackCount (c_track c t) > 0" for f' t g' a'
  proof -
    have G': "a' \<notin> insert ga G" using heap_okD(6) [OF hp h(3)] le h(2) by auto
    have l: "ct_liveWritebackCount (c_track c2 t) > 0" using h(5) a(2) by simp
    show ?thesis using b(5) [OF h(1) G' a(5) [OF h] a(6) [OF h] l] b(6) [OF h(1) G' a(5) [OF h] a(6) [OF h] l] by simp
  qed
  show "idle_ok c3" if "idle_ok c" using b(7) [OF a(7) [OF that]] .
qed

lemma getOrCreateGroupWithEviction_kept:
  assumes ok: "cache_ok c" and f: "hm_find (c_map c) f = Some ta"
  obtains ga c' where "getOrCreateGroupWithEviction env ta gid f c = Some (ga, c')" "kept F G c c'" "reg c' f ta gid ga"
    "hm_find (ct_groups (c_track c ta)) gid = Some ga \<or> hm_find (ct_groups (c_track c ta)) gid = None \<and> c_next c \<le> ga"
proof (cases "hm_find (ct_groups (c_track c ta)) gid")
  case (Some ga)
  then show thesis using that [of ga c] ok f by (simp add: getOrCreateGroupWithEviction_def kept_refl reg_def)
next
  case None
  obtain c1 where c1: "evictOldestGroupsIfNeeded env ta c = Some c1" "kept F G c c1" "c_map c1 = c_map c"
    "set (ct_groups (c_track c1 ta)) \<subseteq> set (ct_groups (c_track c ta))"
    by (rule evictOldestGroups_kept [OF assms, of env F G])
  have f1: "hm_find (c_map c1) f = Some ta" and ok1: "cache_ok c1" using f c1(2,3) by (simp_all add: kept_def)
  have n1: "hm_find (ct_groups (c_track c1 ta)) gid = None" using None c1(4) by (force simp: map_of_eq_None_iff)
  define ga c2 where "ga = fst (getOrCreateGroup ta gid c1)" and "c2 = snd (getOrCreateGroup ta gid c1)"
  have ga: "ga = c_next c1" using n1 by (simp add: ga_def getOrCreateGroup_def Let_def)
  have c2: "kept F G c1 c2" "reg c2 f ta gid ga"
    using getOrCreateGroup_kept [OF ok1 f1] getOrCreateGroup_ok(2) [OF ok1 f1, of gid] by (simp_all add: c2_def ga_def)
  have c3: "kept F (insert ga G) c2 (addGroupToLRU f gid ga ta c2)" by (rule addGroupToLRU_kept [OF kept_ok [OF c2(1)] c2(2)]) simp
  have k12: "keeps F G c c2" using kept_trans [OF c1(2) c2(1)] by (simp add: kept_def)
  have le: "c_next c \<le> ga" using ga keepsD(1) [OF c1(2) [unfolded kept_def, THEN conjunct2]] by simp
  have "keeps F G c (addGroupToLRU f gid ga ta c2)"
    by (rule keeps_new_group [OF k12 c3 [unfolded kept_def, THEN conjunct2] _ le]) (use ok in \<open>simp add: cache_ok_def groups_ok_def\<close>)
  then have k: "kept F G c (addGroupToLRU f gid ga ta c2)" using c3 by (simp add: kept_def)
  have r: "reg (addGroupToLRU f gid ga ta c2) f ta gid ga"
    using c2(2) by (simp add: addGroupToLRU_def reg_def upd_track_def upd_group_def Let_def)
  have e: "getOrCreateGroupWithEviction env ta gid f c = Some (ga, addGroupToLRU f gid ga ta c2)"
    by (simp add: getOrCreateGroupWithEviction_def None c1(1) ga_def c2_def case_prod_beta Let_def)
  show thesis using that [OF e k r] None le by simp
qed

lemma cacheObjectAndUpdateBytes_kept:
  assumes ok: "cache_ok c" and r: "reg c f ta gid ga"
  obtains e c' where "cacheObjectAndUpdateBytes env ga ta gid sub oid status ext payload complete dgram c = Some (e, c')" "kept F G c c'"
proof -
  define p where "p = cacheObject env ga ta gid sub oid status ext payload complete dgram c"
  have eq: "cacheObject env ga ta gid sub oid status ext payload complete dgram c = (fst p, snd p)" by (simp add: p_def)
  note b = cacheObject_books [OF r, of env sub oid status ext payload complete dgram, folded p_def]
  note e = cacheObjectAndUpdateBytes_eq [OF ok r eq]
  show thesis
  proof (cases "fst p = None")
    case False
    have "cache_ok (snd p)" by (rule books_kept [OF ok r b(1) b(2) [OF False]])
    then have "kept F G c (snd p)" using same_books_keeps [OF b(1)] by (simp add: kept_def)
    then show thesis using that [of "fst p" "snd p"] e False by simp
  next
    case True
    have ok1: "cache_ok (booked ga ta c (snd p))" by (rule booked_ok [OF ok r b(1)])
    obtain x c' where x: "evictForByteLimitIfNeeded env (booked ga ta c (snd p)) = Some (x, c')" "kept F G (booked ga ta c (snd p)) c'"
      by (rule evictForByteLimit_kept [OF ok1])
    have "keeps F G (snd p) (booked ga ta c (snd p))" by (rule keeps_frame) (simp_all add: booked_def upd_track_def)
    with same_books_keeps [OF b(1)] have "keeps F G c (booked ga ta c (snd p))" by (rule keeps_trans)
    then have "kept F G c c'" using x(2) keeps_trans by (auto simp: kept_def)
    then show thesis using that e True x(1) by simp
  qed
qed

lemma updateLargest_fields:
  assumes "updateLargest p b t = (e, t')"
  shows "ct_groups t' = ct_groups t" "ct_groupLRU t' = ct_groupLRU t" "ct_lru t' = ct_lru t"
    "ct_liveWritebackCount t' = ct_liveWritebackCount t" "ct_evicted t' = ct_evicted t"
  using assms by (auto simp: updateLargest_def split: if_splits option.splits)

lemma sw_store_kept:
  assumes ok: "cache_ok c" and r: "reg c (sw_ftn w) (sw_track w) (sw_group w) (sw_cacheGroup w)"
  obtains x c' where "sw_store env w oid status ext payload complete c = Some (x, c')" "kept F G c c'"
proof -
  obtain e t where u: "updateLargest (sw_group w, oid) (isEndOfTrack status) (c_track c (sw_track w)) = (e, t)" by fastforce
  note fl = updateLargest_fields [OF u]
  let ?c = "upd_track (sw_track w) (\<lambda>_. t) c"
  have k: "kept F G c ?c" by (rule upd_track_kept [OF ok]) (simp_all add: fl)
  have r1: "reg ?c (sw_ftn w) (sw_track w) (sw_group w) (sw_cacheGroup w)" using r fl(1) by (simp add: reg_def upd_track_def)
  show thesis
  proof (cases e)
    case (Some err)
    then show thesis using that ok u by (simp add: sw_store_def kept_refl)
  next
    case None
    obtain x c' where "cacheObjectAndUpdateBytes env (sw_cacheGroup w) (sw_track w) (sw_group w) (sw_subgroup w) oid status ext payload complete False ?c = Some (x, c')"
      "kept F G ?c c'"
      by (rule cacheObjectAndUpdateBytes_kept [OF kept_ok [OF k] r1])
    then show thesis using that kept_trans [OF k] u None by (simp add: sw_store_def)
  qed
qed

definition same_wb :: "'f subgroup_wb \<Rightarrow> 'f subgroup_wb \<Rightarrow> bool" where
  "same_wb w w' \<longleftrightarrow> sw_ftn w' = sw_ftn w \<and> sw_track w' = sw_track w \<and> sw_group w' = sw_group w \<and> sw_cacheGroup w' = sw_cacheGroup w"

lemma same_wb_simps [simp]: "same_wb w w" "same_wb w (w\<lparr>sw_currentObject := k, sw_currentLength := l\<rparr>)" "same_wb w (w\<lparr>sw_currentLength := l\<rparr>)"
  by (simp_all add: same_wb_def)

lemma sw_beginObject_kept:
  assumes ok: "cache_ok c" and r: "reg c (sw_ftn w) (sw_track w) (sw_group w) (sw_cacheGroup w)" and l: "payload_size payload \<le> len"
  obtains x w' c' where "sw_beginObject env w oid len payload ext c = Some (x, w', c')" "kept F G c c'"
    "same_wb w w'"
proof (cases "shouldSkipCaching (c_track c (sw_track w))")
  case True
  then show thesis using that [of Forwarded w c] ok by (auto simp: sw_beginObject_def kept_refl)
next
  case False
  obtain x c' where s: "sw_store env w oid NORMAL ext payload False c = Some (x, c')" "kept F G c c'" by (rule sw_store_kept [OF ok r])
  show thesis using that s False l by (cases "x = Forwarded") (auto simp: sw_beginObject_def)
qed

lemma sum_hm_upd:
  "distinct (hm_keys m) \<Longrightarrow> hm_find m k = Some y \<Longrightarrow> v x = v y + n \<Longrightarrow>
   sum_list (map (\<lambda>(k, e). v e) (hm_set k x m)) = sum_list (map (\<lambda>(k, e). v e) m) + (n :: nat)"
  using sum_hm_set [of m v k x] by simp

text \<open>More bytes of the object that is being written, which must still be in the cache.\<close>

lemma sw_objectPayload_kept:
  assumes ok: "cache_ok c" and r: "reg c (sw_ftn w) (sw_track w) (sw_group w) (sw_cacheGroup w)"
    and e: "hm_find (cg_objects (c_group c (sw_cacheGroup w))) (sw_currentObject w) = Some e" and l: "length payload \<le> sw_currentLength w"
  obtains w' c' where "sw_objectPayload env w payload c = Some (w', c')" "kept F G c c'" "same_wb w w'"
proof (cases "shouldSkipCaching (c_track c (sw_track w))")
  case True
  then show thesis using that [of w c] ok by (auto simp: sw_objectPayload_def kept_refl)
next
  case False
  let ?ga = "sw_cacheGroup w" and ?n = "length payload" and ?len = "sw_currentLength w - length payload"
  define c2 where "c2 = (if ?len = 0 then upd_track (sw_track w) (\<lambda>t. t\<lparr>ct_cachedContent :=
      lis_insert (ev_lis env) (ct_cachedContent t) (sw_group w, sw_currentObject w) (sw_group w, sw_currentObject w)\<rparr>) c else c)"
  define c3 where "c3 = upd_group ?ga (\<lambda>g. g\<lparr>cg_objects := hm_set (sw_currentObject w) (add_payload payload (?len = 0) e) (cg_objects g),
      cg_totalBytes := cg_totalBytes g + ?n\<rparr>) c2"
  have g2: "c_group c2 = c_group c" by (simp add: c2_def upd_track_def)
  have "same_books ?ga c c2" unfolding c2_def by (simp add: same_books_track)
  moreover have "same_books ?ga c2 c3"
  proof -
    have "group_ok (c_group c3 ?ga)" if "group_ok (c_group c2 ?ga)"
      using that e sum_hm_upd [of "cg_objects (c_group c ?ga)" "sw_currentObject w" e ce_payloadSize "add_payload payload (?len = 0) e" ?n]
      by (simp add: group_ok_def group_bytes_def c3_def upd_group_def g2 add_payload_def)
    then show ?thesis by (simp add: same_books_def c3_def upd_group_def)
  qed
  ultimately have b: "same_books ?ga c c3" by (rule same_books_trans)
  then have t: "c_total c3 = c_total c" by (simp add: same_books_def)
  have ok3: "cache_ok (c3\<lparr>c_total := c_total c3 + ?n\<rparr>)"
    by (rule books_total [OF ok r b]) (simp add: t [unfolded c3_def] c3_def upd_group_def g2, simp add: c2_def upd_track_def)
  have "keeps F G c3 (c3\<lparr>c_total := c_total c3 + ?n\<rparr>)" by (rule keeps_frame) simp_all
  with same_books_keeps [OF b] have k: "keeps F G c (c3\<lparr>c_total := c_total c3 + ?n\<rparr>)" by (rule keeps_trans)
  obtain x c' where x: "evictForByteLimitIfNeeded env (c3\<lparr>c_total := c_total c3 + ?n\<rparr>) = Some (x, c')" "kept F G (c3\<lparr>c_total := c_total c3 + ?n\<rparr>) c'"
    by (rule evictForByteLimit_kept [OF ok3])
  have "sw_objectPayload env w payload c = Some (w\<lparr>sw_currentLength := ?len\<rparr>, c')"
    using False e l x(1) [unfolded c3_def c2_def] by (cases "?len = 0") (simp_all add: sw_objectPayload_def Let_def)
  moreover have "kept F G c c'" using k x(2) keeps_trans by (auto simp: kept_def)
  ultimately show thesis using that by simp
qed

lemma tw_store_kept:
  assumes ok: "cache_ok c" and f: "hm_find (c_map c) (tw_ftn w) = Some (tw_track w) \<or> ct_evicted (c_track c (tw_track w))"
  obtains x c' where "tw_store env w dgram gid sub oid status ext payload c = Some (x, c')" "kept F G c c'"
proof (cases "shouldSkipCaching (c_track c (tw_track w))")
  case True
  then show thesis using that ok by (simp add: tw_store_def kept_refl)
next
  case False
  then have m: "hm_find (c_map c) (tw_ftn w) = Some (tw_track w)" using f by (auto simp: shouldSkipCaching_def)
  obtain e t where u: "updateLargest (gid, oid) (isEndOfTrack status) (c_track c (tw_track w)) = (e, t)" by fastforce
  note fl = updateLargest_fields [OF u]
  let ?c = "upd_track (tw_track w) (\<lambda>_. t) c"
  have k: "kept F G c ?c" by (rule upd_track_kept [OF ok]) (simp_all add: fl)
  have m1: "hm_find (c_map ?c) (tw_ftn w) = Some (tw_track w)" using m by (simp add: upd_track_def)
  show thesis
  proof (cases e)
    case (Some err)
    then show thesis using that ok u False by (simp add: tw_store_def kept_refl)
  next
    case None
    obtain ga c1 where c1: "getOrCreateGroupWithEviction env (tw_track w) gid (tw_ftn w) ?c = Some (ga, c1)" "kept F G ?c c1" "reg c1 (tw_ftn w) (tw_track w) gid ga"
      by (rule getOrCreateGroupWithEviction_kept [OF kept_ok [OF k] m1])
    obtain x c' where "cacheObjectAndUpdateBytes env ga (tw_track w) gid sub oid status ext payload True dgram c1 = Some (x, c')" "kept F G c1 c'"
      by (rule cacheObjectAndUpdateBytes_kept [OF kept_ok [OF c1(2)] c1(3)])
    then show thesis using that kept_trans [OF kept_trans [OF k c1(2)]] u None False c1(1) by (simp add: tw_store_def)
  qed
qed

lemma getCachedObjectMaybe_kept:
  assumes "cache_ok c" "hm_find (c_map c) f = Some ta"
  shows "kept F G c (snd (getCachedObjectMaybe env ta p now c))"
proof -
  have "keeps F G c (snd (getCachedObjectMaybe env ta p now c))"
    by (rule keeps_frame) (auto simp: getCachedObjectMaybe_def Let_def upd_track_def upd_group_def split: option.split)
  then show ?thesis using getCachedObjectMaybe_ok [OF assms] by (simp add: kept_def)
qed

lemma hasCachedObject_kept: "cache_ok c \<Longrightarrow> kept F G c (snd (hasCachedObject env f p c))"
  using getCachedObjectMaybe_kept [of c f] by (auto simp: hasCachedObject_def kept_refl case_prod_beta Let_def split: option.split)

lemma evictOldestTrack_kept:
  assumes ok: "cache_ok c" and i: "idle_ok c"
  shows "kept F G c (snd (evictOldestTrackIfNeeded env c))"
proof (cases "c_trackLRU c = []")
  case True
  then show ?thesis using ok by (simp add: evictOldestTrackIfNeeded_def kept_refl)
next
  case False
  obtain n f where l: "last (c_trackLRU c) = (n, f)" by (cases "last (c_trackLRU c)") auto
  have tl: "track_lru_ok c" and h: "heap_ok c" using ok by (simp_all add: cache_ok_def groups_ok_def)
  have "(n, f) \<in> set (c_trackLRU c)" using last_in_set [OF False] l by simp
  from track_lru_okD(2) [OF tl this] obtain ta where "hm_find (c_map c) f = Some ta" "ct_lru (c_track c ta) = Some n" by blast
  then have "\<forall>ta. hm_find (c_map c) f = Some ta \<longrightarrow> ct_groups (c_track c ta) = [] \<or> ct_liveWritebackCount (c_track c ta) = 0"
    using i by (auto simp: idle_ok_def)
  then have "keeps F G c (snd (evictTrack env f c))" by (intro evictTrack_keeps [OF h] disjI2)
  then show ?thesis using evictOldestTrack_ok [OF ok, of env] False l by (simp add: evictOldestTrackIfNeeded_def kept_def)
qed

lemma kept_idle: "kept F G c c' \<Longrightarrow> idle_ok c \<Longrightarrow> idle_ok c'"
  unfolding kept_def by (elim conjE) (rule keepsD(7))

lemma limits_kept:
  assumes "cache_ok c"
  shows "kept F G c (c\<lparr>c_maxBytes := n\<rparr>)" "kept F G c (c\<lparr>c_minEvictionBytes := n\<rparr>)" "kept F G c (c\<lparr>c_maxTracks := n\<rparr>)"
    "kept F G c (c\<lparr>c_maxGroups := n\<rparr>)" "kept F G c (c\<lparr>c_now := now\<rparr>)"
proof -
  have k: "kept F G c c'" if "c_map c' = c_map c" "c_track c' = c_track c" "c_group c' = c_group c" "c_next c' = c_next c" "c_crashed c' = c_crashed c"
    "c_trackLRU c' = c_trackLRU c" "c_globalGroupLRU c' = c_globalGroupLRU c" "c_total c' = c_total c" for c'
    unfolding kept_def by (intro conjI cache_ok_cong [OF _ _ _ _ _ _ _ _ _ _ assms] keeps_frame) (simp_all add: that)
  show "kept F G c (c\<lparr>c_maxBytes := n\<rparr>)" "kept F G c (c\<lparr>c_minEvictionBytes := n\<rparr>)" "kept F G c (c\<lparr>c_maxTracks := n\<rparr>)"
    "kept F G c (c\<lparr>c_maxGroups := n\<rparr>)" "kept F G c (c\<lparr>c_now := now\<rparr>)"
    by (rule k; simp)+
qed

lemma setMaxCachedBytes_kept:
  assumes "cache_ok c"
  obtains c' where "setMaxCachedBytes env n c = Some c'" "kept F G c c'"
proof -
  note k = limits_kept(1) [OF assms, of F G n]
  obtain b c' where "evictForByteLimitIfNeeded env (c\<lparr>c_maxBytes := n\<rparr>) = Some (b, c')" "kept F G (c\<lparr>c_maxBytes := n\<rparr>) c'"
    by (rule evictForByteLimit_kept [OF kept_ok [OF k]])
  then show thesis using that kept_trans [OF k] by (simp add: setMaxCachedBytes_def)
qed

text \<open>Each pass drops a track, so the loop ends.\<close>

lemma evictOldestTrack_step:
  assumes ok: "cache_ok c" and l: "c_maxTracks c > 0" "length (c_map c) > c_maxTracks c" "c_trackLRU c \<noteq> []"
  shows "length (c_map (snd (evictOldestTrackIfNeeded env c))) < length (c_map c)"
    "c_maxTracks (snd (evictOldestTrackIfNeeded env c)) = c_maxTracks c"
proof -
  obtain n f where nf: "last (c_trackLRU c) = (n, f)" by (cases "last (c_trackLRU c)") auto
  have e: "snd (evictOldestTrackIfNeeded env c) = snd (evictTrack env f c)" using l nf by (simp add: evictOldestTrackIfNeeded_def)
  have tl: "track_lru_ok c" using ok by (simp add: cache_ok_def)
  have "(n, f) \<in> set (c_trackLRU c)" using last_in_set [OF l(3)] nf by simp
  from track_lru_okD(2) [OF tl this] obtain ta where "hm_find (c_map c) f = Some ta" by blast
  then show "length (c_map (snd (evictOldestTrackIfNeeded env c))) < length (c_map c)"
    unfolding e evictTrack_fields AList.delete_eq by (intro length_filter_less) (auto dest: map_of_SomeD)
  show "c_maxTracks (snd (evictOldestTrackIfNeeded env c)) = c_maxTracks c" unfolding e by (rule evictTrack_ok(6) [OF ok])
qed

interpretation tracks_loop: shrinking_loop "set_max_tracks_loop env" "\<lambda>c. c_maxTracks c > 0 \<and> length (c_map c) > c_maxTracks c \<and> c_trackLRU c \<noteq> []"
    "\<lambda>c. snd (evictOldestTrackIfNeeded env c)" "\<lambda>c. length (c_map c)" "\<lambda>c. cache_ok c \<and> idle_ok c"
    "\<lambda>c c'. kept F G c c' \<and> c_maxTracks c' = c_maxTracks c"
  for env :: "('x, 'is) cache_env" and F :: "'f set" and G
proof (unfold_locales, goal_cases)
  case 1
  show ?case by (rule set_max_tracks_loop.simps)
next
  case (2 c)
  have k: "kept F G c (snd (evictOldestTrackIfNeeded env c))" using 2(1) by (intro evictOldestTrack_kept) simp_all
  show ?case using k kept_ok [OF k] kept_idle [OF k] evictOldestTrack_step [of c env] 2 by simp
next
  case (3 c)
  then show ?case by (simp add: kept_refl)
next
  case (4 c1 c2 c3)
  then show ?case using kept_trans [of F G c1 c2 c3] by simp
qed

lemma setMaxCachedTracks_kept:
  assumes "cache_ok c" "idle_ok c"
  obtains c' where "setMaxCachedTracks env n c = Some c'" "kept F G c c'"
proof -
  note k = limits_kept(3) [OF assms(1), of F G n]
  have "cache_ok (c\<lparr>c_maxTracks := n\<rparr>) \<and> idle_ok (c\<lparr>c_maxTracks := n\<rparr>)" using kept_ok [OF k] assms(2) by (simp add: idle_ok_def)
  from tracks_loop.loop_ends [OF this, of env F G] obtain c' where "set_max_tracks_loop env (c\<lparr>c_maxTracks := n\<rparr>) = Some c'" "kept F G (c\<lparr>c_maxTracks := n\<rparr>) c'" by blast
  then show thesis using that kept_trans [OF k] by (simp add: setMaxCachedTracks_def)
qed

lemma evict_all_tracks_groups_kept:
  assumes "cache_ok c" "\<forall>ta\<in>set tas. \<exists>f. hm_find (c_map c) f = Some ta"
  shows "\<exists>c'. evict_all_tracks_groups env tas c = Some c' \<and> kept F G c c'"
  using assms
proof (induction tas arbitrary: c)
  case Nil
  then show ?case by (simp add: kept_refl)
next
  case (Cons ta tas)
  then obtain f where f: "hm_find (c_map c) f = Some ta" by auto
  obtain c1 where c1: "evictOldestGroupsIfNeeded env ta c = Some c1" "kept F G c c1" "c_map c1 = c_map c"
    by (rule evictOldestGroups_kept [OF Cons.prems(1) f])
  from Cons.IH [OF kept_ok [OF c1(2)]] Cons.prems(2) c1(3) obtain c' where "evict_all_tracks_groups env tas c1 = Some c'" "kept F G c1 c'" by auto
  then show ?case using c1(1) kept_trans [OF c1(2)] by simp
qed

lemma setMaxCachedGroupsPerTrack_kept:
  assumes ok: "cache_ok c"
  obtains c' where "setMaxCachedGroupsPerTrack env n c = Some c'" "kept F G c c'"
proof -
  note k = limits_kept(4) [OF assms, of F G n]
  have d: "distinct (hm_keys (c_map c))" using ok by (simp add: cache_ok_def groups_ok_def heap_ok_def)
  have "\<forall>ta\<in>set (map snd (c_map c)). \<exists>f. hm_find (c_map c) f = Some ta" using d by (force simp: map_of_eq_Some_iff)
  then have "\<exists>c'. evict_all_tracks_groups env (map snd (c_map c)) (c\<lparr>c_maxGroups := n\<rparr>) = Some c' \<and> kept F G (c\<lparr>c_maxGroups := n\<rparr>) c'"
    by (intro evict_all_tracks_groups_kept [OF kept_ok [OF k]]) simp
  then show thesis using that k kept_trans [OF k] by (cases "n < c_maxGroups c") (auto simp: setMaxCachedGroupsPerTrack_def Let_def)
qed

text \<open>A track made for its settings only is listed at once.\<close>

lemma listed_track_kept:
  assumes "cache_ok c" "idle_ok c"
  shows "kept F G c (if hm_find (c_map c) f = None then addTrackToLRU f (fst (get_or_add_track env f c)) (snd (get_or_add_track env f c)) else snd (get_or_add_track env f c))"
proof -
  note k = get_or_add_track_kept [OF assms, of F G env f]
  have "kept F G (snd (get_or_add_track env f c)) (addTrackToLRU f (fst (get_or_add_track env f c)) (snd (get_or_add_track env f c)))"
    if n: "hm_find (c_map c) f = None"
    by (rule addTrackToLRU_kept [OF kept_ok [OF k] get_or_add_track_ok(2) [OF assms(1)]])
      (simp add: get_or_add_track_def n Let_def upd_track_def new_track_def)
  then show ?thesis using k kept_trans [OF k] by simp
qed

lemma setMaxCacheDuration_kept:
  assumes "cache_ok c" "idle_ok c"
  shows "kept F G c (setMaxCacheDuration env f d c)"
proof -
  note k = listed_track_kept [OF assms, of F G f env]
  show ?thesis unfolding setMaxCacheDuration_def case_prod_beta Let_def
    by (rule kept_trans [OF k]) (rule upd_track_kept [OF kept_ok [OF k]], simp_all)
qed

lemma clearMaxCacheDuration_kept: "cache_ok c \<Longrightarrow> kept F G c (clearMaxCacheDuration f c)"
  unfolding clearMaxCacheDuration_def by (auto split: option.split intro!: kept_refl upd_track_kept)

lemma setTrackExtensions_kept:
  assumes "cache_ok c" "idle_ok c"
  shows "kept F G c (setTrackExtensions env f ext c)"
proof -
  define c1 where "c1 = (case getEffectiveCacheDuration env ext c of Some d \<Rightarrow> setMaxCacheDuration env f d c | None \<Rightarrow> clearMaxCacheDuration f c)"
  have k1: "kept F G c c1" using setMaxCacheDuration_kept [OF assms] clearMaxCacheDuration_kept [OF assms(1)] by (simp add: c1_def split: option.split)
  note k2 = listed_track_kept [OF kept_ok [OF k1] kept_idle [OF k1 assms(2)], of F G f env]
  note k = kept_trans [OF k1 k2]
  show ?thesis unfolding setTrackExtensions_def case_prod_beta Let_def c1_def [symmetric]
    by (rule kept_trans [OF k]) (rule upd_track_kept [OF kept_ok [OF k]], simp_all)
qed

lemma purge_track_kept: "cache_ok c \<Longrightarrow> f \<in> F \<Longrightarrow> kept F G c (snd (purge_track env f c))"
  unfolding kept_def purge_track_def by (intro conjI evictTrack_ok(1) evictTrack_keeps) (simp_all add: cache_ok_def groups_ok_def)

lemma tw_beginSubgroup_kept:
  assumes ok: "cache_ok c" and f: "hm_find (c_map c) (tw_ftn w) = Some (tw_track w) \<or> ct_evicted (c_track c (tw_track w))"
  obtains x so c' where "tw_beginSubgroup env w downstream gid sub c = Some (x, so, c')" "kept F G c c'"
    "\<And>s. so = Some s \<Longrightarrow> sw_ftn s = tw_ftn w \<and> sw_track s = tw_track w \<and> sw_group s = gid \<and>
       reg c' (sw_ftn s) (sw_track s) (sw_group s) (sw_cacheGroup s) \<and> cg_lru (c_group c' (sw_cacheGroup s)) = None"
proof (cases "isGroupNonExistent (ev_lis env) (ev_loc env) (ct_gaps (c_track c (tw_track w))) gid \<or> \<not> downstream \<or> shouldSkipCaching (c_track c (tw_track w))")
  case True
  then have "\<exists>x. tw_beginSubgroup env w downstream gid sub c = Some (x, None, c)" by (auto simp: tw_beginSubgroup_def)
  then show thesis using that kept_refl [OF ok] by blast
next
  case False
  then have m: "hm_find (c_map c) (tw_ftn w) = Some (tw_track w)" using f by (auto simp: shouldSkipCaching_def)
  obtain ga c1 where c1: "getOrCreateGroupWithEviction env (tw_track w) gid (tw_ftn w) c = Some (ga, c1)" "kept F G c c1" "reg c1 (tw_ftn w) (tw_track w) gid ga"
    by (rule getOrCreateGroupWithEviction_kept [OF ok m])
  note r = removeGroupFromLRU_kept [OF kept_ok [OF c1(2)] c1(3)]
  have "tw_beginSubgroup env w downstream gid sub c = Some (Forwarded, Some \<lparr>sw_group = gid, sw_subgroup = sub, sw_track = tw_track w,
      sw_cacheGroup = ga, sw_ftn = tw_ftn w, sw_currentObject = 0, sw_currentLength = 0\<rparr>, removeGroupFromLRU ga (tw_track w) c1)"
    using False c1(1) by (simp add: tw_beginSubgroup_def new_subgroup_wb_def)
  then show thesis using that kept_trans [OF c1(2) r(1)] r(2,3) by simp
qed

subsection \<open>Runs\<close>

text \<open>
  A run interleaves subscriptions, the subgroups they open, single objects, lookups, purges and changes of the limits. The
  writers that are alive are kept in two lists, in the order in which they were made.
\<close>

record ('f, 'x, 'is) cache_run =
  r_cache :: "('f, 'x, 'is) cache"
  r_subs :: "'f subscribe_wb list"
  r_groups :: "'f subgroup_wb list"

datatype ('f, 'x) cache_op =
    Subscribe 'f
  | Unsubscribe nat
  | BeginSubgroup nat bool nat nat
  | CloseSubgroup nat
  | SubgroupObject nat nat "string option" 'x
  | SubgroupBeginObject nat nat nat "string option" 'x
  | SubgroupPayload nat string
  | SubgroupEndOfGroup nat nat
  | SubgroupEndOfTrack nat nat
  | SingleObject nat bool nat nat nat object_status 'x "string option"
  | Lookup 'f loc
  | PurgeTrack 'f
  | SetMaxBytes nat
  | SetMinEviction nat
  | SetMaxGroups nat
  | SetMaxTracks nat
  | SetDuration 'f int
  | ClearDuration 'f
  | SetExtensions 'f 'x
  | Clock int

definition remove_nth :: "nat \<Rightarrow> 'a list \<Rightarrow> 'a list" where
  "remove_nth i xs = take i xs @ drop (Suc i) xs"

definition set_cache :: "('f, 'x, 'is) cache_run \<Rightarrow> ('f, 'x, 'is) cache \<Rightarrow> ('f, 'x, 'is) cache_run" where
  "set_cache s c = s\<lparr>r_cache := c\<rparr>"

fun cache_exec :: "('x, 'is) cache_env \<Rightarrow> ('f, 'x) cache_op \<Rightarrow> ('f, 'x, 'is) cache_run \<Rightarrow> ('f, 'x, 'is) cache_run option" where
  "cache_exec env (Subscribe f) s = (let (w, c) = getSubscribeWriteback env f (r_cache s) in Some (s\<lparr>r_cache := c, r_subs := r_subs s @ [w]\<rparr>))"
| "cache_exec env (Unsubscribe i) s = Some (s\<lparr>r_cache := destroy_subscribe_wb (r_subs s ! i) (r_cache s), r_subs := remove_nth i (r_subs s)\<rparr>)"
| "cache_exec env (BeginSubgroup i down gid sub) s = do {
     (x, so, c) \<leftarrow> tw_beginSubgroup env (r_subs s ! i) down gid sub (r_cache s);
     Some (s\<lparr>r_cache := c, r_groups := r_groups s @ (case so of None \<Rightarrow> [] | Some g \<Rightarrow> [g])\<rparr>) }"
| "cache_exec env (CloseSubgroup j) s = Some (s\<lparr>r_cache := destroy_subgroup_wb (r_groups s ! j) (r_cache s), r_groups := remove_nth j (r_groups s)\<rparr>)"
| "cache_exec env (SubgroupObject j oid p ext) s = map_option (\<lambda>(x, c). set_cache s c) (sw_object env (r_groups s ! j) oid p ext (r_cache s))"
| "cache_exec env (SubgroupBeginObject j oid len p ext) s =
     map_option (\<lambda>(x, w, c). s\<lparr>r_cache := c, r_groups := (r_groups s)[j := w]\<rparr>) (sw_beginObject env (r_groups s ! j) oid len p ext (r_cache s))"
| "cache_exec env (SubgroupPayload j p) s =
     map_option (\<lambda>(w, c). s\<lparr>r_cache := c, r_groups := (r_groups s)[j := w]\<rparr>) (sw_objectPayload env (r_groups s ! j) p (r_cache s))"
| "cache_exec env (SubgroupEndOfGroup j oid) s = map_option (\<lambda>(x, c). set_cache s c) (sw_endOfGroup env (r_groups s ! j) oid (r_cache s))"
| "cache_exec env (SubgroupEndOfTrack j oid) s = map_option (\<lambda>(x, c). set_cache s c) (sw_endOfTrackAndGroup env (r_groups s ! j) oid (r_cache s))"
| "cache_exec env (SingleObject i dgram gid sub oid status ext p) s = map_option (\<lambda>(x, c). set_cache s c)
     (if dgram then tw_datagram env (r_subs s ! i) gid sub oid status ext p (r_cache s) else tw_objectStream env (r_subs s ! i) gid sub oid status ext p (r_cache s))"
| "cache_exec env (Lookup f p) s = Some (set_cache s (snd (hasCachedObject env f p (r_cache s))))"
| "cache_exec env (PurgeTrack f) s = Some (set_cache s (snd (purge_track env f (r_cache s))))"
| "cache_exec env (SetMaxBytes n) s = map_option (set_cache s) (setMaxCachedBytes env n (r_cache s))"
| "cache_exec env (SetMinEviction n) s = Some (set_cache s (setMinEvictionBytes n (r_cache s)))"
| "cache_exec env (SetMaxGroups n) s = map_option (set_cache s) (setMaxCachedGroupsPerTrack env n (r_cache s))"
| "cache_exec env (SetMaxTracks n) s = map_option (set_cache s) (setMaxCachedTracks env n (r_cache s))"
| "cache_exec env (SetDuration f d) s = Some (set_cache s (setMaxCacheDuration env f d (r_cache s)))"
| "cache_exec env (ClearDuration f) s = Some (set_cache s (clearMaxCacheDuration f (r_cache s)))"
| "cache_exec env (SetExtensions f ext) s = Some (set_cache s (setTrackExtensions env f ext (r_cache s)))"
| "cache_exec env (Clock t) s = Some (set_cache s ((r_cache s)\<lparr>c_now := t\<rparr>))"

text \<open>
  What a run must respect: a writer is used while it is alive; a subscription outlives its subgroups or another one of the
  same track does; one writer per group at a time; no purge of a track with an open subgroup; and the payload of an object stays
  within its announced length and arrives before the object expires.
\<close>

fun cache_admissible :: "('f, 'x) cache_op \<Rightarrow> ('f, 'x, 'is) cache_run \<Rightarrow> bool" where
  "cache_admissible (Unsubscribe i) s \<longleftrightarrow> i < length (r_subs s) \<and>
     (\<forall>g\<in>set (r_groups s). \<exists>w\<in>set (remove_nth i (r_subs s)). tw_track w = sw_track g)"
| "cache_admissible (BeginSubgroup i down gid sub) s \<longleftrightarrow> i < length (r_subs s) \<and>
     (\<forall>g\<in>set (r_groups s). \<not> (sw_ftn g = tw_ftn (r_subs s ! i) \<and> sw_group g = gid))"
| "cache_admissible (CloseSubgroup j) s \<longleftrightarrow> j < length (r_groups s)"
| "cache_admissible (SubgroupObject j oid p ext) s \<longleftrightarrow> j < length (r_groups s)"
| "cache_admissible (SubgroupBeginObject j oid len p ext) s \<longleftrightarrow> j < length (r_groups s) \<and> payload_size p \<le> len"
| "cache_admissible (SubgroupPayload j p) s \<longleftrightarrow> j < length (r_groups s) \<and>
     (let w = r_groups s ! j
      in hm_find (cg_objects (c_group (r_cache s) (sw_cacheGroup w))) (sw_currentObject w) \<noteq> None \<and> length p \<le> sw_currentLength w)"
| "cache_admissible (SubgroupEndOfGroup j oid) s \<longleftrightarrow> j < length (r_groups s)"
| "cache_admissible (SubgroupEndOfTrack j oid) s \<longleftrightarrow> j < length (r_groups s)"
| "cache_admissible (SingleObject i dgram gid sub oid status ext p) s \<longleftrightarrow> i < length (r_subs s)"
| "cache_admissible (PurgeTrack f) s \<longleftrightarrow> (\<forall>g\<in>set (r_groups s). sw_ftn g \<noteq> f)"
| "cache_admissible op s \<longleftrightarrow> True"

abbreviation cache_runs :: "('x, 'is) cache_env \<Rightarrow> ('f, 'x) cache_op list \<Rightarrow> ('f, 'x, 'is) cache_run \<Rightarrow> ('f, 'x, 'is) cache_run option" where
  "cache_runs env \<equiv> run_all (cache_exec env)"

fun run_admissible :: "('x, 'is) cache_env \<Rightarrow> ('f, 'x) cache_op list \<Rightarrow> ('f, 'x, 'is) cache_run \<Rightarrow> bool" where
  "run_admissible env [] s \<longleftrightarrow> True"
| "run_admissible env (op # ops) s \<longleftrightarrow> cache_admissible op s \<and> (case cache_exec env op s of None \<Rightarrow> True | Some s' \<Rightarrow> run_admissible env ops s')"

definition new_run :: "('f, 'x, 'is) cache \<Rightarrow> ('f, 'x, 'is) cache_run" where
  "new_run c = \<lparr>r_cache = c, r_subs = [], r_groups = []\<rparr>"

subsection \<open>The invariant of a run\<close>

definition sub_held :: "('f, 'x, 'is) cache \<Rightarrow> 'f subscribe_wb \<Rightarrow> bool" where
  "sub_held c w \<longleftrightarrow> tw_track w < c_next c \<and> (hm_find (c_map c) (tw_ftn w) = Some (tw_track w) \<or> ct_evicted (c_track c (tw_track w)))"

definition group_held :: "('f, 'x, 'is) cache \<Rightarrow> 'f subgroup_wb \<Rightarrow> bool" where
  "group_held c g \<longleftrightarrow> reg c (sw_ftn g) (sw_track g) (sw_group g) (sw_cacheGroup g) \<and> cg_lru (c_group c (sw_cacheGroup g)) = None"

definition run_ok :: "('f, 'x, 'is) cache_run \<Rightarrow> bool" where
  "run_ok s \<longleftrightarrow> cache_ok (r_cache s) \<and> idle_ok (r_cache s) \<and> (\<forall>w\<in>set (r_subs s). sub_held (r_cache s) w) \<and>
     (\<forall>ta. ct_liveWritebackCount (c_track (r_cache s) ta) = length (filter (\<lambda>w. tw_track w = ta) (r_subs s))) \<and>
     (\<forall>g\<in>set (r_groups s). group_held (r_cache s) g \<and> (\<exists>w\<in>set (r_subs s). tw_track w = sw_track g)) \<and>
     distinct (map sw_cacheGroup (r_groups s))"

lemma run_okD:
  assumes "run_ok s"
  shows "cache_ok (r_cache s)" "idle_ok (r_cache s)" "w \<in> set (r_subs s) \<Longrightarrow> sub_held (r_cache s) w"
    "ct_liveWritebackCount (c_track (r_cache s) ta) = length (filter (\<lambda>w. tw_track w = ta) (r_subs s))"
    "g \<in> set (r_groups s) \<Longrightarrow> group_held (r_cache s) g" "g \<in> set (r_groups s) \<Longrightarrow> \<exists>w\<in>set (r_subs s). tw_track w = sw_track g"
    "distinct (map sw_cacheGroup (r_groups s))"
  using assms by (simp_all add: run_ok_def)

lemma group_live:
  assumes "run_ok s" "g \<in> set (r_groups s)"
  shows "ct_liveWritebackCount (c_track (r_cache s) (sw_track g)) > 0"
proof -
  obtain w where "w \<in> set (r_subs s)" "tw_track w = sw_track g" using run_okD(6) [OF assms] by blast
  then have "filter (\<lambda>w. tw_track w = sw_track g) (r_subs s) \<noteq> []" by (auto simp: filter_empty_conv)
  then show ?thesis unfolding run_okD(4) [OF assms(1)] by simp
qed

lemma group_held_kept:
  assumes k: "keeps F G c c'" and h: "group_held c g" "sw_ftn g \<notin> F" "sw_cacheGroup g \<notin> G" "ct_liveWritebackCount (c_track c (sw_track g)) > 0"
  shows "group_held c' g"
proof -
  have r: "reg c (sw_ftn g) (sw_track g) (sw_group g) (sw_cacheGroup g)" and l: "cg_lru (c_group c (sw_cacheGroup g)) = None"
    using h(1) by (simp_all add: group_held_def)
  show ?thesis unfolding group_held_def using keepsD(5) [OF k h(2,3) r l h(4)] keepsD(6) [OF k h(2,3) r l h(4)] by simp
qed

lemma sub_held_kept: "keeps F G c c' \<Longrightarrow> sub_held c w \<Longrightarrow> sub_held c' w"
  unfolding sub_held_def using keepsD(1) [of F G c c'] keepsD(3) [of F G c c' "tw_track w"] keepsD(4) [of F G c c' "tw_ftn w" "tw_track w"] by auto

text \<open>An operation that keeps the writers keeps the invariant, for any of the open subgroups that it does not exempt.\<close>

lemma run_ok_kept:
  assumes s: "run_ok s" and k: "kept F G (r_cache s) c'" and gs: "set gs \<subseteq> set (r_groups s)" "distinct (map sw_cacheGroup gs)"
    "\<And>g. g \<in> set gs \<Longrightarrow> sw_ftn g \<notin> F" "\<And>g. g \<in> set gs \<Longrightarrow> sw_cacheGroup g \<notin> G"
  shows "run_ok (s\<lparr>r_cache := c', r_groups := gs\<rparr>)"
proof -
  have ke: "keeps F G (r_cache s) c'" and ok: "cache_ok c'" using k by (simp_all add: kept_def)
  have g: "group_held c' g \<and> (\<exists>w\<in>set (r_subs s). tw_track w = sw_track g)" if "g \<in> set gs" for g
  proof -
    have m: "g \<in> set (r_groups s)" using that gs(1) by blast
    show ?thesis using group_held_kept [OF ke run_okD(5) [OF s m] gs(3,4) [OF that] group_live [OF s m]] run_okD(6) [OF s m] by simp
  qed
  have w: "sub_held c' w" if "w \<in> set (r_subs s)" for w using sub_held_kept [OF ke run_okD(3) [OF s that]] .
  have l: "ct_liveWritebackCount (c_track c' ta) = length (filter (\<lambda>w. tw_track w = ta) (r_subs s))" for ta
    using keepsD(2) [OF ke] run_okD(4) [OF s] by simp
  show ?thesis unfolding run_ok_def using ok keepsD(7) [OF ke run_okD(2) [OF s]] g w l gs(2) by simp
qed

lemma run_ok_set_cache:
  assumes "run_ok s" "kept {} {} (r_cache s) c'"
  shows "run_ok (set_cache s c')"
  using run_ok_kept [OF assms, of "r_groups s"] run_okD(7) [OF assms(1)] by (simp add: set_cache_def)

lemma removeTrackFromLRU_kept:
  assumes ok: "cache_ok c" and f: "hm_find (c_map c) f = Some ta"
  shows "kept F G c (removeTrackFromLRU ta c)" "ct_lru (c_track (removeTrackFromLRU ta c) ta) = None"
    "hm_find (c_map (removeTrackFromLRU ta c)) f = Some ta"
proof -
  have "keeps F G c (removeTrackFromLRU ta c)"
    by (rule keepsI) (auto simp: removeTrackFromLRU_def upd_track_def reg_def idle_ok_def split: option.split)
  then show "kept F G c (removeTrackFromLRU ta c)" using removeTrackFromLRU_ok [OF ok f] by (simp add: kept_def)
  show "ct_lru (c_track (removeTrackFromLRU ta c) ta) = None" "hm_find (c_map (removeTrackFromLRU ta c)) f = Some ta"
    using f by (auto simp: removeTrackFromLRU_def upd_track_def split: option.split)
qed

text \<open>The count of live subscriptions is the only change a new writer of an unlisted track makes.\<close>

lemma live_count_ok:
  assumes ok: "cache_ok c"
  shows "cache_ok (upd_track ta (\<lambda>t. t\<lparr>ct_liveWritebackCount := h t\<rparr>) c)"
  by (rule upd_track_ok [OF ok]) simp_all

lemma group_held_live [simp]: "group_held (upd_track ta (\<lambda>t. t\<lparr>ct_liveWritebackCount := h t\<rparr>) c) g = group_held c g"
  by (simp add: group_held_def reg_def upd_track_def)

lemma sub_held_live [simp]: "sub_held (upd_track ta (\<lambda>t. t\<lparr>ct_liveWritebackCount := h t\<rparr>) c) w = sub_held c w"
  by (simp add: sub_held_def upd_track_def)

lemma Subscribe_ok:
  assumes s: "run_ok s"
  shows "\<exists>s'. cache_exec env (Subscribe f) s = Some s' \<and> run_ok s'"
proof -
  define c where "c = r_cache s"
  define c1 where "c1 = (if hm_find (c_map c) f = None \<and> length (c_map c) \<ge> c_maxTracks c then snd (evictOldestTrackIfNeeded env c) else c)"
  define ta c2 where "ta = fst (get_or_add_track env f c1)" and "c2 = snd (get_or_add_track env f c1)"
  have ok: "cache_ok c" and i: "idle_ok c" using run_okD(1,2) [OF s] by (simp_all add: c_def)
  have k1: "kept {} {} c c1" using evictOldestTrack_kept [OF ok i] kept_refl [OF ok] by (simp add: c1_def)
  have k2: "kept {} {} c1 c2" unfolding c2_def by (rule get_or_add_track_kept [OF kept_ok [OF k1] kept_idle [OF k1 i]])
  have f2: "hm_find (c_map c2) f = Some ta" unfolding c2_def ta_def by (rule get_or_add_track_ok(2) [OF kept_ok [OF k1]])
  note r = removeTrackFromLRU_kept [OF kept_ok [OF k2] f2]
  define c3 where "c3 = removeTrackFromLRU ta c2"
  have k3: "kept {} {} c c3" unfolding c3_def using kept_trans [OF kept_trans [OF k1 k2] r(1)] .
  have s3: "run_ok (set_cache s c3)" by (rule run_ok_set_cache [OF s]) (use k3 in \<open>simp add: c_def\<close>)
  let ?c = "upd_track ta (\<lambda>t. t\<lparr>ct_liveWritebackCount := ct_liveWritebackCount t + 1\<rparr>) c3"
  let ?s = "s\<lparr>r_cache := ?c, r_subs := r_subs s @ [\<lparr>tw_track = ta, tw_ftn = f\<rparr>]\<rparr>"
  have e: "cache_exec env (Subscribe f) s = Some ?s"
    by (simp add: getSubscribeWriteback_def new_subscribe_wb_def c_def [symmetric] c1_def [symmetric] c3_def ta_def c2_def case_prod_beta Let_def)
  have h3: "heap_ok c3" using kept_ok [OF k3] by (simp add: cache_ok_def groups_ok_def)
  have lt: "ta < c_next c3" using heap_okD(3) [OF h3 r(3) [folded c3_def]] .
  have "idle_ok ?c" using run_okD(2) [OF s3] r(2) [folded c3_def] lt by (simp add: idle_ok_def upd_track_def set_cache_def)
  moreover have "sub_held ?c \<lparr>tw_track = ta, tw_ftn = f\<rparr>" using lt r(3) [folded c3_def] by (simp add: sub_held_def upd_track_def)
  moreover have "ct_liveWritebackCount (c_track ?c t) = length (filter (\<lambda>w. tw_track w = t) (r_subs ?s))" for t
    using run_okD(4) [OF s3, of t] by (cases "t = ta") (simp_all add: upd_track_def set_cache_def)
  ultimately have "run_ok ?s"
    using live_count_ok [OF kept_ok [OF k3], of ta "\<lambda>t. ct_liveWritebackCount t + 1"] s3
    unfolding run_ok_def by (auto simp: set_cache_def)
  then show ?thesis using e by blast
qed

lemma remove_nth_subset: "set (remove_nth i xs) \<subseteq> set xs"
  by (auto simp: remove_nth_def dest: in_set_takeD in_set_dropD)

lemma length_filter_remove_nth:
  assumes "i < length xs"
  shows "length (filter P xs) = (if P (xs ! i) then 1 else 0) + length (filter P (remove_nth i xs))"
proof -
  have "filter P xs = filter P (take i xs @ xs ! i # drop (Suc i) xs)" using id_take_nth_drop [OF assms] by simp
  then show ?thesis by (simp add: remove_nth_def)
qed

lemma distinct_remove_nth:
  assumes "i < length xs" "distinct (map f xs)"
  shows "distinct (map f (remove_nth i xs))" "f (xs ! i) \<notin> f ` set (remove_nth i xs)"
proof -
  have "map f xs = map f (take i xs @ xs ! i # drop (Suc i) xs)" using id_take_nth_drop [OF assms(1)] by simp
  then have d: "distinct (map f (take i xs @ xs ! i # drop (Suc i) xs))" using assms(2) by simp
  show "distinct (map f (remove_nth i xs))" using d by (simp add: remove_nth_def)
  show "f (xs ! i) \<notin> f ` set (remove_nth i xs)" using d by (auto simp: remove_nth_def)
qed

lemma Unsubscribe_ok:
  assumes s: "run_ok s" and a: "cache_admissible (Unsubscribe i) s"
  shows "\<exists>s'. cache_exec env (Unsubscribe i) s = Some s' \<and> run_ok s'"
proof -
  have i: "i < length (r_subs s)" using a by simp
  define c w where "c = r_cache s" and "w = r_subs s ! i"
  let ?ta = "tw_track w" and ?ws = "remove_nth i (r_subs s)"
  note l = run_okD(4) [OF s, folded c_def, unfolded length_filter_remove_nth [OF i], folded w_def]
  have pos: "ct_liveWritebackCount (c_track c ?ta) > 0" using l [of ?ta] by simp
  define c2 where "c2 = upd_track ?ta (\<lambda>t. t\<lparr>ct_liveWritebackCount := ct_liveWritebackCount t - 1\<rparr>) c"
  let ?s2 = "s\<lparr>r_cache := c2, r_subs := ?ws\<rparr>"
  have d: "destroy_subscribe_wb w c = onTrackBecameEvictable (tw_ftn w) c2"
    using pos by (simp add: destroy_subscribe_wb_def c2_def)
  have "ct_liveWritebackCount (c_track c2 ta) = length (filter (\<lambda>w. tw_track w = ta) ?ws)" for ta
    using l [of ta] by (auto simp: c2_def upd_track_def)
  moreover have "idle_ok c2" using run_okD(2) [OF s, folded c_def] by (auto simp: idle_ok_def c2_def upd_track_def)
  moreover have "cache_ok c2" unfolding c2_def by (rule live_count_ok) (use run_okD(1) [OF s] in \<open>simp add: c_def\<close>)
  moreover have "sub_held c2 v" if "v \<in> set ?ws" for v
    using run_okD(3) [OF s, of v, folded c_def] subsetD [OF remove_nth_subset that] by (simp add: c2_def)
  moreover have "group_held c2 g \<and> (\<exists>v\<in>set ?ws. tw_track v = sw_track g)" if "g \<in> set (r_groups s)" for g
    using run_okD(5) [OF s that, folded c_def] a that by (simp add: c2_def)
  ultimately have s2: "run_ok ?s2" unfolding run_ok_def using run_okD(7) [OF s] by simp
  have "run_ok (set_cache ?s2 (onTrackBecameEvictable (tw_ftn w) c2))"
    by (rule run_ok_set_cache [OF s2]) (use onTrackBecameEvictable_kept [OF run_okD(1) [OF s2]] in simp)
  moreover have "cache_exec env (Unsubscribe i) s = Some (set_cache ?s2 (onTrackBecameEvictable (tw_ftn w) c2))"
    unfolding d [symmetric] by (cases s) (simp add: set_cache_def w_def c_def)
  ultimately show ?thesis by blast
qed

lemma BeginSubgroup_ok:
  assumes s: "run_ok s" and a: "cache_admissible (BeginSubgroup i down gid sub) s"
  shows "\<exists>s'. cache_exec env (BeginSubgroup i down gid sub) s = Some s' \<and> run_ok s'"
proof -
  define c w where "c = r_cache s" and "w = r_subs s ! i"
  have w: "w \<in> set (r_subs s)" using a by (simp add: w_def)
  have held: "hm_find (c_map c) (tw_ftn w) = Some (tw_track w) \<or> ct_evicted (c_track c (tw_track w))"
    using run_okD(3) [OF s w] by (simp add: sub_held_def c_def)
  obtain x so c' where b: "tw_beginSubgroup env w down gid sub c = Some (x, so, c')" "kept {} {} c c'"
    and new: "\<And>g. so = Some g \<Longrightarrow> sw_ftn g = tw_ftn w \<and> sw_track g = tw_track w \<and> sw_group g = gid \<and>
       reg c' (sw_ftn g) (sw_track g) (sw_group g) (sw_cacheGroup g) \<and> cg_lru (c_group c' (sw_cacheGroup g)) = None"
    using tw_beginSubgroup_kept [OF run_okD(1) [OF s, folded c_def] held] by blast
  have s1: "run_ok (set_cache s c')" by (rule run_ok_set_cache [OF s]) (use b(2) in \<open>simp add: c_def\<close>)
  have e: "cache_exec env (BeginSubgroup i down gid sub) s = Some (s\<lparr>r_cache := c', r_groups := r_groups s @ (case so of None \<Rightarrow> [] | Some g \<Rightarrow> [g])\<rparr>)"
    using b(1) by (simp add: w_def c_def)
  show ?thesis
  proof (cases so)
    case None
    then show ?thesis using e s1 by (simp add: set_cache_def)
  next
    case (Some g)
    note n = new [OF Some]
    have gh: "group_held c' g" unfolding group_held_def using n by (elim conjE) (intro conjI)
    then have rg: "reg c' (sw_ftn g) (sw_track g) (sw_group g) (sw_cacheGroup g)" unfolding group_held_def by (rule conjunct1)
    have h: "heap_ok c'" using b(2) by (simp add: kept_def cache_ok_def groups_ok_def)
    have "sw_cacheGroup g' \<noteq> sw_cacheGroup g" if m: "g' \<in> set (r_groups s)" for g'
    proof
      assume eq: "sw_cacheGroup g' = sw_cacheGroup g"
      have "reg c' (sw_ftn g') (sw_track g') (sw_group g') (sw_cacheGroup g)"
        using run_okD(5) [OF s1, of g'] m eq by (simp add: set_cache_def group_held_def)
      from heap_regD(1,2) [OF h this rg] n have "sw_ftn g' = tw_ftn w" "sw_group g' = gid" by auto
      then show False using a m by (auto simp: w_def)
    qed
    then have "sw_cacheGroup g \<notin> sw_cacheGroup ` set (r_groups s)" by fastforce
    moreover have "\<exists>w\<in>set (r_subs s). tw_track w = sw_track g" using n w by metis
    ultimately have "run_ok (s\<lparr>r_cache := c', r_groups := r_groups s @ [g]\<rparr>)"
      using s1 gh unfolding run_ok_def by (simp add: set_cache_def)
    then show ?thesis using e Some by simp
  qed
qed

lemma CloseSubgroup_ok:
  assumes s: "run_ok s" and a: "cache_admissible (CloseSubgroup j) s"
  shows "\<exists>s'. cache_exec env (CloseSubgroup j) s = Some s' \<and> run_ok s'"
proof -
  have j: "j < length (r_groups s)" using a by simp
  define g where "g = r_groups s ! j"
  have "g \<in> set (r_groups s)" using j by (simp add: g_def)
  then have r: "reg (r_cache s) (sw_ftn g) (sw_track g) (sw_group g) (sw_cacheGroup g)" using run_okD(5) [OF s] by (simp add: group_held_def)
  have k: "kept {} {sw_cacheGroup g} (r_cache s) (destroy_subgroup_wb g (r_cache s))"
    unfolding destroy_subgroup_wb_def by (rule addGroupToLRU_kept [OF run_okD(1) [OF s] r]) simp
  note d = distinct_remove_nth [OF j run_okD(7) [OF s], folded g_def]
  have "run_ok (s\<lparr>r_cache := destroy_subgroup_wb g (r_cache s), r_groups := remove_nth j (r_groups s)\<rparr>)"
    by (rule run_ok_kept [OF s k remove_nth_subset d(1)]) (simp, metis d(2) image_eqI singletonD)
  then show ?thesis by (simp add: g_def)
qed

lemma group_update_ok:
  assumes s: "run_ok s" and k: "kept {} {} (r_cache s) c'" and j: "j < length (r_groups s)" and w: "same_wb (r_groups s ! j) w'"
  shows "run_ok (s\<lparr>r_cache := c', r_groups := (r_groups s)[j := w']\<rparr>)"
proof -
  note s1 = run_ok_set_cache [OF s k]
  have "map sw_cacheGroup ((r_groups s)[j := w']) = map sw_cacheGroup (r_groups s)"
    using w j by (simp add: map_update same_wb_def) (metis list_update_id map_update nth_map)
  moreover have "group_held c' g \<and> (\<exists>w\<in>set (r_subs s). tw_track w = sw_track g)" if "g \<in> set ((r_groups s)[j := w'])" for g
  proof -
    from that consider "g \<in> set (r_groups s)" | "g = w'" using set_update_subset_insert by fast
    then show ?thesis
    proof cases
      case 1
      then show ?thesis using s1 by (simp add: run_ok_def set_cache_def)
    next
      case 2
      have "r_groups s ! j \<in> set (r_groups s)" using j by simp
      then show ?thesis using s1 w 2 by (simp add: run_ok_def set_cache_def same_wb_def group_held_def)
    qed
  qed
  ultimately show ?thesis using s1 unfolding run_ok_def by (simp add: set_cache_def)
qed

lemma group_op_ok:
  assumes s: "run_ok s" and j: "j < length (r_groups s)"
  shows "cache_ok (r_cache s)"
    "reg (r_cache s) (sw_ftn (r_groups s ! j)) (sw_track (r_groups s ! j)) (sw_group (r_groups s ! j)) (sw_cacheGroup (r_groups s ! j))"
  using run_okD(1) [OF s] run_okD(5) [OF s, of "r_groups s ! j"] j by (simp_all add: group_held_def)

lemma sub_op_ok:
  assumes s: "run_ok s" and i: "i < length (r_subs s)"
  shows "hm_find (c_map (r_cache s)) (tw_ftn (r_subs s ! i)) = Some (tw_track (r_subs s ! i)) \<or> ct_evicted (c_track (r_cache s) (tw_track (r_subs s ! i)))"
  using run_okD(3) [OF s, of "r_subs s ! i"] i by (simp add: sub_held_def)

lemma stored_ok:
  assumes s: "run_ok s" and j: "j < length (r_groups s)"
  shows "\<exists>s'. map_option (\<lambda>(x, c). set_cache s c) (if shouldSkipCaching (c_track (r_cache s) (sw_track (r_groups s ! j))) then Some (Forwarded, r_cache s)
      else sw_store env (r_groups s ! j) oid status ext p complete (r_cache s)) = Some s' \<and> run_ok s'"
proof (cases "shouldSkipCaching (c_track (r_cache s) (sw_track (r_groups s ! j)))")
  case True
  then show ?thesis using s by (simp add: set_cache_def)
next
  case False
  obtain x c' where "sw_store env (r_groups s ! j) oid status ext p complete (r_cache s) = Some (x, c')" "kept {} {} (r_cache s) c'"
    by (rule sw_store_kept [OF group_op_ok [OF s j]])
  then show ?thesis using run_ok_set_cache [OF s] False by simp
qed

lemma SubgroupBeginObject_ok:
  assumes s: "run_ok s" and a: "cache_admissible (SubgroupBeginObject j oid len p ext) s"
  shows "\<exists>s'. cache_exec env (SubgroupBeginObject j oid len p ext) s = Some s' \<and> run_ok s'"
proof -
  have j: "j < length (r_groups s)" and l: "payload_size p \<le> len" using a by simp_all
  obtain x w' c' where "sw_beginObject env (r_groups s ! j) oid len p ext (r_cache s) = Some (x, w', c')" "kept {} {} (r_cache s) c'" "same_wb (r_groups s ! j) w'"
    by (rule sw_beginObject_kept [OF group_op_ok [OF s j] l])
  then show ?thesis using group_update_ok [OF s _ j] by simp
qed

lemma SubgroupPayload_ok:
  assumes s: "run_ok s" and a: "cache_admissible (SubgroupPayload j p) s"
  shows "\<exists>s'. cache_exec env (SubgroupPayload j p) s = Some s' \<and> run_ok s'"
proof -
  have j: "j < length (r_groups s)" and l: "length p \<le> sw_currentLength (r_groups s ! j)" using a by (simp_all add: Let_def)
  obtain e where e: "hm_find (cg_objects (c_group (r_cache s) (sw_cacheGroup (r_groups s ! j)))) (sw_currentObject (r_groups s ! j)) = Some e"
    using a by (auto simp: Let_def)
  obtain w' c' where "sw_objectPayload env (r_groups s ! j) p (r_cache s) = Some (w', c')" "kept {} {} (r_cache s) c'" "same_wb (r_groups s ! j) w'"
    by (rule sw_objectPayload_kept [OF group_op_ok [OF s j] e l])
  then show ?thesis using group_update_ok [OF s _ j] by simp
qed

lemma SingleObject_ok:
  assumes s: "run_ok s" and a: "cache_admissible (SingleObject i dgram gid sub oid status ext p) s"
  shows "\<exists>s'. cache_exec env (SingleObject i dgram gid sub oid status ext p) s = Some s' \<and> run_ok s'"
proof -
  have i: "i < length (r_subs s)" using a by simp
  obtain x c' where "tw_store env (r_subs s ! i) dgram gid sub oid status ext p (r_cache s) = Some (x, c')" "kept {} {} (r_cache s) c'"
    by (rule tw_store_kept [OF run_okD(1) [OF s] sub_op_ok [OF s i]])
  then show ?thesis using run_ok_set_cache [OF s] by (cases dgram) (simp_all add: tw_datagram_def tw_objectStream_def)
qed

lemma PurgeTrack_ok:
  assumes s: "run_ok s" and a: "cache_admissible (PurgeTrack f) s"
  shows "\<exists>s'. cache_exec env (PurgeTrack f) s = Some s' \<and> run_ok s'"
proof -
  have "kept {f} {} (r_cache s) (snd (purge_track env f (r_cache s)))" by (rule purge_track_kept [OF run_okD(1) [OF s]]) simp
  from run_ok_kept [OF s this, of "r_groups s"] a run_okD(7) [OF s] show ?thesis by (simp add: set_cache_def)
qed

lemma set_cache_ok:
  assumes "run_ok s" "kept {} {} (r_cache s) c'"
  shows "\<exists>s'. Some (set_cache s c') = Some s' \<and> run_ok s'"
  using run_ok_set_cache [OF assms] by simp

lemma subgroup_write_ok:
  assumes s: "run_ok s"
  shows "cache_admissible (SubgroupObject j oid p ext) s \<Longrightarrow> \<exists>s'. cache_exec env (SubgroupObject j oid p ext) s = Some s' \<and> run_ok s'"
    "cache_admissible (SubgroupEndOfGroup j oid) s \<Longrightarrow> \<exists>s'. cache_exec env (SubgroupEndOfGroup j oid) s = Some s' \<and> run_ok s'"
    "cache_admissible (SubgroupEndOfTrack j oid) s \<Longrightarrow> \<exists>s'. cache_exec env (SubgroupEndOfTrack j oid) s = Some s' \<and> run_ok s'"
  unfolding cache_exec.simps cache_admissible.simps sw_object_def sw_endOfGroup_def sw_endOfTrackAndGroup_def by (rule stored_ok [OF s]; assumption)+

lemma setting_ok:
  assumes s: "run_ok s"
  shows "\<exists>s'. cache_exec env (Lookup f p) s = Some s' \<and> run_ok s'" "\<exists>s'. cache_exec env (SetMinEviction n) s = Some s' \<and> run_ok s'"
    "\<exists>s'. cache_exec env (SetDuration f d) s = Some s' \<and> run_ok s'" "\<exists>s'. cache_exec env (ClearDuration f) s = Some s' \<and> run_ok s'"
    "\<exists>s'. cache_exec env (SetExtensions f ext) s = Some s' \<and> run_ok s'" "\<exists>s'. cache_exec env (Clock t) s = Some s' \<and> run_ok s'"
  unfolding cache_exec.simps setMinEvictionBytes_def
  by (rule set_cache_ok [OF s], rule hasCachedObject_kept limits_kept(2,5) setMaxCacheDuration_kept clearMaxCacheDuration_kept setTrackExtensions_kept,
      (rule run_okD(1,2) [OF s])+)+

lemma limit_ok:
  assumes s: "run_ok s"
  shows "\<exists>s'. cache_exec env (SetMaxBytes n) s = Some s' \<and> run_ok s'" "\<exists>s'. cache_exec env (SetMaxGroups n) s = Some s' \<and> run_ok s'"
    "\<exists>s'. cache_exec env (SetMaxTracks n) s = Some s' \<and> run_ok s'"
proof -
  obtain c' where "setMaxCachedBytes env n (r_cache s) = Some c'" "kept {} {} (r_cache s) c'" by (rule setMaxCachedBytes_kept [OF run_okD(1) [OF s]])
  then show "\<exists>s'. cache_exec env (SetMaxBytes n) s = Some s' \<and> run_ok s'" using set_cache_ok [OF s] by simp
  obtain c' where "setMaxCachedGroupsPerTrack env n (r_cache s) = Some c'" "kept {} {} (r_cache s) c'"
    by (rule setMaxCachedGroupsPerTrack_kept [OF run_okD(1) [OF s]])
  then show "\<exists>s'. cache_exec env (SetMaxGroups n) s = Some s' \<and> run_ok s'" using set_cache_ok [OF s] by simp
  obtain c' where "setMaxCachedTracks env n (r_cache s) = Some c'" "kept {} {} (r_cache s) c'" by (rule setMaxCachedTracks_kept [OF run_okD(1,2) [OF s]])
  then show "\<exists>s'. cache_exec env (SetMaxTracks n) s = Some s' \<and> run_ok s'" using set_cache_ok [OF s] by simp
qed

lemma cache_exec_ok:
  assumes s: "run_ok s" and a: "cache_admissible op s"
  shows "\<exists>s'. cache_exec env op s = Some s' \<and> run_ok s'"
  using a by (cases op; hypsubst)
    ((rule Subscribe_ok [OF s] setting_ok [OF s] limit_ok [OF s] | rule Unsubscribe_ok [OF s] BeginSubgroup_ok [OF s] CloseSubgroup_ok [OF s]
       SubgroupBeginObject_ok [OF s] SubgroupPayload_ok [OF s] SingleObject_ok [OF s] PurgeTrack_ok [OF s] subgroup_write_ok [OF s], assumption)+)

lemma cache_runs_ok:
  assumes "run_ok s" "run_admissible env ops s"
  shows "\<exists>s'. cache_runs env ops s = Some s' \<and> run_ok s'"
  using assms
proof (induction ops arbitrary: s)
  case (Cons op ops)
  obtain s1 where s1: "cache_exec env op s = Some s1" "run_ok s1" using cache_exec_ok [OF Cons.prems(1), of op env] Cons.prems(2) by auto
  then show ?case using Cons.IH [OF s1(2)] Cons.prems(2) by simp
qed simp

lemma new_run_ok: "run_ok (new_run (new_cache env a b d e :: ('f, 'x, 'is) cache))"
proof -
  have "idle_ok (new_cache env a b d e :: ('f, 'x, 'is) cache)" by (simp add: idle_ok_def new_cache_def new_track_def)
  then show ?thesis using new_cache_ok [of env a b d e, where ?'f = 'f] by (simp add: run_ok_def new_run_def) (simp add: new_cache_def new_track_def)
qed

subsection \<open>The number of cached bytes\<close>

definition cached_bytes :: "('f, 'x, 'is) cache \<Rightarrow> nat" where
  "cached_bytes c = sum_list (map (\<lambda>(f, ta). sum_list (map (\<lambda>(g, ga). sum_list (map (\<lambda>(k, e). ce_payloadSize e) (cg_objects (c_group c ga))))
     (ct_groups (c_track c ta)))) (c_map c))"

lemma sum_list_keys: "distinct (hm_keys m) \<Longrightarrow> sum_list (map h m) = sum h (set m)"
  by (simp add: sum_list_distinct_conv_sum_set distinct_map)

lemma cached_bytes_total:
  assumes ok: "cache_ok c"
  shows "c_total c = cached_bytes c"
proof -
  have h: "heap_ok c" and b: "bytes_ok c" using ok by (simp_all add: cache_ok_def groups_ok_def)
  define D where "D = (SIGMA x:set (c_map c). set (ct_groups (c_track c (snd x))))"
  have reg_iff: "reg c f ta g ga \<longleftrightarrow> ((f, ta), (g, ga)) \<in> D" for f ta g ga
    using heap_okD(1) [OF h] heap_okD(4) [OF h] by (auto simp: reg_def D_def map_of_eq_Some_iff)
  have "inj_on (\<lambda>x. snd (snd x)) D"
  proof (rule inj_onI)
    fix x y assume d: "x \<in> D" "y \<in> D" and e: "snd (snd x) = snd (snd y)"
    then have "reg c (fst (fst x)) (snd (fst x)) (fst (snd x)) (snd (snd x))" "reg c (fst (fst y)) (snd (fst y)) (fst (snd y)) (snd (snd x))"
      unfolding reg_iff using d e by (cases x; cases y; auto)+
    from heap_regD [OF h this] e show "x = y" by (simp add: prod_eq_iff)
  qed
  moreover have "(\<lambda>x. snd (snd x)) ` D = gaddrs c" by (force simp: gaddrs_def reg_iff)
  ultimately have bij: "bij_betw (\<lambda>x. snd (snd x)) D (gaddrs c)" by (simp add: bij_betw_def)
  have "c_total c = (\<Sum>ga\<in>gaddrs c. group_bytes (c_group c ga))" using b by (simp add: bytes_ok_def group_ok_def)
  also have "\<dots> = (\<Sum>x\<in>D. group_bytes (c_group c (snd (snd x))))" using sum.reindex_bij_betw [OF bij, of "\<lambda>ga. group_bytes (c_group c ga)"] by simp
  also have "\<dots> = (\<Sum>x\<in>set (c_map c). \<Sum>y\<in>set (ct_groups (c_track c (snd x))). group_bytes (c_group c (snd y)))"
    unfolding D_def by (subst sum.Sigma) (simp_all add: case_prod_beta)
  also have "\<dots> = (\<Sum>x\<in>set (c_map c). sum_list (map (\<lambda>y. group_bytes (c_group c (snd y))) (ct_groups (c_track c (snd x)))))"
  proof (rule sum.cong)
    fix x assume "x \<in> set (c_map c)"
    then have "hm_find (c_map c) (fst x) = Some (snd x)" using heap_okD(1) [OF h] by (simp add: map_of_eq_Some_iff)
    from heap_okD(4) [OF h this] show "(\<Sum>y\<in>set (ct_groups (c_track c (snd x))). group_bytes (c_group c (snd y))) =
        sum_list (map (\<lambda>y. group_bytes (c_group c (snd y))) (ct_groups (c_track c (snd x))))" by (simp add: sum_list_keys)
  qed simp
  also have "\<dots> = cached_bytes c"
    unfolding cached_bytes_def group_bytes_def sum_list_keys [OF heap_okD(1) [OF h], symmetric] case_prod_unfold ..
  finally show ?thesis .
qed

definition demo_env :: "(unit, (loc \<times> loc) list) cache_env" where
  "demo_env = \<lparr>ev_loc = std_loc 9 9, ev_lis = std_lis (std_loc 9 9), ev_priorGroupGap = (\<lambda>_. None), ev_priorObjectGap = (\<lambda>_. None),
     ev_maxCacheDuration = (\<lambda>_. None), ev_noExtensions = (), ev_emptySet = []\<rparr>"

definition demo_cache :: "(nat, unit, (loc \<times> loc) list) cache" where
  "demo_cache = new_cache demo_env 2 2 4 1"

definition demo_ops :: "(nat, unit) cache_op list" where
  "demo_ops = [Subscribe 0, BeginSubgroup 0 True 1 0, SubgroupBeginObject 0 0 3 (Some ''a'') (), SubgroupPayload 0 ''bc'', CloseSubgroup 0]"

lemma demo_env_fields:
  "ev_loc demo_env = std_loc 9 9" "ev_lis demo_env = std_lis (std_loc 9 9)" "ev_priorGroupGap demo_env x = None" "ev_priorObjectGap demo_env x = None"
  "ev_maxCacheDuration demo_env x = None" "ev_noExtensions demo_env = ()" "ev_emptySet demo_env = []"
  by (simp_all add: demo_env_def)

lemmas cache_eval = demo_env_fields demo_cache_def demo_ops_def new_cache_def new_track_def new_cache_group_def new_run_def std_loc_def std_lis_def in_iv_def
  getSubscribeWriteback_def get_or_add_track_def new_subscribe_wb_def removeTrackFromLRU_def upd_track_def upd_group_def Let_def
  tw_beginSubgroup_def isGroupNonExistent_def shouldSkipCaching_def getOrCreateGroupWithEviction_def evictOldestGroupsIfNeeded_def getOrCreateGroup_def
  addGroupToLRU_def new_subgroup_wb_def removeGroupFromLRU_def check_def has_node_def erase_node_def
  sw_beginObject_def sw_store_def updateLargest_def isEndOfTrack_def cacheObjectAndUpdateBytes_def cacheObject_def processGapExtensions_def
  put_entry_def entry_error_def payload_size_def sub_size_def sw_objectPayload_def add_payload_def
  destroy_subgroup_wb_def set_cache_def cached_bytes_def remove_nth_def

lemma demo_admissible: "run_admissible demo_env demo_ops (new_run demo_cache)"
  by (simp add: cache_eval evictForByteLimitIfNeeded_def evict_groups_loop.simps)





subsection \<open>Outside these runs\<close>


definition stale_ops :: "(nat, unit) cache_op list" where
  "stale_ops = [Subscribe 0, BeginSubgroup 0 True 1 0, PurgeTrack 0, CloseSubgroup 0, Subscribe 0, SingleObject 1 False 7 0 0 NORMAL () (Some ''abcde'')]"


text \<open>C40: A lookup of an object that is still being written and has outlived the cache duration of its track removes the entry, and the
  next piece of its payload then goes through a null pointer.\<close>

theorem expired_object_crashes:
  assumes r: "reg c (sw_ftn w) (sw_track w) (sw_group w) (sw_cacheGroup w)" and t: "\<not> ct_evicted (c_track c (sw_track w))"
    and e: "hm_find (cg_objects (c_group c (sw_cacheGroup w))) (sw_currentObject w) = Some e"
    and d: "ct_maxCacheDuration (c_track c (sw_track w)) = Some d" "d \<noteq> 0" "c_now c - ce_cachedAt e > d"
  shows "\<exists>c'. hasCachedObject env (sw_ftn w) (sw_group w, sw_currentObject w) c = (False, c') \<and>
    sw_objectPayload env w payload c' = Some (w, c'\<lparr>c_crashed := True\<rparr>)"
  using r t e d by (simp add: hasCachedObject_def getCachedObjectMaybe_def reg_def Let_def sw_objectPayload_def shouldSkipCaching_def upd_track_def upd_group_def check_def)

definition expire_ops :: "(nat, unit) cache_op list" where
  "expire_ops = [Subscribe 0, SetDuration 0 10, BeginSubgroup 0 True 1 0, SubgroupBeginObject 0 0 3 (Some ''a'') (), Clock 11]"

theorem expired_object_crashes_witness:
  "run_admissible demo_env expire_ops (new_run demo_cache) \<and>
   map_option (\<lambda>s. c_crashed (r_cache s)) (cache_runs demo_env (expire_ops @ [Lookup 0 (1, 0), SubgroupPayload 0 ''bc'']) (new_run demo_cache)) = Some True"
proof -
  note ev = cache_eval expire_ops_def evict_groups_loop.simps evictForByteLimitIfNeeded_def setMaxCacheDuration_def
  have a: "run_admissible demo_env expire_ops (new_run demo_cache)" by (simp add: ev)
  define P where "P = (\<lambda>s :: (nat, unit, (loc \<times> loc) list) cache_run. let c = r_cache s; w = r_groups s ! 0
    in sw_ftn w = 0 \<and> sw_group w = 1 \<and> sw_currentObject w = 0 \<and> reg c (sw_ftn w) (sw_track w) (sw_group w) (sw_cacheGroup w) \<and>
       \<not> ct_evicted (c_track c (sw_track w)) \<and> ct_maxCacheDuration (c_track c (sw_track w)) = Some 10 \<and> c_now c = 11 \<and>
       map_option ce_cachedAt (hm_find (cg_objects (c_group c (sw_cacheGroup w))) 0) = Some 0)"
  have "map_option P (cache_runs demo_env expire_ops (new_run demo_cache)) = Some True" by (simp add: ev P_def reg_def)
  then obtain s where s: "cache_runs demo_env expire_ops (new_run demo_cache) = Some s" "P s" by auto
  then obtain e where "hm_find (cg_objects (c_group (r_cache s) (sw_cacheGroup (r_groups s ! 0)))) 0 = Some e" "ce_cachedAt e = 0" by (auto simp: P_def Let_def)
  then obtain c' where c': "hasCachedObject demo_env 0 (1, 0) (r_cache s) = (False, c')"
    "sw_objectPayload demo_env (r_groups s ! 0) ''bc'' c' = Some (r_groups s ! 0, c'\<lparr>c_crashed := True\<rparr>)"
    using expired_object_crashes [of "r_cache s" "r_groups s ! 0" e 10 demo_env "''bc''"] s(2) by (auto simp: P_def Let_def)
  have app: "cache_runs env (xs @ ys) z = Option.bind (cache_runs env xs z) (cache_runs env ys)" for env :: "('x, 'is) cache_env" and xs ys and z :: "('f, 'x, 'is) cache_run"
    by (induction xs arbitrary: z) (simp_all split: bind_split)
  show ?thesis using a s(1) c' by (simp add: app set_cache_def)
qed

end
