(* ===== verification/Spec2Isabelle.thy ===== *)
theory Spec2Isabelle
  imports Config_Validity Namespace_Tree Property_Ranking Stats_Collectors Subscription_Registry
    Json_Writer Reuseport_Steering Upstream_Provider Cache_Runs
begin

text \<open>
  \<^bold>\<open>Verification of the moqx relay (src/src).\<close>

  moqx is a Media-over-QUIC relay. A configuration file is parsed and resolved; each connection is
  matched by authority and path to a service; each service owns a relay, which keeps a tree of
  namespaces (who publishes what, who listens to which prefix), a registry of subscriptions with one
  forwarder per track, property rankings that select the best tracks for a listener, an optional
  object cache, and a provider of sessions to an upstream relay. Statistics are collected per worker
  thread and rendered as Prometheus text; the admin endpoints write JSON; a socket filter steers QUIC
  packets to workers.

  \<^bold>\<open>Conventions.\<close> A hash map is an association list (\<open>hmap\<close>), whose order stands for the
  unspecified iteration order. Machine integers are \<open>64 word\<close> where wrap-around can be observed, or
  \<open>nat\<close> with \<open>add64\<close> and \<open>sub64\<close>, which write it out. Callbacks and writes to other objects are returned
  as lists of events or effects. A coroutine is one definition per segment between suspension points,
  and every interleaving of segments is a run. A shared_ptr is an identity, with an explicit heap where
  the code writes through it. \<open>None\<close> as the result of an operation is a failed check or a loop that
  never ends, and \<open>Inl\<close> an exception; each theory says which. The moxygen, folly and reflect-cpp
  libraries are parameters.

  \<^bold>\<open>Theories.\<close>

  \<^item> \<^emph>\<open>Prelude\<close>: hash maps, 64-bit arithmetic, runs of operations, and the locales of the shared
    contracts: a sorting routine (\<open>std_sort\<close>, extended in \<^emph>\<open>Service_Matcher\<close> by \<open>rule_sort\<close>), a store
    changed at one key at a time (\<open>keyed_store\<close>, instantiated by the namespace tree), a statistics
    collector (\<open>stats_collector\<close>, instantiated by the four collectors), and a loop whose rank shrinks
    (\<open>shrinking_loop\<close>, instantiated by the three eviction loops of the cache).
  \<^item> \<^emph>\<open>Config_Types\<close> (config/Config.h, sbd/Service.h), \<^emph>\<open>Parsed_Config\<close> (config/loader/ParsedConfig.h),
    \<^emph>\<open>Config_Resolver\<close> (config/ConfigResolver.cpp): the two configuration models and every function that
    validates the first and turns it into the second. \<^emph>\<open>Config_Validity\<close>: a configuration is rejected
    exactly when validation reports an error, and what is accepted is safe to use: listeners have
    usable parameters, and the matcher can be built from the services and answers in one way only.
  \<^item> \<^emph>\<open>Service_Matcher\<close> (ServiceMatcher.h, .cpp): the tiers of rules, \<open>match\<close> and \<open>allExactPaths\<close>; a lookup
    answers with a rule of the highest priority, whatever the order of the service map and the sort.
  \<^item> \<^emph>\<open>Namespace_Tree\<close> (NamespaceTree.h, .cpp): the nodes with their counters and pruning; no check fails, no
    node with content is pruned, and the tree refines a map from namespaces to their content.
  \<^item> \<^emph>\<open>Property_Ranking\<close> (relay/PropertyRanking.h, .cpp) and \<^emph>\<open>Topn_Filter\<close> (relay/TopNFilter.h, .cpp): the ranked
    map, the groups and their incremental updates; after every run each group has selected exactly its
    best tracks, the deselected queue is bounded, and an observer hears every change of a property.
  \<^item> \<^emph>\<open>Subscription_Registry\<close> (SubscriptionRegistry.h, .cpp): entries, promises and pending subscribes, with a
    step relation for all interleavings; a pending subscribe acts on its own entry only, and no waiter
    is stranded.
  \<^item> \<^emph>\<open>Upstream_Provider\<close> (UpstreamProvider.h, .cpp): connecting, reconnecting with backoff, and stopping, as
    segments; no caller is stranded.
  \<^item> \<^emph>\<open>Bounded_Histogram\<close>, \<^emph>\<open>Stats_Registry\<close>, \<^emph>\<open>Stats_Collectors\<close> (stats/): histograms, snapshots and their
    text, which reads back to the numbers written; the collectors and their sum over worker threads.
  \<^item> \<^emph>\<open>Json_Writer\<close> (admin/JsonWriter.h): what is written is JSON and reads back to the value written.
  \<^item> \<^emph>\<open>Reuseport_Steering\<close> (bpf/QuicReuseportSteering.cpp): the classic BPF program, run by a small machine,
    computes the worker the comments describe for every packet.
  \<^item> \<^emph>\<open>Fetch_Ranges\<close> (MoqxCache.cpp: gap and interval computations, FetchRangeIterator): exactness for ascending
    order, termination, and what goes wrong in descending order.
  \<^item> \<^emph>\<open>Object_Cache\<close>, \<^emph>\<open>Cache_Books\<close>, \<^emph>\<open>Cache_Runs\<close> (MoqxCache.h, .cpp): the cache with its lists of evictable
    tracks and groups, the writers of a subscription, purging and eviction. The books (byte counts,
    lists, reference counts) are exact in every reachable state, eviction terminates under them, and two
    admissible runs show the cache hanging and dereferencing a null pointer.

  \<^bold>\<open>Bounds and fuel.\<close> \<open>bpf_run\<close> has the length of the program as fuel, which is enough because classic BPF
  jumps forward only; the reader of \<^emph>\<open>Json_Writer\<close> has the length of the text, every call consuming at
  least one character. The eviction loops of the cache are partial functions (\<open>None\<close>: the loop never
  ends), and that they end is a theorem. Every other recursion has a termination proof.

  \<^bold>\<open>Not modelled.\<close> The fetch side of MoqxCache (FetchWriteback and the coroutines that serve FETCH), whose
  control flow is suspended and resumed by the upstream library object by object; MoqxRelay and the
  CrossExec filters, which forward calls between moxygen sessions, forwarders and executors;
  MoqxRelayContext, the two servers and main, which create and wire library objects; the admin handlers,
  which parse HTTP with proxygen; the shared-bottleneck detectors and the client network metrics,
  whose content is floating-point statistics; and the reading of the configuration file. The Python
  laboratory, benchmarks and scripts drive the relay from outside.
\<close>

end
